(* ===== verification/Prelude.thy ===== *)
theory Prelude
  imports Main "HOL-Library.Word"
begin

unbundle bit_operations_syntax

text \<open>
  Shared vocabulary of the development.

  \<^item> Rust's machine integers are words (\<open>u8\<close>, \<open>u16\<close>, \<open>u32\<close>, \<open>u64\<close>); \<open>usize\<close> is
    64 bits wide on the targets modelled here.
  \<^item> A Rust \<open>Result<T, E>\<close> is a sum \<open>'e + 'a\<close> with \<open>Inl\<close> for the error.
  \<^item> A panic (an out-of-range slice index, a failed \<open>assert!\<close>) is the value \<open>None\<close> of an
    option wrapped around the result, so that \<open>does not panic\<close> is a provable statement.
  \<^item> A \<open>BTreeMap\<close> is an association list with strictly increasing keys: lookup, insertion and
    removal behave as a map, and iteration visits the keys in order.
\<close>

section \<open>Theorem collections\<close>

named_theorems bitmap_simps \<open>bit tests and updates of machine words\<close>
named_theorems btree_simps \<open>lookup in ordered maps after an update\<close>
named_theorems frame_rules \<open>what an operation leaves unchanged\<close>

section \<open>Machine integers\<close>

type_synonym u8 = "8 word"
type_synonym u16 = "16 word"
type_synonym u32 = "32 word"
type_synonym u64 = "64 word"

definition saturating_add :: "'a::len word \<Rightarrow> 'a word \<Rightarrow> 'a word" where
  "saturating_add a b = (if unat a + unat b < 2 ^ LENGTH('a) then a + b else - 1)"

definition saturating_sub :: "'a::len word \<Rightarrow> 'a word \<Rightarrow> 'a word" where
  "saturating_sub a b = (if b \<le> a then a - b else 0)"

definition checked_add :: "'a::len word \<Rightarrow> 'a word \<Rightarrow> 'a word option" where
  "checked_add a b = (if unat a + unat b < 2 ^ LENGTH('a) then Some (a + b) else None)"

definition div_ceil :: "nat \<Rightarrow> nat \<Rightarrow> nat" where
  "div_ceil a b = (if 0 < a mod b then a div b + 1 else a div b)"

lemma unat_u64_less: "unat (w :: u64) < 2 ^ 64"
  using unsigned_less [of w] by simp

lemma unat_of_nat_u64: "n < 2 ^ 64 \<Longrightarrow> unat (of_nat n :: u64) = n"
  by (simp add: unsigned_of_nat take_bit_nat_eq_self)

lemma unat_saturating_add:
  "unat (saturating_add a b) = min (unat a + unat b) (2 ^ LENGTH('a) - 1)"
  for a b :: "'a::len word"
proof (cases "unat a + unat b < 2 ^ LENGTH('a)")
  case True
  then show ?thesis
    by (simp add: saturating_add_def unat_word_ariths)
next
  case False
  then show ?thesis
    by (simp add: saturating_add_def unsigned_minus_1_eq_mask mask_eq_exp_minus_1)
qed

lemma unat_saturating_sub: "unat (saturating_sub a b) = unat a - unat b"
  by (auto simp: saturating_sub_def unat_sub word_le_nat_alt)

lemma checked_add_Some_iff:
  "checked_add a b = Some c \<longleftrightarrow> unat a + unat b < 2 ^ LENGTH('a) \<and> c = a + b"
  for a b :: "'a::len word"
  by (auto simp: checked_add_def)

lemma div_ceil_le_iff: "0 < b \<Longrightarrow> div_ceil a b \<le> q \<longleftrightarrow> a \<le> q * b"
proof -
  assume b: "0 < b"
  have "a = a div b * b + a mod b"
    by simp
  then show "div_ceil a b \<le> q \<longleftrightarrow> a \<le> q * b"
  proof (cases "0 < a mod b")
    case True
    have "a div b + 1 \<le> q \<longleftrightarrow> a div b < q" by arith
    also have "\<dots> \<longleftrightarrow> a < q * b"
      using b by (simp add: div_less_iff_less_mult)
    also have "\<dots> \<longleftrightarrow> a \<le> q * b"
      using True by (metis le_neq_implies_less less_imp_le mod_mult_self2_is_0 nat_neq_iff)
    finally show ?thesis
      using True by (simp add: div_ceil_def)
  next
    case False
    then have "a = a div b * b" by (metis \<open>a = a div b * b + a mod b\<close> add.right_neutral gr0I)
    then have "a div b \<le> q \<longleftrightarrow> a \<le> q * b"
      using b by (metis mult_le_cancel2)
    then show ?thesis
      using False by (simp add: div_ceil_def)
  qed
qed

lemma div_ceil_bounds:
  assumes "0 < b"
  shows "a \<le> div_ceil a b * b" and "div_ceil a b * b < a + b"
proof -
  show "a \<le> div_ceil a b * b"
    using div_ceil_le_iff [OF assms, of a "div_ceil a b"] by simp
  have "a div b * b + a mod b = a"
    by simp
  with assms mod_less_divisor [OF assms, of a] show "div_ceil a b * b < a + b"
    unfolding div_ceil_def by (simp only: add_mult_distrib split: if_split) linarith
qed

section \<open>Checked indexing\<close>

text \<open>
  Rust's \<open>xs[i]\<close> panics outside the bounds.
\<close>

definition idx :: "'a list \<Rightarrow> nat \<Rightarrow> 'a option" where
  "idx xs i = (if i < length xs then Some (xs ! i) else None)"

definition idx_update :: "'a list \<Rightarrow> nat \<Rightarrow> ('a \<Rightarrow> 'a) \<Rightarrow> 'a list option" where
  "idx_update xs i f = (if i < length xs then Some (xs[i := f (xs ! i)]) else None)"

lemma idx_Some_iff: "idx xs i = Some x \<longleftrightarrow> i < length xs \<and> x = xs ! i"
  by (auto simp: idx_def)

lemma idx_in_range [simp]: "i < length xs \<Longrightarrow> idx xs i = Some (xs ! i)"
  by (simp add: idx_def)

lemma idx_update_in_range [simp]:
  "i < length xs \<Longrightarrow> idx_update xs i f = Some (xs[i := f (xs ! i)])"
  by (simp add: idx_update_def)

section \<open>Searching\<close>

lemma find_append:
  "find P (xs @ ys) = (case find P xs of None \<Rightarrow> find P ys | Some x \<Rightarrow> Some x)"
  by (induction xs) auto

lemma find_upt_Some:
  "find P [a ..< b] = Some f \<longleftrightarrow> a \<le> f \<and> f < b \<and> P f \<and> (\<forall>g. a \<le> g \<and> g < f \<longrightarrow> \<not> P g)"
proof (induction "b - a" arbitrary: a)
  case 0
  then show ?case by auto
next
  case (Suc n)
  then have "[a ..< b] = a # [Suc a ..< b]"
    by (simp add: upt_rec)
  moreover have "(\<forall>g. a \<le> g \<and> g < f \<longrightarrow> \<not> P g) \<longleftrightarrow>
      (a < f \<longrightarrow> \<not> P a) \<and> (\<forall>g. Suc a \<le> g \<and> g < f \<longrightarrow> \<not> P g)"
    by (metis Suc_le_eq Suc_leD le_eq_less_or_eq)
  ultimately show ?case
    using Suc by (auto simp: Suc_le_eq)
qed

lemma find_upt_None: "find P [a ..< b] = None \<longleftrightarrow> (\<forall>g. a \<le> g \<and> g < b \<longrightarrow> \<not> P g)"
  by (auto simp: find_None_iff)

text \<open>Unfolding a range with numeral bounds, for evaluation by the simplifier.\<close>

lemma upt_eval:
  "[0 ..< numeral n] = 0 # [Suc 0 ..< numeral n]"
  "[Suc 0 ..< numeral n] = (if Suc 0 < numeral n then Suc 0 # [2 ..< numeral n] else [])"
  by (simp_all add: upt_rec [of 0] upt_rec [of "Suc 0"] numeral_2_eq_2)

section \<open>Single bits of a word\<close>

text \<open>
  The source tests and sets bits with masks \<open>1 << k\<close>; these rules turn the masks into the
  library's \<^const>\<open>bit\<close> predicate.
\<close>

definition mask_bit :: "nat \<Rightarrow> 'a::len word" where
  "mask_bit k = push_bit k 1"

lemma bit_mask_bit [bitmap_simps]: "bit (mask_bit k :: 'a::len word) n \<longleftrightarrow> n = k \<and> k < LENGTH('a)"
  by (simp only: mask_bit_def bit_push_bit_iff bit_1_iff) (auto simp: not_le)

lemma and_mask_bit_eq_0 [bitmap_simps]:
  "w AND mask_bit k = 0 \<longleftrightarrow> \<not> bit w k" if "k < LENGTH('a)" for w :: "'a::len word"
proof
  assume z: "w AND mask_bit k = 0"
  have "bit (w AND mask_bit k) k \<longleftrightarrow> bit w k"
    using that by (simp add: bit_and_iff bit_mask_bit)
  then show "\<not> bit w k"
    by (simp add: z)
next
  assume "\<not> bit w k"
  then show "w AND mask_bit k = 0"
    by (intro bit_eqI) (auto simp: bit_and_iff bit_mask_bit)
qed

lemma bit_or_mask_bit [bitmap_simps]:
  "bit (w OR mask_bit k) n \<longleftrightarrow> bit w n \<or> n = k \<and> k < LENGTH('a)" for w :: "'a::len word"
  by (simp add: bit_or_iff bit_mask_bit)

lemma bit_and_not_mask_bit [bitmap_simps]:
  "bit (w AND NOT (mask_bit k)) n \<longleftrightarrow> bit w n \<and> n \<noteq> k" for w :: "'a::len word"
  by (auto simp: bit_and_iff bit_not_iff bit_mask_bit dest: bit_imp_le_length)

section \<open>Effects\<close>

text \<open>
  An operation on a state \<open>'s\<close> that can fail with an error or panic: \<open>None\<close> is a panic, and
  an error keeps the effects made before it, as the early return of Rust's \<open>?\<close> does.
  \<open>bindE m k\<close> is \<open>let x = m?; k\<close>.
\<close>

type_synonym ('s, 'e, 'a) action = "'s \<Rightarrow> (('e + 'a) \<times> 's) option"

definition ret :: "'a \<Rightarrow> ('s, 'e, 'a) action" where
  "ret x s = Some (Inr x, s)"

definition throw :: "'e \<Rightarrow> ('s, 'e, 'a) action" where
  "throw e s = Some (Inl e, s)"

definition bindE :: "('s, 'e, 'a) action \<Rightarrow> ('a \<Rightarrow> ('s, 'e, 'b) action) \<Rightarrow> ('s, 'e, 'b) action" where
  "bindE m k s =
     (case m s of
        None \<Rightarrow> None
      | Some (Inl e, s') \<Rightarrow> Some (Inl e, s')
      | Some (Inr x, s') \<Rightarrow> k x s')"

text \<open>\<open>attempt m\<close> is the call whose \<open>Result\<close> the caller matches on.\<close>

definition attempt :: "('s, 'e, 'a) action \<Rightarrow> ('s, 'e, 'e + 'a) action" where
  "attempt m s = map_option (\<lambda>(r, s'). (Inr r, s')) (m s)"

named_theorems action_simps \<open>running an operation\<close>

lemma ret_apply [action_simps]: "ret x s = Some (Inr x, s)"
  by (simp add: ret_def)

lemma throw_apply [action_simps]: "throw e s = Some (Inl e, s)"
  by (simp add: throw_def)

lemma bindE_simps [action_simps]:
  "m s = None \<Longrightarrow> bindE m k s = None"
  "m s = Some (Inl e, s') \<Longrightarrow> bindE m k s = Some (Inl e, s')"
  "m s = Some (Inr x, s') \<Longrightarrow> bindE m k s = k x s'"
  by (simp_all add: bindE_def)

lemma bindE_cases [consumes 1, case_names err ok]:
  assumes "bindE m k s = Some (r, s')"
  obtains e where "m s = Some (Inl e, s')" "r = Inl e"
  | x s1 where "m s = Some (Inr x, s1)" "k x s1 = Some (r, s')"
  using assms by (auto simp: bindE_def split: option.splits prod.splits sum.splits)

lemma bindE_total:
  "m s \<noteq> None \<Longrightarrow> (\<And>x s1. m s = Some (Inr x, s1) \<Longrightarrow> k x s1 \<noteq> None) \<Longrightarrow> bindE m k s \<noteq> None"
  by (auto simp: bindE_def split: option.splits prod.splits sum.splits)

section \<open>Operations that return\<close>

text \<open>
  From a state that satisfies the invariant, the action returns, keeps the invariant, and a
  successful result satisfies \<open>Q\<close>.
\<close>

definition runs :: "('s \<Rightarrow> bool) \<Rightarrow> ('a \<Rightarrow> bool) \<Rightarrow> ('s, 'e, 'a) action \<Rightarrow> bool" where
  "runs J Q m \<longleftrightarrow> (\<forall>s. J s \<longrightarrow> (\<exists>r s'. m s = Some (r, s') \<and> J s' \<and> (case r of Inl _ \<Rightarrow> True | Inr x \<Rightarrow> Q x)))"

named_theorems run_rules

lemma runs_ret [run_rules]: "Q x \<Longrightarrow> runs J Q (ret x)"
  by (simp add: runs_def ret_def)

lemma runs_throw [run_rules]: "runs J Q (throw e)"
  by (simp add: runs_def throw_def)

lemma runs_weaken: "runs J P m \<Longrightarrow> (\<And>x. P x \<Longrightarrow> Q x) \<Longrightarrow> runs J Q m"
  unfolding runs_def by (fastforce split: sum.splits)

lemma runs_bind:
  assumes "runs J P m" "\<And>x. P x \<Longrightarrow> runs J Q (f x)"
  shows "runs J Q (bindE m f)"
  unfolding runs_def
proof (intro allI impI)
  fix s
  assume "J s"
  then obtain r s' where m: "m s = Some (r, s')" "J s'" "case r of Inl _ \<Rightarrow> True | Inr x \<Rightarrow> P x"
    using assms(1) unfolding runs_def by blast
  show "\<exists>r s'. bindE m f s = Some (r, s') \<and> J s' \<and> (case r of Inl _ \<Rightarrow> True | Inr x \<Rightarrow> Q x)"
  proof (cases r)
    case (Inr x)
    then have "runs J Q (f x)" using assms(2) m(3) by simp
    then show ?thesis using m(1,2) Inr unfolding runs_def by (simp add: bindE_def)
  qed (use m in \<open>simp add: bindE_def\<close>)
qed

lemma runs_bind_any: "runs J (\<lambda>_. True) m \<Longrightarrow> (\<And>x. runs J Q (f x)) \<Longrightarrow> runs J Q (bindE m f)"
  by (rule runs_bind)

lemma runs_if [run_rules]: "(c \<Longrightarrow> runs J Q m) \<Longrightarrow> (\<not> c \<Longrightarrow> runs J Q m') \<Longrightarrow> runs J Q (if c then m else m')"
  by simp

lemma runs_option [run_rules]:
  "(x = None \<Longrightarrow> runs J Q m) \<Longrightarrow> (\<And>y. x = Some y \<Longrightarrow> runs J Q (f y)) \<Longrightarrow> runs J Q (case x of None \<Rightarrow> m | Some y \<Rightarrow> f y)"
  by (cases x) simp_all

lemma runs_sum [run_rules]:
  "(\<And>e. x = Inl e \<Longrightarrow> runs J Q (f e)) \<Longrightarrow> (\<And>y. x = Inr y \<Longrightarrow> runs J Q (g y)) \<Longrightarrow>
   runs J Q (case x of Inl e \<Rightarrow> f e | Inr y \<Rightarrow> g y)"
  by (cases x) simp_all

lemma runs_attempt: "runs J (\<lambda>_. True) m \<Longrightarrow> runs J (\<lambda>_. True) (attempt m)"
  unfolding runs_def attempt_def by fastforce

end
