(* ===== verification/BTree_Map.thy ===== *)
theory BTree_Map
  imports Prelude
begin

text \<open>
  Rust's \<open>alloc::collections::BTreeMap\<close> as the kernel uses it: an association list whose keys
  are strictly increasing. \<open>ordered_map\<close> is the contract the components rely on; the
  association-list operations are its interpretation.
\<close>

type_synonym ('k, 'v) btreemap = "('k \<times> 'v) list"

definition bt_get :: "('k, 'v) btreemap \<Rightarrow> 'k \<Rightarrow> 'v option" where
  "bt_get m k = map_of m k"

definition bt_contains :: "('k, 'v) btreemap \<Rightarrow> 'k \<Rightarrow> bool" where
  "bt_contains m k = (bt_get m k \<noteq> None)"

fun bt_insert :: "'k::linorder \<Rightarrow> 'v \<Rightarrow> ('k, 'v) btreemap \<Rightarrow> ('k, 'v) btreemap" where
  "bt_insert k v [] = [(k, v)]"
| "bt_insert k v ((k', v') # m) =
     (if k < k' then (k, v) # (k', v') # m
      else if k = k' then (k, v) # m
      else (k', v') # bt_insert k v m)"

definition bt_remove :: "'k \<Rightarrow> ('k, 'v) btreemap \<Rightarrow> ('k, 'v) btreemap" where
  "bt_remove k m = filter (\<lambda>(k', _). k' \<noteq> k) m"

definition bt_entries :: "('k, 'v) btreemap \<Rightarrow> ('k \<times> 'v) list" where
  "bt_entries m = m"

definition bt_keys :: "('k, 'v) btreemap \<Rightarrow> 'k list" where
  "bt_keys m = map fst m"

definition bt_wf :: "('k::linorder, 'v) btreemap \<Rightarrow> bool" where
  "bt_wf m = sorted_wrt (<) (map fst m)"

section \<open>The contract of an ordered map\<close>

locale ordered_map =
  fixes lookup :: "'m \<Rightarrow> 'k::linorder \<Rightarrow> 'v option"
    and upd :: "'k \<Rightarrow> 'v \<Rightarrow> 'm \<Rightarrow> 'm"
    and del :: "'k \<Rightarrow> 'm \<Rightarrow> 'm"
    and entries :: "'m \<Rightarrow> ('k \<times> 'v) list"
    and wf :: "'m \<Rightarrow> bool"
  assumes lookup_upd: "lookup (upd k v m) k' = (if k' = k then Some v else lookup m k')"
    and lookup_del: "lookup (del k m) k' = (if k' = k then None else lookup m k')"
    and entries_sorted: "wf m \<Longrightarrow> sorted_wrt (<) (map fst (entries m))"
    and entries_lookup: "wf m \<Longrightarrow> (k, v) \<in> set (entries m) \<longleftrightarrow> lookup m k = Some v"
    and wf_upd: "wf m \<Longrightarrow> wf (upd k v m)"
    and wf_del: "wf m \<Longrightarrow> wf (del k m)"
begin

text \<open>
  An iterator's \<open>find\<close> over the entries: it returns the matching entry with the least key, and
  nothing exactly when no entry matches.
\<close>

lemma find_None:
  assumes "wf m"
  shows "find (\<lambda>(k, v). P k v) (entries m) = None \<longleftrightarrow> (\<forall>k v. lookup m k = Some v \<longrightarrow> \<not> P k v)"
  using entries_lookup [OF assms] by (auto simp: find_None_iff)

lemma find_Some:
  assumes wf: "wf m" and found: "find (\<lambda>(k, v). P k v) (entries m) = Some (k, v)"
  shows "lookup m k = Some v" and "P k v"
    and "\<And>k' v'. lookup m k' = Some v' \<Longrightarrow> P k' v' \<Longrightarrow> k \<le> k'"
proof -
  from found obtain i where i: "i < length (entries m)" "entries m ! i = (k, v)" "P k v"
    and least: "\<And>j. j < i \<Longrightarrow> \<not> (\<lambda>(k, v). P k v) (entries m ! j)"
    by (fastforce simp: find_Some_iff)
  then show "P k v" by simp
  have "(k, v) \<in> set (entries m)"
    using i by (metis nth_mem)
  then show "lookup m k = Some v"
    using entries_lookup [OF wf] by simp
  fix k' v'
  assume "lookup m k' = Some v'" "P k' v'"
  then obtain j where j: "j < length (entries m)" "entries m ! j = (k', v')"
    using entries_lookup [OF wf] by (metis in_set_conv_nth)
  with \<open>P k' v'\<close> least have "i \<le> j"
    by (metis case_prod_conv linorder_not_le)
  then show "k \<le> k'"
    using entries_sorted [OF wf] i j sorted_wrt_nth_less [of "(<)" "map fst (entries m)" i j]
    by (cases "i = j") auto
qed

lemma lookup_in_find:
  assumes "wf m" and "lookup m k = Some v" and "P k v"
  shows "\<exists>k' v'. find (\<lambda>(k, v). P k v) (entries m) = Some (k', v')"
  using assms find_None [OF assms(1), of P] by (cases "find (\<lambda>(k, v). P k v) (entries m)") auto

end

section \<open>The association list implements the contract\<close>

lemma bt_get_insert [btree_simps]:
  "bt_get (bt_insert k v m) k' = (if k' = k then Some v else bt_get m k')"
  by (induction k v m rule: bt_insert.induct) (auto simp: bt_get_def)

lemma bt_get_remove [btree_simps]:
  "bt_get (bt_remove k m) k' = (if k' = k then None else bt_get m k')"
  by (induction m) (auto simp: bt_get_def bt_remove_def)

lemma bt_get_Nil [simp]: "bt_get [] k = None"
  by (simp add: bt_get_def)

lemma bt_contains_iff: "bt_contains m k \<longleftrightarrow> k \<in> fst ` set m"
  by (auto simp: bt_contains_def bt_get_def map_of_eq_None_iff)

lemma bt_contains_insert [btree_simps]:
  "bt_contains (bt_insert k v m) k' \<longleftrightarrow> k' = k \<or> bt_contains m k'"
  by (simp add: bt_contains_def bt_get_insert)

lemma bt_contains_remove [btree_simps]:
  "bt_contains (bt_remove k m) k' \<longleftrightarrow> k' \<noteq> k \<and> bt_contains m k'"
  by (simp add: bt_contains_def bt_get_remove)

lemma set_keys_insert: "fst ` set (bt_insert k v m) = insert k (fst ` set m)"
  by (induction k v m rule: bt_insert.induct) auto

lemma bt_wf_Nil [simp]: "bt_wf []"
  by (simp add: bt_wf_def)

lemma bt_wf_insert [simp, intro]: "bt_wf m \<Longrightarrow> bt_wf (bt_insert k v m)"
proof (induction k v m rule: bt_insert.induct)
  case (1 k v)
  show ?case by (simp add: bt_wf_def)
next
  case (2 k v k' v' m)
  then have wf: "bt_wf m" and gt: "\<And>x. x \<in> fst ` set m \<Longrightarrow> k' < x"
    by (auto simp: bt_wf_def)
  show ?case
  proof (cases "k < k'")
    case True
    then show ?thesis
      using wf gt by (force simp: bt_wf_def)
  next
    case False
    then show ?thesis
      using 2 wf gt set_keys_insert [of k v m] by (auto simp: bt_wf_def)
  qed
qed

lemma bt_wf_remove [simp, intro]: "bt_wf m \<Longrightarrow> bt_wf (bt_remove k m)"
  by (induction m) (auto simp: bt_wf_def bt_remove_def)

lemma bt_wf_distinct: "bt_wf m \<Longrightarrow> distinct (map fst m)"
  by (induction m) (auto simp: bt_wf_def)

interpretation bt: ordered_map bt_get bt_insert bt_remove bt_entries bt_wf
proof unfold_locales
  fix m :: "('k::linorder, 'v) btreemap" and k :: 'k and v :: 'v
  assume wf: "bt_wf m"
  then show "sorted_wrt (<) (map fst (bt_entries m))"
    by (simp add: bt_entries_def bt_wf_def)
  show "(k, v) \<in> set (bt_entries m) \<longleftrightarrow> bt_get m k = Some v"
    using bt_wf_distinct [OF wf] by (simp add: bt_entries_def bt_get_def map_of_eq_Some_iff)
qed (auto simp: bt_get_insert bt_get_remove)

lemma length_bt_insert:
  "length (bt_insert k v m) = (if bt_contains m k then length m else Suc (length m))"
  if "bt_wf m"
  using that
proof (induction k v m rule: bt_insert.induct)
  case (1 k v)
  show ?case by (simp add: bt_contains_iff)
next
  case (2 k v k' v' m)
  then have wf: "bt_wf m" and gt: "\<And>x. x \<in> fst ` set m \<Longrightarrow> k' < x"
    by (auto simp: bt_wf_def)
  show ?case
  proof (cases "k < k'")
    case True
    then have "k \<notin> fst ` set m"
      using gt by (meson order.asym)
    with True show ?thesis
      by (auto simp: bt_contains_iff)
  next
    case False
    with 2 wf show ?thesis
      by (auto simp: bt_contains_iff)
  qed
qed

lemma length_bt_remove:
  "length (bt_remove k m) = (if bt_contains m k then length m - 1 else length m)"
  if "bt_wf m"
proof -
  have "length (bt_remove k m) = card (fst ` set (bt_remove k m))"
    using bt_wf_distinct [OF bt_wf_remove [OF that, of k]]
    by (metis distinct_card length_map list.set_map)
  also have "fst ` set (bt_remove k m) = fst ` set m - {k}"
    by (force simp: bt_remove_def)
  also have "card \<dots> = (if k \<in> fst ` set m then card (fst ` set m) - 1 else card (fst ` set m))"
    by simp
  also have "card (fst ` set m) = length m"
    using bt_wf_distinct [OF that] by (metis distinct_card length_map list.set_map)
  finally show ?thesis by (simp add: bt_contains_iff)
qed

lemma bt_remove_id: "\<not> bt_contains m k \<Longrightarrow> bt_remove k m = m"
  by (force simp: bt_contains_iff bt_remove_def filter_id_conv)

end
