(* ===== verification/Shared_Types.thy ===== *)
theory Shared_Types
  imports BTree_Map
begin

text \<open>
  The vocabulary of the \<open>shared\<close> crate that the kernel is written in: identifiers, weight
  classes and profiles, resource limits, physical memory regions, monotonic time, the
  resources a lane can wait for, and the error types. Identifiers are ordered by their raw
  value, as Rust derives \<open>Ord\<close> for them; the order is what a \<open>BTreeMap\<close> iterates in.
\<close>

section \<open>Identifiers\<close>

datatype boundary_id = BoundaryId (boundary_raw: u64)

datatype lane_id = LaneId (lane_raw: u64)

datatype channel_id = ChannelId (channel_raw: u64)

instantiation boundary_id :: linorder
begin

definition less_eq_boundary_id :: "boundary_id \<Rightarrow> boundary_id \<Rightarrow> bool" where
  "less_eq_boundary_id a b = (boundary_raw a \<le> boundary_raw b)"

definition less_boundary_id :: "boundary_id \<Rightarrow> boundary_id \<Rightarrow> bool" where
  "less_boundary_id a b = (boundary_raw a < boundary_raw b)"

instance
  by standard (auto simp: less_eq_boundary_id_def less_boundary_id_def intro: boundary_id.expand)

end

instantiation lane_id :: linorder
begin

definition less_eq_lane_id :: "lane_id \<Rightarrow> lane_id \<Rightarrow> bool" where
  "less_eq_lane_id a b = (lane_raw a \<le> lane_raw b)"

definition less_lane_id :: "lane_id \<Rightarrow> lane_id \<Rightarrow> bool" where
  "less_lane_id a b = (lane_raw a < lane_raw b)"

instance
  by standard (auto simp: less_eq_lane_id_def less_lane_id_def intro: lane_id.expand)

end

instantiation channel_id :: linorder
begin

definition less_eq_channel_id :: "channel_id \<Rightarrow> channel_id \<Rightarrow> bool" where
  "less_eq_channel_id a b = (channel_raw a \<le> channel_raw b)"

definition less_channel_id :: "channel_id \<Rightarrow> channel_id \<Rightarrow> bool" where
  "less_channel_id a b = (channel_raw a < channel_raw b)"

instance
  by standard (auto simp: less_eq_channel_id_def less_channel_id_def intro: channel_id.expand)

end

definition SYSTEM :: boundary_id where
  "SYSTEM = BoundaryId 0"

section \<open>Errors\<close>

datatype hardware_error =
    UnsupportedArchitecture string
  | InitializationFailed string int
  | InsufficientMemory u64 u64
  | RandomNumberGeneratorUnavailable
  | SmtConfigurationFailed string
  | StorageFailure string
  | PeripheralMissing string

datatype isolation_error =
    BoundarySetupFailed string
  | AccessDenied string
  | LaneRegionUnavailable
  | UnsupportedLevel string
  | SharedStateViolation string

datatype authentication_error =
    InvalidCredentials
  | DeviceNotPresent
  | DeviceReadFailure string
  | UnsupportedCredentialFormat
  | ProfileNotFound
  | Unauthorized string

datatype crypto_error =
    SignatureInvalid
  | SigningFailed string
  | KeyEncapsulationFailed string
  | InvalidKeyLength nat nat
  | InvalidSignatureLength nat nat
  | AlgorithmUnavailable string
  | InsufficientEntropy
  | HashMismatch

datatype verification_error =
    MalformedImage string
  | ComponentVerificationFailed string
  | IntegrityMismatch
  | SignatureMismatch
  | IncompatibleVersion u32 u32

datatype config_error =
    ReadFailed string
  | ParseFailed string
  | ValidationFailed string string
  | ConfigSignatureInvalid

datatype serialization_error =
    BufferTooSmall nat nat
  | UnexpectedEnd
  | InvalidValue string
  | BadMagic

datatype protocol_error =
    HandoffRejected string
  | VersionMismatch u32 u32
  | ChannelEstablishmentFailed string
  | MessageTooLarge nat nat
  | ChannelClosed
  | ProtocolUnauthorized

datatype resource_error =
    CapacityExceeded string
  | ResourceNotFound string
  | Unavailable string
  | MemoryLimitExceeded u64 u64

datatype shared_error =
    Hardware hardware_error
  | Isolation isolation_error
  | Authentication authentication_error
  | Crypto crypto_error
  | Verification verification_error
  | Config config_error
  | Serialization serialization_error
  | Protocol protocol_error
  | Resource resource_error

datatype runtime_error =
    RuntimeShared shared_error
  | UnknownLane
  | LaneLimitExceeded nat

datatype kernel_error =
    Shared shared_error
  | Runtime runtime_error
  | InitFailed string
  | UnknownContainer
  | UnknownChannel
  | LimitExceeded string
  | InvalidState string

section \<open>Time\<close>

datatype monotonic = Monotonic (as_nanos: u64)

instantiation monotonic :: linorder
begin

definition less_eq_monotonic :: "monotonic \<Rightarrow> monotonic \<Rightarrow> bool" where
  "less_eq_monotonic a b = (as_nanos a \<le> as_nanos b)"

definition less_monotonic :: "monotonic \<Rightarrow> monotonic \<Rightarrow> bool" where
  "less_monotonic a b = (as_nanos a < as_nanos b)"

instance
  by standard (auto simp: less_eq_monotonic_def less_monotonic_def intro: monotonic.expand)

end

text \<open>
  A \<open>core::time::Duration\<close> counts whole nanoseconds in a \<open>u128\<close>-sized range; only
  \<open>as_nanos\<close> is used, so it is its nanosecond count.
\<close>

type_synonym duration = nat

definition monotonic_zero :: monotonic where
  "monotonic_zero = Monotonic 0"

definition monotonic_saturating_add :: "monotonic \<Rightarrow> duration \<Rightarrow> monotonic" where
  "monotonic_saturating_add t d =
     (let add = (if d < 2 ^ 64 then of_nat d else - 1) in
      Monotonic (saturating_add (as_nanos t) add))"

definition monotonic_checked_add :: "monotonic \<Rightarrow> duration \<Rightarrow> monotonic option" where
  "monotonic_checked_add t d =
     (if d < 2 ^ 64 then map_option Monotonic (checked_add (as_nanos t) (of_nat d)) else None)"

definition reached :: "monotonic \<Rightarrow> monotonic \<Rightarrow> bool" where
  "reached t deadline = (as_nanos deadline \<le> as_nanos t)"

lemma reached_iff_le: "reached t d \<longleftrightarrow> d \<le> t"
  by (simp add: reached_def less_eq_monotonic_def)

lemma unat_monotonic_saturating_add:
  "unat (as_nanos (monotonic_saturating_add t d)) = min (unat (as_nanos t) + d) (2 ^ 64 - 1)"
proof (cases "d < 2 ^ 64")
  case True
  then have "unat (of_nat d :: u64) = d"
    by (simp add: unsigned_of_nat take_bit_nat_eq_self)
  with True show ?thesis
    by (simp add: monotonic_saturating_add_def Let_def unat_saturating_add)
next
  case False
  then show ?thesis
    by (simp add: monotonic_saturating_add_def Let_def unat_saturating_add
        unsigned_minus_1_eq_mask mask_eq_exp_minus_1)
qed

lemma monotonic_saturating_add_ge: "t \<le> monotonic_saturating_add t d"
proof -
  have "unat (as_nanos t) < 2 ^ 64"
    by (rule unat_u64_less)
  then show ?thesis
    by (simp add: less_eq_monotonic_def word_le_nat_alt unat_monotonic_saturating_add)
qed

section \<open>Weights, profiles and limits\<close>

datatype weight_class = System | User | Background

datatype cibos_profile = MaximumIsolation | Balanced | Performance | Compute

datatype cibios_profile = Standard | Lightweight

datatype handoff_mode = Cryptographic | LightweightHandoff

fun cibios_profile_as_u32 :: "cibios_profile \<Rightarrow> u32" where
  "cibios_profile_as_u32 Standard = 1"
| "cibios_profile_as_u32 Lightweight = 2"

definition cibios_profile_try_from :: "u32 \<Rightarrow> serialization_error + cibios_profile" where
  "cibios_profile_try_from v =
     (if v = 1 then Inr Standard else if v = 2 then Inr Lightweight
      else Inl (InvalidValue ''CibiosProfile''))"

fun handoff_mode_of :: "cibios_profile \<Rightarrow> handoff_mode" where
  "handoff_mode_of Standard = Cryptographic"
| "handoff_mode_of Lightweight = LightweightHandoff"

fun cibos_profile_as_u32 :: "cibos_profile \<Rightarrow> u32" where
  "cibos_profile_as_u32 MaximumIsolation = 1"
| "cibos_profile_as_u32 Balanced = 2"
| "cibos_profile_as_u32 Performance = 3"
| "cibos_profile_as_u32 Compute = 4"

definition cibos_profile_try_from :: "u32 \<Rightarrow> serialization_error + cibos_profile" where
  "cibos_profile_try_from v =
     (if v = 1 then Inr MaximumIsolation else if v = 2 then Inr Balanced
      else if v = 3 then Inr Performance else if v = 4 then Inr Compute
      else Inl (InvalidValue ''CibosProfile''))"

fun handoff_mode_as_u32 :: "handoff_mode \<Rightarrow> u32" where
  "handoff_mode_as_u32 Cryptographic = 1"
| "handoff_mode_as_u32 LightweightHandoff = 2"

definition handoff_mode_try_from :: "u32 \<Rightarrow> serialization_error + handoff_mode" where
  "handoff_mode_try_from v =
     (if v = 1 then Inr Cryptographic else if v = 2 then Inr LightweightHandoff
      else Inl (InvalidValue ''HandoffMode''))"

definition smt_disabled_by_default :: "cibios_profile \<Rightarrow> bool" where
  "smt_disabled_by_default p = (p = Standard)"

definition smt_enabled_by_default :: "cibos_profile \<Rightarrow> bool" where
  "smt_enabled_by_default p = (p \<in> {Performance, Compute})"

definition forces_equal_weights :: "cibos_profile \<Rightarrow> bool" where
  "forces_equal_weights p = (p = MaximumIsolation)"

definition cryptographic_ipc_default :: "cibos_profile \<Rightarrow> bool" where
  "cryptographic_ipc_default p = (p \<in> {MaximumIsolation, Balanced})"

fun anti_starvation_threshold :: "cibos_profile \<Rightarrow> u32 option" where
  "anti_starvation_threshold MaximumIsolation = None"
| "anti_starvation_threshold Balanced = Some 100"
| "anti_starvation_threshold Performance = Some 50"
| "anti_starvation_threshold Compute = None"

record scheduling_config =
  system_weight :: u32
  user_weight :: u32
  background_weight :: u32
  anti_starvation_threshold_ms :: u32

fun defaults_for :: "cibos_profile \<Rightarrow> scheduling_config" where
  "defaults_for MaximumIsolation =
     \<lparr>system_weight = 1, user_weight = 1, background_weight = 1, anti_starvation_threshold_ms = 0\<rparr>"
| "defaults_for Balanced =
     \<lparr>system_weight = 3, user_weight = 1, background_weight = 1, anti_starvation_threshold_ms = 100\<rparr>"
| "defaults_for Performance =
     \<lparr>system_weight = 5, user_weight = 2, background_weight = 1, anti_starvation_threshold_ms = 50\<rparr>"
| "defaults_for Compute =
     \<lparr>system_weight = 1, user_weight = 1, background_weight = 1, anti_starvation_threshold_ms = 0\<rparr>"

fun accepts :: "cibios_profile \<Rightarrow> cibos_profile \<Rightarrow> bool" where
  "accepts Standard k = (k \<in> {MaximumIsolation, Balanced, Performance})"
| "accepts Lightweight k = (k \<in> {Compute, Performance})"

record resource_limits =
  memory_bytes :: u64
  max_lanes :: u32
  max_channels :: u32
  max_message_bytes :: u32
  max_channel_buffer :: u32

definition default_application :: resource_limits where
  "default_application =
     \<lparr>memory_bytes = 512 * 1024 * 1024, max_lanes = 256, max_channels = 16,
      max_message_bytes = 64 * 1024, max_channel_buffer = 256\<rparr>"

definition check_allocation :: "resource_limits \<Rightarrow> u64 \<Rightarrow> u64 \<Rightarrow> resource_error + unit" where
  "check_allocation limits already_allocated requested =
     (let total = saturating_add already_allocated requested in
      if memory_bytes limits < total then Inl (MemoryLimitExceeded requested (memory_bytes limits))
      else Inr ())"

record boundary_configuration =
  config_id :: boundary_id
  limits :: resource_limits
  weight_class :: weight_class

record resource_usage =
  usage_allocated_bytes :: u64
  usage_peak_bytes :: u64
  lane_count :: u32
  channel_count :: u32

lemma check_allocation_Inr_iff:
  "check_allocation lim allocated requested = Inr () \<longleftrightarrow>
   unat allocated + unat requested \<le> unat (memory_bytes lim) \<or>
   memory_bytes lim = - 1"
proof -
  have "unat (memory_bytes lim) < 2 ^ 64"
    by (rule unat_u64_less)
  moreover have "memory_bytes lim = - 1 \<longleftrightarrow> unat (memory_bytes lim) = 2 ^ 64 - 1"
    by (simp add: word_unat_eq_iff unsigned_minus_1_eq_mask mask_eq_exp_minus_1)
  ultimately show ?thesis
    by (auto simp: check_allocation_def Let_def word_less_nat_alt unat_saturating_add)
qed

section \<open>Physical memory regions\<close>

datatype memory_region_kind = Usable | FirmwareReserved | LaneReserved | DeviceMmio | Bad

fun memory_region_kind_as_u32 :: "memory_region_kind \<Rightarrow> u32" where
  "memory_region_kind_as_u32 Usable = 1"
| "memory_region_kind_as_u32 FirmwareReserved = 2"
| "memory_region_kind_as_u32 LaneReserved = 3"
| "memory_region_kind_as_u32 DeviceMmio = 4"
| "memory_region_kind_as_u32 Bad = 5"

definition memory_region_kind_try_from :: "u32 \<Rightarrow> serialization_error + memory_region_kind" where
  "memory_region_kind_try_from v =
     (if v = 1 then Inr Usable else if v = 2 then Inr FirmwareReserved
      else if v = 3 then Inr LaneReserved else if v = 4 then Inr DeviceMmio
      else if v = 5 then Inr Bad else Inl (InvalidValue ''MemoryRegionKind''))"

record memory_region =
  base :: u64
  region_length :: u64
  kind :: memory_region_kind

definition region_end :: "memory_region \<Rightarrow> u64" where
  "region_end r = base r + region_length r"

definition region_contains :: "memory_region \<Rightarrow> u64 \<Rightarrow> bool" where
  "region_contains r addr = (base r \<le> addr \<and> addr < region_end r)"

text \<open>
  The end address is computed with wrapping addition; on a region that does not reach past the
  end of the address space it is the sum.
\<close>

lemma unat_region_end:
  "unat (base r) + unat (region_length r) < 2 ^ 64 \<Longrightarrow>
   unat (region_end r) = unat (base r) + unat (region_length r)"
  by (simp add: region_end_def unat_word_ariths)

section \<open>Discriminants\<close>

text \<open>
  Every enumeration that crosses the firmware/kernel boundary has an \<open>as_u32\<close> and a
  \<open>TryFrom<u32>\<close>. The contract the protocols use: decoding inverts encoding, and a decoded
  value is the one the number encodes.
\<close>

locale enum_codec =
  fixes enc :: "'a \<Rightarrow> 'w"
    and dec :: "'w \<Rightarrow> 'e + 'a"
  assumes dec_enc: "dec (enc x) = Inr x"
    and enc_dec: "dec w = Inr x \<Longrightarrow> enc x = w"
begin

lemma dec_Inr_iff: "dec w = Inr x \<longleftrightarrow> w = enc x"
  using dec_enc enc_dec by auto

lemma enc_inject: "enc x = enc y \<longleftrightarrow> x = y"
  using dec_enc by (metis sum.inject(2))

lemma dec_Inl_iff: "(\<exists>e. dec w = Inl e) \<longleftrightarrow> w \<notin> range enc"
  using dec_Inr_iff by (metis Inr_not_Inl obj_sumE rangeE rangeI)

end

interpretation cibios_profile_codec: enum_codec cibios_profile_as_u32 cibios_profile_try_from
proof
  show "cibios_profile_try_from (cibios_profile_as_u32 x) = Inr x" for x
    by (cases x) (simp_all add: cibios_profile_try_from_def)
  show "cibios_profile_try_from w = Inr x \<Longrightarrow> cibios_profile_as_u32 x = w" for w x
    by (auto simp: cibios_profile_try_from_def split: if_splits)
qed

interpretation cibos_profile_codec: enum_codec cibos_profile_as_u32 cibos_profile_try_from
proof
  show "cibos_profile_try_from (cibos_profile_as_u32 x) = Inr x" for x
    by (cases x) (simp_all add: cibos_profile_try_from_def)
  show "cibos_profile_try_from w = Inr x \<Longrightarrow> cibos_profile_as_u32 x = w" for w x
    by (auto simp: cibos_profile_try_from_def split: if_splits)
qed

interpretation handoff_mode_codec: enum_codec handoff_mode_as_u32 handoff_mode_try_from
proof
  show "handoff_mode_try_from (handoff_mode_as_u32 x) = Inr x" for x
    by (cases x) (simp_all add: handoff_mode_try_from_def)
  show "handoff_mode_try_from w = Inr x \<Longrightarrow> handoff_mode_as_u32 x = w" for w x
    by (auto simp: handoff_mode_try_from_def split: if_splits)
qed

interpretation region_kind_codec: enum_codec memory_region_kind_as_u32 memory_region_kind_try_from
proof
  show "memory_region_kind_try_from (memory_region_kind_as_u32 x) = Inr x" for x
    by (cases x) (simp_all add: memory_region_kind_try_from_def)
  show "memory_region_kind_try_from w = Inr x \<Longrightarrow> memory_region_kind_as_u32 x = w" for w x
    by (auto simp: memory_region_kind_try_from_def split: if_splits)
qed

section \<open>What a lane can wait for\<close>

datatype wait_resource =
    ChannelData channel_id
  | ChannelBuffer channel_id
  | Memory u64
  | DiskIo u64
  | NetworkIo u64
  | Timer monotonic

end
