(* ===== verification/Frame_Allocator.thy ===== *)
theory Frame_Allocator
  imports Shared_Types
begin

text \<open>
  The physical frame allocator (\<open>cibos-kernel/src/frame.rs\<close>): a bitmap with one bit per 4 KiB
  frame, a rotating search hint and running counts. Frame numbers stay below \<open>2 ^ 52\<close> (a
  64-bit address divided by 4096), so they are natural numbers and only the address of a frame
  is a word. Every access to the bitmap is checked, so an out-of-range index is the value
  \<^const>\<open>None\<close>.

  The abstraction is the set of free frame numbers. \<open>fa_wf\<close> is the representation invariant,
  \<open>fa_inv\<close> adds that the search hint lies inside the bitmap.
\<close>

section \<open>Frames and allocator state\<close>

definition FRAME_SIZE :: nat where
  "FRAME_SIZE = 4096"

datatype phys_frame = PhysFrame (frame_addr: u64)

definition frame_containing :: "u64 \<Rightarrow> phys_frame" where
  "frame_containing a = PhysFrame (a AND NOT (of_nat FRAME_SIZE - 1))"

definition frame_from_index :: "nat \<Rightarrow> phys_frame" where
  "frame_from_index i = PhysFrame (of_nat i * of_nat FRAME_SIZE)"

definition frame_index :: "phys_frame \<Rightarrow> nat" where
  "frame_index f = unat (frame_addr f) div FRAME_SIZE"

record alloc_state =
  bitmap :: "u64 list"
  frame_count :: nat
  allocated :: nat
  usable :: nat
  next_hint :: nat

section \<open>Bitmap access\<close>

definition bit_test :: "u64 list \<Rightarrow> nat \<Rightarrow> bool option" where
  "bit_test bm f = map_option (\<lambda>w. w AND mask_bit (f mod 64) \<noteq> 0) (idx bm (f div 64))"

definition bit_mark :: "u64 list \<Rightarrow> nat \<Rightarrow> u64 list option" where
  "bit_mark bm f = idx_update bm (f div 64) (\<lambda>w. w OR mask_bit (f mod 64))"

definition bit_clear :: "u64 list \<Rightarrow> nat \<Rightarrow> u64 list option" where
  "bit_clear bm f = idx_update bm (f div 64) (\<lambda>w. w AND NOT (mask_bit (f mod 64)))"

section \<open>Operations\<close>

text \<open>
  The \<open>while f < last\<close> loop of \<open>from_regions\<close> over one region, then the loop over the
  regions; each returns the bitmap and the running count of usable frames.
\<close>

fun mark_usable :: "nat \<Rightarrow> nat list \<Rightarrow> u64 list \<Rightarrow> nat \<Rightarrow> (u64 list \<times> nat) option" where
  "mark_usable reserved [] bm u = Some (bm, u)"
| "mark_usable reserved (f # fs) bm u =
     (if reserved \<le> f then
        (case bit_clear bm f of
           None \<Rightarrow> None
         | Some bm' \<Rightarrow> mark_usable reserved fs bm' (u + 1))
      else mark_usable reserved fs bm (u + 1))"

definition region_frames :: "memory_region \<Rightarrow> nat list" where
  "region_frames r = [div_ceil (unat (base r)) FRAME_SIZE ..< unat (region_end r) div FRAME_SIZE]"

fun mark_regions :: "nat \<Rightarrow> memory_region list \<Rightarrow> u64 list \<Rightarrow> nat \<Rightarrow> (u64 list \<times> nat) option" where
  "mark_regions reserved [] bm u = Some (bm, u)"
| "mark_regions reserved (r # rs) bm u =
     (case mark_usable reserved (region_frames r) bm u of
        None \<Rightarrow> None
      | Some (bm', u') \<Rightarrow> mark_regions reserved rs bm' u')"

text \<open>The counting loops: how many frames of a sequence have their bit equal to \<open>v\<close>.\<close>

fun count_bits :: "bool \<Rightarrow> u64 list \<Rightarrow> nat list \<Rightarrow> nat option" where
  "count_bits v bm [] = Some 0"
| "count_bits v bm (f # fs) =
     (case bit_test bm f of
        None \<Rightarrow> None
      | Some b \<Rightarrow> map_option (\<lambda>n. if b = v then n + 1 else n) (count_bits v bm fs))"

definition max_usable_end :: "memory_region list \<Rightarrow> nat" where
  "max_usable_end regions =
     foldr max (map (\<lambda>r. unat (region_end r)) (filter (\<lambda>r. kind r = Usable) regions)) 0"

definition from_regions :: "memory_region list \<Rightarrow> u64 \<Rightarrow> alloc_state option" where
  "from_regions regions reserved_below =
     (let count = max_usable_end regions div FRAME_SIZE;
          words = div_ceil count 64;
          reserved_frame = div_ceil (unat reserved_below) FRAME_SIZE
      in case mark_regions reserved_frame (filter (\<lambda>r. kind r = Usable) regions)
                (replicate words (- 1)) 0 of
           None \<Rightarrow> None
         | Some (bm, u) \<Rightarrow>
             map_option (\<lambda>a. \<lparr>bitmap = bm, frame_count = count, allocated = a, usable = u,
                              next_hint = reserved_frame\<rparr>)
               (count_bits True bm [0 ..< count]))"

text \<open>The scan of \<open>allocate\<close>: the first clear bit of a sequence of frames.\<close>

fun find_clear :: "u64 list \<Rightarrow> nat list \<Rightarrow> nat option option" where
  "find_clear bm [] = Some None"
| "find_clear bm (f # fs) =
     (case bit_test bm f of
        None \<Rightarrow> None
      | Some b \<Rightarrow> if b then find_clear bm fs else Some (Some f))"

definition allocate :: "alloc_state \<Rightarrow> ((kernel_error + phys_frame) \<times> alloc_state) option" where
  "allocate s =
     (case find_clear (bitmap s) ([next_hint s ..< frame_count s] @ [0 ..< next_hint s]) of
        None \<Rightarrow> None
      | Some None \<Rightarrow> Some (Inl (LimitExceeded ''physical frames''), s)
      | Some (Some f) \<Rightarrow>
          map_option
            (\<lambda>bm. (Inr (frame_from_index f),
                   s\<lparr>bitmap := bm, allocated := allocated s + 1, next_hint := f + 1\<rparr>))
            (bit_mark (bitmap s) f))"

text \<open>
  The scan of \<open>allocate_contiguous\<close>: the running \<open>run_start\<close> and \<open>run_len\<close>, reset at every
  set bit, until the run has \<open>n\<close> frames; then the marking loop over the run.
\<close>

fun find_run :: "u64 list \<Rightarrow> nat \<Rightarrow> nat list \<Rightarrow> nat \<Rightarrow> nat \<Rightarrow> nat option option" where
  "find_run bm n [] run_start run_len = Some None"
| "find_run bm n (f # fs) run_start run_len =
     (case bit_test bm f of
        None \<Rightarrow> None
      | Some b \<Rightarrow>
          if b then find_run bm n fs run_start 0
          else
            let run_start' = (if run_len = 0 then f else run_start) in
            if run_len + 1 = n then Some (Some run_start')
            else find_run bm n fs run_start' (run_len + 1))"

fun mark_all :: "u64 list \<Rightarrow> nat list \<Rightarrow> u64 list option" where
  "mark_all bm [] = Some bm"
| "mark_all bm (f # fs) =
     (case bit_mark bm f of
        None \<Rightarrow> None
      | Some bm' \<Rightarrow> mark_all bm' fs)"

definition allocate_contiguous ::
    "nat \<Rightarrow> alloc_state \<Rightarrow> ((kernel_error + phys_frame) \<times> alloc_state) option" where
  "allocate_contiguous n0 s =
     (let n = max n0 1 in
      if frame_count s < n then Some (Inl (LimitExceeded ''physical frames''), s)
      else
        case find_run (bitmap s) n [0 ..< frame_count s] 0 0 of
          None \<Rightarrow> None
        | Some None \<Rightarrow> Some (Inl (LimitExceeded ''contiguous physical frames''), s)
        | Some (Some start) \<Rightarrow>
            map_option
              (\<lambda>bm. (Inr (frame_from_index start),
                     s\<lparr>bitmap := bm, allocated := allocated s + n\<rparr>))
              (mark_all (bitmap s) [start ..< start + n]))"

definition free_frame :: "phys_frame \<Rightarrow> alloc_state \<Rightarrow> alloc_state option" where
  "free_frame frame s =
     (let f = frame_index frame in
      if frame_count s \<le> f then Some s
      else
        case bit_test (bitmap s) f of
          None \<Rightarrow> None
        | Some b \<Rightarrow>
            if b then
              map_option
                (\<lambda>bm. s\<lparr>bitmap := bm, allocated := allocated s - 1,
                        next_hint := (if f < next_hint s then f else next_hint s)\<rparr>)
                (bit_clear (bitmap s) f)
            else Some s)"

definition usable_frames :: "alloc_state \<Rightarrow> nat" where
  "usable_frames s = usable s"

definition free_frames :: "alloc_state \<Rightarrow> nat option" where
  "free_frames s = count_bits False (bitmap s) [0 ..< frame_count s]"

definition is_allocated :: "phys_frame \<Rightarrow> alloc_state \<Rightarrow> bool option" where
  "is_allocated frame s =
     (let f = frame_index frame in
      if frame_count s \<le> f then Some True else bit_test (bitmap s) f)"

section \<open>Abstraction and invariant\<close>

definition bit_at :: "u64 list \<Rightarrow> nat \<Rightarrow> bool" where
  "bit_at bm f = (f div 64 < length bm \<longrightarrow> bit (bm ! (f div 64)) (f mod 64))"

definition free_set :: "alloc_state \<Rightarrow> nat set" where
  "free_set s = {f. f < frame_count s \<and> \<not> bit_at (bitmap s) f}"

definition fa_wf :: "alloc_state \<Rightarrow> bool" where
  "fa_wf s \<longleftrightarrow> frame_count s \<le> 64 * length (bitmap s) \<and> frame_count s \<le> 2 ^ 52 \<and>
     (\<forall>f. frame_count s \<le> f \<longrightarrow> bit_at (bitmap s) f) \<and>
     allocated s + card (free_set s) = frame_count s"

definition fa_inv :: "alloc_state \<Rightarrow> bool" where
  "fa_inv s \<longleftrightarrow> fa_wf s \<and> next_hint s \<le> 64 * length (bitmap s)"

section \<open>Bitmap lemmas\<close>

lemma bit_test_None_iff: "bit_test bm f = None \<longleftrightarrow> 64 * length bm \<le> f"
  by (auto simp: bit_test_def idx_def)

lemma bit_test_in_range [simp]: "f < 64 * length bm \<Longrightarrow> bit_test bm f = Some (bit_at bm f)"
  by (auto simp: bit_test_def bit_at_def bitmap_simps)

lemma bit_at_out [simp]: "64 * length bm \<le> f \<Longrightarrow> bit_at bm f"
  by (auto simp: bit_at_def)

lemma div_mod_64_eq: "f div 64 = g div 64 \<and> f mod 64 = g mod 64 \<longleftrightarrow> f = (g :: nat)"
  by (metis div_mult_mod_eq)

lemma bit_mark_in_range:
  assumes "f < 64 * length bm"
  obtains bm' where "bit_mark bm f = Some bm'" "length bm' = length bm"
    "\<And>g. bit_at bm' g \<longleftrightarrow> bit_at bm g \<or> g = f"
proof -
  let ?bm = "bm[f div 64 := (bm ! (f div 64)) OR mask_bit (f mod 64)]"
  have "bit_at ?bm g \<longleftrightarrow> bit_at bm g \<or> g = f" for g
    using assms div_mod_64_eq [of g f]
    by (cases "g div 64 = f div 64") (auto simp: bit_at_def bitmap_simps nth_list_update)
  with assms that [of ?bm] show ?thesis
    by (simp add: bit_mark_def)
qed

lemma bit_clear_in_range:
  assumes "f < 64 * length bm"
  obtains bm' where "bit_clear bm f = Some bm'" "length bm' = length bm"
    "\<And>g. bit_at bm' g \<longleftrightarrow> bit_at bm g \<and> g \<noteq> f"
proof -
  let ?bm = "bm[f div 64 := (bm ! (f div 64)) AND NOT (mask_bit (f mod 64))]"
  have "bit_at ?bm g \<longleftrightarrow> bit_at bm g \<and> g \<noteq> f" for g
    using assms div_mod_64_eq [of g f]
    by (cases "g div 64 = f div 64") (auto simp: bit_at_def bitmap_simps nth_list_update)
  with assms that [of ?bm] show ?thesis
    by (simp add: bit_clear_def)
qed

lemma mark_all_in_range:
  assumes "\<And>f. f \<in> set fs \<Longrightarrow> f < 64 * length bm"
  obtains bm' where "mark_all bm fs = Some bm'" "length bm' = length bm"
    "\<And>g. bit_at bm' g \<longleftrightarrow> bit_at bm g \<or> g \<in> set fs"
  using assms
proof (induction fs arbitrary: bm thesis)
  case Nil
  then show ?case by simp
next
  case (Cons f fs)
  obtain bm1 where bm1: "bit_mark bm f = Some bm1" "length bm1 = length bm"
    "\<And>g. bit_at bm1 g \<longleftrightarrow> bit_at bm g \<or> g = f"
    using Cons.prems(2) [of f] by (auto intro: bit_mark_in_range [of f bm])
  have "g < 64 * length bm1" if "g \<in> set fs" for g
    using Cons.prems(2) [of g] bm1(2) that by simp
  then obtain bm2 where "mark_all bm1 fs = Some bm2" "length bm2 = length bm1"
    "\<And>g. bit_at bm2 g \<longleftrightarrow> bit_at bm1 g \<or> g \<in> set fs"
    using Cons.IH by blast
  with bm1 show ?case
    by (intro Cons.prems(1) [of bm2]) auto
qed

lemma count_bits_in_range:
  assumes "distinct fs" "\<And>f. f \<in> set fs \<Longrightarrow> f < 64 * length bm"
  shows "count_bits v bm fs = Some (card {f \<in> set fs. bit_at bm f = v})"
  using assms
proof (induction fs)
  case Nil
  then show ?case by simp
next
  case (Cons f fs)
  have "{g \<in> set (f # fs). bit_at bm g = v} =
      (if bit_at bm f = v then insert f {g \<in> set fs. bit_at bm g = v} else {g \<in> set fs. bit_at bm g = v})"
    by auto
  with Cons show ?case by simp
qed

lemma find_clear_in_range:
  assumes "\<And>f. f \<in> set fs \<Longrightarrow> f < 64 * length bm"
  shows "find_clear bm fs = Some (find (\<lambda>f. \<not> bit_at bm f) fs)"
  using assms by (induction fs) auto

lemma mark_usable_in_range:
  assumes "\<And>f. f \<in> set fs \<Longrightarrow> f < 64 * length bm"
  obtains bm' where "mark_usable r fs bm u = Some (bm', u + length fs)" "length bm' = length bm"
    "\<And>g. bit_at bm' g \<longleftrightarrow> bit_at bm g \<and> \<not> (g \<in> set fs \<and> r \<le> g)"
  using assms
proof (induction fs arbitrary: bm u thesis)
  case Nil
  then show ?case by simp
next
  case (Cons f fs)
  obtain bm1 where bm1: "length bm1 = length bm"
    "\<And>g. bit_at bm1 g \<longleftrightarrow> bit_at bm g \<and> \<not> (g = f \<and> r \<le> g)"
    "mark_usable r (f # fs) bm u = mark_usable r fs bm1 (u + 1)"
  proof (cases "r \<le> f")
    case True
    obtain bm' where "bit_clear bm f = Some bm'" "length bm' = length bm"
      "\<And>g. bit_at bm' g \<longleftrightarrow> bit_at bm g \<and> g \<noteq> f"
      using Cons.prems(2) [of f] by (auto intro: bit_clear_in_range [of f bm])
    with True that [of bm'] show ?thesis by auto
  next
    case False
    with that [of bm] show ?thesis by auto
  qed
  have "g < 64 * length bm1" if "g \<in> set fs" for g
    using Cons.prems(2) [of g] bm1(1) that by simp
  then obtain bm2 where "mark_usable r fs bm1 (u + 1) = Some (bm2, u + 1 + length fs)"
    "length bm2 = length bm1" "\<And>g. bit_at bm2 g \<longleftrightarrow> bit_at bm1 g \<and> \<not> (g \<in> set fs \<and> r \<le> g)"
    using Cons.IH by blast
  with bm1 show ?case
    by (intro Cons.prems(1) [of bm2]) auto
qed

section \<open>Frame numbers and addresses\<close>

lemma frame_index_from_index: "f < 2 ^ 52 \<Longrightarrow> frame_index (frame_from_index f) = f"
  by (simp add: frame_index_def frame_from_index_def FRAME_SIZE_def unat_word_ariths
      unsigned_of_nat take_bit_nat_eq_self)

lemma frame_from_index_inject:
  "f < 2 ^ 52 \<Longrightarrow> g < 2 ^ 52 \<Longrightarrow> frame_from_index f = frame_from_index g \<longleftrightarrow> f = g"
  by (metis frame_index_from_index)

lemma free_set_less: "fa_wf s \<Longrightarrow> f \<in> free_set s \<Longrightarrow> f < 2 ^ 52"
  by (auto simp: fa_wf_def free_set_def)

lemma finite_free_set [simp]: "finite (free_set s)"
  by (simp add: free_set_def)

lemma free_set_in_bitmap: "fa_wf s \<Longrightarrow> f \<in> free_set s \<Longrightarrow> f < 64 * length (bitmap s)"
  by (auto simp: fa_wf_def free_set_def)

text \<open>Marking free frames and clearing marked frames keep the representation invariant.\<close>

lemma fa_wf_mark:
  assumes wf: "fa_wf s" and A: "A \<subseteq> free_set s" and len: "length bm = length (bitmap s)"
    and bits: "\<And>g. bit_at bm g \<longleftrightarrow> bit_at (bitmap s) g \<or> g \<in> A"
  shows "free_set (s\<lparr>bitmap := bm, allocated := a, next_hint := h\<rparr>) = free_set s - A"
    and "a = allocated s + card A \<Longrightarrow> fa_wf (s\<lparr>bitmap := bm, allocated := a, next_hint := h\<rparr>)"
proof -
  let ?s = "s\<lparr>bitmap := bm, allocated := a, next_hint := h\<rparr>"
  show *: "free_set ?s = free_set s - A"
    using bits by (auto simp: free_set_def)
  have "card A \<le> card (free_set s)" "card (free_set s - A) = card (free_set s) - card A"
    using A by (simp_all add: card_mono card_Diff_subset finite_subset)
  then show "a = allocated s + card A \<Longrightarrow> fa_wf ?s"
    using wf * len bits by (auto simp: fa_wf_def)
qed

lemma fa_wf_clear:
  assumes wf: "fa_wf s" and f: "f < frame_count s" "f \<notin> free_set s"
    and len: "length bm = length (bitmap s)"
    and bits: "\<And>g. bit_at bm g \<longleftrightarrow> bit_at (bitmap s) g \<and> g \<noteq> f"
  shows "free_set (s\<lparr>bitmap := bm, allocated := allocated s - 1, next_hint := h\<rparr>) =
           insert f (free_set s)"
    and "fa_wf (s\<lparr>bitmap := bm, allocated := allocated s - 1, next_hint := h\<rparr>)"
proof -
  let ?s = "s\<lparr>bitmap := bm, allocated := allocated s - 1, next_hint := h\<rparr>"
  show *: "free_set ?s = insert f (free_set s)"
    using bits f by (auto simp: free_set_def)
  have "insert f (free_set s) \<subseteq> {..<frame_count s}"
    using f by (auto simp: free_set_def)
  then have "card (insert f (free_set s)) \<le> frame_count s"
    using card_mono [of "{..<frame_count s}"] by force
  then have "Suc (card (free_set s)) \<le> frame_count s"
    using f(2) by simp
  then show "fa_wf ?s"
    using wf * len bits f by (auto simp: fa_wf_def)
qed

section \<open>Allocation\<close>

lemma find_hint_order:
  assumes "find P ([h ..< c] @ [0 ..< h]) = Some (f :: nat)"
  shows "P f" and "\<And>g. P g \<Longrightarrow> g < c \<Longrightarrow> h \<le> g \<Longrightarrow> h \<le> f \<and> f \<le> g"
    and "\<And>g. P g \<Longrightarrow> f < h \<Longrightarrow> f \<le> g \<or> h \<le> g \<and> c \<le> g"
  using assms
  by (auto simp: find_append find_upt_Some find_upt_None split: option.splits)

lemma allocate_cases [consumes 1, case_names ok exhausted]:
  assumes inv: "fa_inv s"
  obtains f s' where "allocate s = Some (Inr (frame_from_index f), s')" "f \<in> free_set s"
      "free_set s' = free_set s - {f}" "fa_inv s'" "frame_count s' = frame_count s"
      "\<And>g. g \<in> free_set s \<Longrightarrow> next_hint s \<le> g \<Longrightarrow> next_hint s \<le> f \<and> f \<le> g"
      "\<And>g. g \<in> free_set s \<Longrightarrow> f < next_hint s \<Longrightarrow> f \<le> g"
  | "allocate s = Some (Inl (LimitExceeded ''physical frames''), s)" "free_set s = {}"
proof -
  let ?fs = "[next_hint s ..< frame_count s] @ [0 ..< next_hint s]"
  from inv have wf: "fa_wf s" by (simp add: fa_inv_def)
  then have clear_free: "\<not> bit_at (bitmap s) f \<longleftrightarrow> f \<in> free_set s" for f
    by (auto simp: fa_wf_def free_set_def not_le)
  have scan: "find_clear (bitmap s) ?fs = Some (find (\<lambda>f. f \<in> free_set s) ?fs)"
    unfolding clear_free [symmetric]
    by (rule find_clear_in_range) (use inv in \<open>auto simp: fa_inv_def fa_wf_def\<close>)
  show thesis
  proof (cases "find (\<lambda>f. f \<in> free_set s) ?fs")
    case None
    then have "free_set s = {}"
      by (auto simp: find_None_iff free_set_def)
    with None scan that(2) show ?thesis
      by (simp add: allocate_def)
  next
    case (Some f)
    note order = find_hint_order [OF Some]
    obtain bm where bm: "bit_mark (bitmap s) f = Some bm" "length bm = length (bitmap s)"
      "\<And>g. bit_at bm g \<longleftrightarrow> bit_at (bitmap s) g \<or> g = f"
      using bit_mark_in_range free_set_in_bitmap [OF wf order(1)] by blast
    let ?s = "s\<lparr>bitmap := bm, allocated := allocated s + 1, next_hint := f + 1\<rparr>"
    have "free_set ?s = free_set s - {f}" "fa_wf ?s"
      using fa_wf_mark [OF wf, of "{f}" bm] order(1) bm by auto
    moreover have "f < 64 * length (bitmap s)"
      using free_set_in_bitmap [OF wf order(1)] .
    ultimately show ?thesis
      using Some scan bm order by (intro that(1) [of f ?s])
        (auto simp: allocate_def fa_inv_def free_set_def)
  qed
qed
section \<open>Contiguous allocation\<close>

definition free_run :: "alloc_state \<Rightarrow> nat \<Rightarrow> nat \<Rightarrow> bool" where
  "free_run s n k \<longleftrightarrow> {k ..< k + n} \<subseteq> free_set s"

text \<open>
  The scan state at frame \<open>i\<close>: the last \<open>rl\<close> frames are clear, the one before them is not, and
  no run of \<open>n\<close> clear frames ends at or before \<open>i\<close>.
\<close>

definition scan_inv :: "u64 list \<Rightarrow> nat \<Rightarrow> nat \<Rightarrow> nat \<Rightarrow> nat \<Rightarrow> bool" where
  "scan_inv bm n i rs rl \<longleftrightarrow> rl < n \<and> rl \<le> i \<and> (0 < rl \<longrightarrow> rs = i - rl) \<and>
     (\<forall>g. i - rl \<le> g \<and> g < i \<longrightarrow> \<not> bit_at bm g) \<and> (rl < i \<longrightarrow> bit_at bm (i - rl - 1)) \<and>
     (\<forall>k. k + n \<le> i \<longrightarrow> (\<exists>g. k \<le> g \<and> g < k + n \<and> bit_at bm g))"

lemma scan_inv_set:
  "scan_inv bm n i rs rl \<Longrightarrow> bit_at bm i \<Longrightarrow> scan_inv bm n (Suc i) rs 0"
  unfolding scan_inv_def by (auto simp: le_Suc_eq)

lemma scan_inv_clear:
  assumes inv: "scan_inv bm n i rs rl" and clear: "\<not> bit_at bm i" and more: "rl + 1 < n"
  shows "scan_inv bm n (Suc i) (if rl = 0 then i else rs) (rl + 1)"
proof -
  have run: "\<not> bit_at bm g" if "i - rl \<le> g" "g < Suc i" for g
    using inv clear that by (auto simp: scan_inv_def less_Suc_eq)
  have none: "\<exists>g. k \<le> g \<and> g < k + n \<and> bit_at bm g" if k: "k + n \<le> Suc i" for k
  proof (cases "k + n \<le> i")
    case True
    then show ?thesis
      using inv by (simp add: scan_inv_def)
  next
    case False
    then have "k \<le> i - rl - 1" "i - rl - 1 < k + n" "rl < i"
      using k more by linarith+
    then show ?thesis
      using inv unfolding scan_inv_def by blast
  qed
  show ?thesis
    using inv more run none by (auto simp: scan_inv_def Suc_diff_le)
qed

lemma find_run_correct:
  assumes "scan_inv bm n i rs rl" "i \<le> c" "c \<le> 64 * length bm"
  shows "find_run bm n [i ..< c] rs rl =
    Some (find (\<lambda>k. k + n \<le> c \<and> (\<forall>g. k \<le> g \<and> g < k + n \<longrightarrow> \<not> bit_at bm g)) [0 ..< Suc c])"
  using assms
proof (induction "c - i" arbitrary: i rs rl)
  case 0
  then have "i = c" by simp
  have "find (\<lambda>k. k + n \<le> c \<and> (\<forall>g. k \<le> g \<and> g < k + n \<longrightarrow> \<not> bit_at bm g)) [0 ..< Suc c] = None"
    using 0 \<open>i = c\<close> by (auto simp only: find_upt_None scan_inv_def)
  then show ?case
    using \<open>i = c\<close> by simp
next
  case (Suc m)
  then have upt: "[i ..< c] = i # [Suc i ..< c]" and ic: "i < c"
    by (simp_all add: upt_rec)
  show ?case
  proof (cases "bit_at bm i")
    case True
    with Suc upt ic show ?thesis
      using scan_inv_set [OF Suc.prems(1) True] by simp
  next
    case clear: False
    show ?thesis
    proof (cases "rl + 1 = n")
      case True
      have "find (\<lambda>k. k + n \<le> c \<and> (\<forall>g. k \<le> g \<and> g < k + n \<longrightarrow> \<not> bit_at bm g)) [0 ..< Suc c] = Some (i - rl)"
        unfolding find_upt_Some
        using Suc.prems(1) True ic clear by (auto simp: scan_inv_def less_Suc_eq)
      with Suc.prems True clear upt ic show ?thesis
        by (auto simp: scan_inv_def)
    next
      case False
      then have "rl + 1 < n"
        using Suc.prems(1) by (simp add: scan_inv_def)
      with Suc upt ic clear False show ?thesis
        using scan_inv_clear [OF Suc.prems(1) clear] by simp
    qed
  qed
qed
lemma allocate_contiguous_cases [consumes 1, case_names ok exhausted]:
  assumes inv: "fa_inv s"
  obtains k s' where "allocate_contiguous n s = Some (Inr (frame_from_index k), s')"
      "free_run s (max n 1) k" "\<And>j. free_run s (max n 1) j \<Longrightarrow> k \<le> j"
      "free_set s' = free_set s - {k ..< k + max n 1}" "fa_inv s'" "frame_count s' = frame_count s"
  | r where "allocate_contiguous n s = Some (Inl (LimitExceeded r), s)"
      "\<And>k. \<not> free_run s (max n 1) k"
proof -
  let ?n = "max n 1"
  from inv have wf: "fa_wf s" by (simp add: fa_inv_def)
  let ?run = "\<lambda>k. k + ?n \<le> frame_count s \<and> (\<forall>g. k \<le> g \<and> g < k + ?n \<longrightarrow> \<not> bit_at (bitmap s) g)"
  have run_iff: "?run k \<longleftrightarrow> free_run s ?n k" for k
  proof -
    have "k + ?n \<le> frame_count s" if "free_run s ?n k"
    proof -
      have "k + ?n - 1 \<in> {k ..< k + ?n}"
        unfolding atLeastLessThan_iff by linarith
      then have "k + ?n - 1 \<in> free_set s"
        using that unfolding free_run_def by blast
      then show ?thesis by (auto simp: free_set_def)
    qed
    then show ?thesis
      by (auto simp: free_run_def free_set_def subset_iff)
  qed
  have "scan_inv (bitmap s) ?n 0 0 0"
    by (auto simp: scan_inv_def)
  then have scan: "find_run (bitmap s) ?n [0 ..< frame_count s] 0 0 =
      Some (find (free_run s ?n) [0 ..< Suc (frame_count s)])"
    using find_run_correct [of "bitmap s" ?n 0 0 0 "frame_count s"] wf
    by (simp only: run_iff fa_wf_def)
  show thesis
  proof (cases "find (free_run s ?n) [0 ..< Suc (frame_count s)]")
    case None
    then have "\<not> free_run s ?n k" for k
      unfolding find_upt_None using run_iff [of k] by auto
    moreover from this have "\<exists>r. allocate_contiguous n s = Some (Inl (LimitExceeded r), s)"
      using scan None by (simp only: allocate_contiguous_def Let_def) simp
    ultimately show ?thesis using that(2) by blast
  next
    case (Some k)
    then have k: "free_run s ?n k" and least: "\<And>j. free_run s ?n j \<Longrightarrow> k \<le> j"
      unfolding find_upt_Some by (auto simp: not_less [symmetric])
    have small: "\<not> frame_count s < ?n"
      using run_iff [of k] k by auto
    have "g < 64 * length (bitmap s)" if "g \<in> set [k ..< k + ?n]" for g
      using k that free_set_in_bitmap [OF wf, of g] unfolding free_run_def set_upt by blast
    then obtain bm where bm: "mark_all (bitmap s) [k ..< k + ?n] = Some bm" "length bm = length (bitmap s)"
      "\<And>g. bit_at bm g \<longleftrightarrow> bit_at (bitmap s) g \<or> g \<in> {k ..< k + ?n}"
      using mark_all_in_range [of "[k ..< k + ?n]" "bitmap s"] unfolding set_upt by blast
    let ?s = "s\<lparr>bitmap := bm, allocated := allocated s + ?n, next_hint := next_hint s\<rparr>"
    note upd = fa_wf_mark [OF wf k [unfolded free_run_def] bm(2,3)]
    have "free_set ?s = free_set s - {k ..< k + ?n}"
      by (rule upd(1))
    moreover have "fa_wf ?s"
      by (rule upd(2)) simp
    moreover have "allocate_contiguous n s = Some (Inr (frame_from_index k), ?s)"
      using scan Some bm(1) small by (simp only: allocate_contiguous_def Let_def if_False) simp
    ultimately show ?thesis
      using bm(2) inv k least by (intro that(1) [of k ?s]) (auto simp: fa_inv_def)
  qed
qed

section \<open>Release and queries\<close>

lemma free_frame_inv:
  assumes inv: "fa_inv s"
  obtains s' where "free_frame fr s = Some s'" "fa_inv s'" "frame_count s' = frame_count s"
    "free_set s' = (if frame_index fr < frame_count s then insert (frame_index fr) (free_set s)
                    else free_set s)"
proof -
  let ?f = "frame_index fr"
  from inv have wf: "fa_wf s" by (simp add: fa_inv_def)
  consider "frame_count s \<le> ?f" | "?f \<in> free_set s" | "?f < frame_count s" "?f \<notin> free_set s"
    by linarith
  then show thesis
  proof cases
    case 1
    then show ?thesis
      using inv by (intro that [of s]) (auto simp: free_frame_def)
  next
    case 2
    then show ?thesis
      using inv free_set_in_bitmap [OF wf 2]
      by (intro that [of s]) (auto simp: free_frame_def free_set_def)
  next
    case 3
    then have in_bm: "?f < 64 * length (bitmap s)" and set: "bit_at (bitmap s) ?f"
      using wf by (auto simp: fa_wf_def free_set_def)
    obtain bm where bm: "bit_clear (bitmap s) ?f = Some bm" "length bm = length (bitmap s)"
      "\<And>g. bit_at bm g \<longleftrightarrow> bit_at (bitmap s) g \<and> g \<noteq> ?f"
      using bit_clear_in_range [OF in_bm] by blast
    note upd = fa_wf_clear [OF wf 3 bm(2,3)]
    let ?s = "s\<lparr>bitmap := bm, allocated := allocated s - 1,
                next_hint := (if ?f < next_hint s then ?f else next_hint s)\<rparr>"
    have "free_frame fr s = Some ?s"
      using 3 in_bm set bm(1) by (simp add: free_frame_def)
    moreover have "fa_inv ?s"
      using upd(2) inv in_bm bm(2) by (auto simp: fa_inv_def)
    ultimately show ?thesis
      using upd(1) 3 by (intro that [of ?s]) auto
  qed
qed

lemma is_allocated_iff:
  "fa_wf s \<Longrightarrow> is_allocated fr s = Some (frame_index fr \<notin> free_set s)"
  by (auto simp: is_allocated_def fa_wf_def free_set_def Let_def)

lemma free_frames_card: "fa_wf s \<Longrightarrow> free_frames s = Some (card (free_set s))"
  using count_bits_in_range [of "[0 ..< frame_count s]" "bitmap s" False]
  by (auto simp: free_frames_def fa_wf_def free_set_def)

text \<open>
  Accounting: the free count and the running \<open>allocated\<close> count always add up to the number of
  frames covered.
\<close>

lemma allocated_accounting: "fa_wf s \<Longrightarrow> free_frames s = Some (frame_count s - allocated s)"
  by (simp add: free_frames_card) (auto simp: fa_wf_def)
section \<open>Construction from the memory map\<close>

lemma mark_regions_in_range:
  assumes "\<And>r f. r \<in> set rs \<Longrightarrow> f \<in> set (region_frames r) \<Longrightarrow> f < 64 * length bm"
  obtains bm' where
    "mark_regions rf rs bm u = Some (bm', u + sum_list (map (\<lambda>r. length (region_frames r)) rs))"
    "length bm' = length bm"
    "\<And>g. bit_at bm' g \<longleftrightarrow> bit_at bm g \<and> \<not> (rf \<le> g \<and> (\<exists>r \<in> set rs. g \<in> set (region_frames r)))"
  using assms
proof (induction rs arbitrary: bm u thesis)
  case Nil
  then show ?case by simp
next
  case (Cons r rs)
  have "f < 64 * length bm" if "f \<in> set (region_frames r)" for f
    using Cons.prems(2) [of r f] that by simp
  then obtain bm1 where bm1: "mark_usable rf (region_frames r) bm u = Some (bm1, u + length (region_frames r))"
    "length bm1 = length bm"
    "\<And>g. bit_at bm1 g \<longleftrightarrow> bit_at bm g \<and> \<not> (g \<in> set (region_frames r) \<and> rf \<le> g)"
    using mark_usable_in_range [of "region_frames r" bm] by blast
  have "f < 64 * length bm1" if "r' \<in> set rs" "f \<in> set (region_frames r')" for r' f
    using Cons.prems(2) [of r' f] bm1(2) that by simp
  then obtain bm2 where "mark_regions rf rs bm1 (u + length (region_frames r)) =
      Some (bm2, u + length (region_frames r) + sum_list (map (\<lambda>r. length (region_frames r)) rs))"
    "length bm2 = length bm1"
    "\<And>g. bit_at bm2 g \<longleftrightarrow> bit_at bm1 g \<and> \<not> (rf \<le> g \<and> (\<exists>r \<in> set rs. g \<in> set (region_frames r)))"
    using Cons.IH by blast
  with bm1 show ?case
    by (intro Cons.prems(1) [of bm2]) auto
qed

lemma max_usable_end_ge:
  "r \<in> set regions \<Longrightarrow> kind r = Usable \<Longrightarrow> unat (region_end r) \<le> max_usable_end regions"
  unfolding max_usable_end_def by (induction regions) (auto simp: le_max_iff_disj)

lemma max_usable_end_less: "max_usable_end regions < 2 ^ 64"
  unfolding max_usable_end_def
  by (induction regions) (use unat_u64_less in auto)

text \<open>
  A frame is usable when all its 4096 bytes lie inside one usable region of the memory map and
  at or above the reserved watermark.
\<close>

definition usable_frame :: "memory_region list \<Rightarrow> u64 \<Rightarrow> nat \<Rightarrow> bool" where
  "usable_frame regions reserved_below f \<longleftrightarrow>
     unat reserved_below \<le> f * FRAME_SIZE \<and>
     (\<exists>r \<in> set regions. kind r = Usable \<and>
        unat (base r) \<le> f * FRAME_SIZE \<and> (f + 1) * FRAME_SIZE \<le> unat (region_end r))"

lemma region_frames_iff:
  "f \<in> set (region_frames r) \<longleftrightarrow>
   unat (base r) \<le> f * FRAME_SIZE \<and> (f + 1) * FRAME_SIZE \<le> unat (region_end r)"
proof -
  have "f < unat (region_end r) div FRAME_SIZE \<longleftrightarrow> (f + 1) * FRAME_SIZE \<le> unat (region_end r)"
    using less_eq_div_iff_mult_less_eq [of FRAME_SIZE "f + 1"]
    by (simp add: FRAME_SIZE_def Suc_le_eq)
  then show ?thesis
    by (simp add: region_frames_def div_ceil_le_iff FRAME_SIZE_def)
qed

lemma from_regions_correct:
  obtains s where "from_regions regions reserved_below = Some s" "fa_wf s"
    "free_set s = {f. usable_frame regions reserved_below f}"
    "frame_count s = max_usable_end regions div FRAME_SIZE"
    "length (bitmap s) = div_ceil (frame_count s) 64"
    "usable s = sum_list (map (\<lambda>r. length (region_frames r)) (filter (\<lambda>r. kind r = Usable) regions))"
    "next_hint s = div_ceil (unat reserved_below) FRAME_SIZE"
proof -
  let ?c = "max_usable_end regions div FRAME_SIZE"
  let ?bm0 = "replicate (div_ceil ?c 64) (- 1 :: u64)"
  let ?rs = "filter (\<lambda>r. kind r = Usable) regions"
  let ?rf = "div_ceil (unat reserved_below) FRAME_SIZE"
  have cover: "?c \<le> 64 * length ?bm0"
    using div_ceil_bounds(1) [of 64 ?c] by simp
  have in_c: "f < ?c" if "r \<in> set ?rs" "f \<in> set (region_frames r)" for r f
    using that div_le_mono [OF max_usable_end_ge [of r regions], of FRAME_SIZE]
    by (auto simp: region_frames_def)
  then have "f < 64 * length ?bm0" if "r \<in> set ?rs" "f \<in> set (region_frames r)" for r f
    using that cover by (meson less_le_trans)
  then obtain bm where bm: "mark_regions ?rf ?rs ?bm0 0 =
      Some (bm, 0 + sum_list (map (\<lambda>r. length (region_frames r)) ?rs))"
    "length bm = length ?bm0"
    "\<And>g. bit_at bm g \<longleftrightarrow> bit_at ?bm0 g \<and> \<not> (?rf \<le> g \<and> (\<exists>r \<in> set ?rs. g \<in> set (region_frames r)))"
    using mark_regions_in_range [of ?rs ?bm0] by blast
  have bits: "bit_at bm g \<longleftrightarrow> \<not> usable_frame regions reserved_below g" for g
  proof -
    have "bit_at ?bm0 g"
      by (simp add: bit_at_def)
    then show ?thesis
      unfolding bm(3) by (simp add: usable_frame_def region_frames_iff div_ceil_le_iff FRAME_SIZE_def) blast
  qed
  have below: "g < ?c" if "usable_frame regions reserved_below g" for g
    using that in_c unfolding usable_frame_def region_frames_iff [symmetric] by auto
  let ?a = "card {f \<in> set [0 ..< ?c]. bit_at bm f = True}"
  let ?s = "\<lparr>bitmap = bm, frame_count = ?c, allocated = ?a,
             usable = sum_list (map (\<lambda>r. length (region_frames r)) ?rs), next_hint = ?rf\<rparr>"
  have "count_bits True bm [0 ..< ?c] = Some ?a"
    using cover bm(2) by (intro count_bits_in_range) auto
  then have "from_regions regions reserved_below = Some ?s"
    using bm(1) by (simp add: from_regions_def Let_def)
  moreover have free: "free_set ?s = {f. usable_frame regions reserved_below f}"
    using bits below by (auto simp: free_set_def)
  moreover have "fa_wf ?s"
  proof -
    have "card ({f. f < ?c \<and> bit_at bm f} \<union> free_set ?s) = card {f. f < ?c \<and> bit_at bm f} + card (free_set ?s)"
      by (rule card_Un_disjoint) (auto simp: free_set_def)
    moreover have "{f. f < ?c \<and> bit_at bm f} \<union> free_set ?s = {..<?c}"
      by (auto simp: free_set_def)
    ultimately have "?a + card (free_set ?s) = ?c"
      by simp
    moreover have "?c \<le> 2 ^ 52"
      using max_usable_end_less [of regions] by (simp add: FRAME_SIZE_def)
    ultimately show ?thesis
      using cover bm(2) bits below by (auto simp: fa_wf_def not_le [symmetric])
  qed
  ultimately show thesis
    using that [of ?s] bm(2) by simp
qed
lemma from_regions_inv:
  "from_regions regions reserved_below = Some s \<Longrightarrow> next_hint s \<le> 64 * length (bitmap s) \<Longrightarrow> fa_inv s"
  by (rule from_regions_correct [of regions reserved_below]) (auto simp: fa_inv_def)

section \<open>The contract page tables rely on\<close>

text \<open>
  A client that asks for frames relies on four things: a request always returns, a returned
  frame was free and is free no longer, a failure means that nothing is free and changes
  nothing, and a released frame becomes free again without disturbing the others.
\<close>

locale frame_source =
  fixes alloc :: "'s \<Rightarrow> ((kernel_error + phys_frame) \<times> 's) option"
    and release :: "phys_frame \<Rightarrow> 's \<Rightarrow> 's option"
    and free_of :: "'s \<Rightarrow> nat set"
    and limit :: "'s \<Rightarrow> nat"
    and inv :: "'s \<Rightarrow> bool"
  assumes alloc_total: "inv s \<Longrightarrow> alloc s \<noteq> None"
    and alloc_Inr: "inv s \<Longrightarrow> alloc s = Some (Inr fr, s') \<Longrightarrow>
      inv s' \<and> frame_index fr \<in> free_of s \<and> fr = frame_from_index (frame_index fr) \<and>
      free_of s' = free_of s - {frame_index fr} \<and> limit s' = limit s"
    and alloc_Inl: "inv s \<Longrightarrow> alloc s = Some (Inl e, s') \<Longrightarrow> s' = s \<and> free_of s = {}"
    and release_ok: "inv s \<Longrightarrow> frame_index fr < limit s \<Longrightarrow>
      \<exists>s'. release fr s = Some s' \<and> inv s' \<and> free_of s' = insert (frame_index fr) (free_of s) \<and>
           limit s' = limit s"
    and free_limit: "inv s \<Longrightarrow> f \<in> free_of s \<Longrightarrow> f < limit s \<and> limit s \<le> 2 ^ 52"
    and free_finite: "inv s \<Longrightarrow> finite (free_of s)"
begin

lemma alloc_succeeds_iff:
  assumes "inv s"
  shows "(\<exists>fr s'. alloc s = Some (Inr fr, s')) \<longleftrightarrow> free_of s \<noteq> {}"
proof -
  obtain r s' where r: "alloc s = Some (r, s')"
    using alloc_total [OF assms] by auto
  show ?thesis
  proof (cases r)
    case (Inl e)
    with r alloc_Inl [OF assms] show ?thesis by auto
  next
    case (Inr fr)
    with r alloc_Inr [OF assms] show ?thesis by auto
  qed
qed

text \<open>Two successive requests never return the same frame.\<close>

lemma alloc_twice_distinct:
  assumes "inv s" "alloc s = Some (Inr fr1, s1)" "alloc s1 = Some (Inr fr2, s2)"
  shows "fr1 \<noteq> fr2"
  using alloc_Inr [OF assms(1,2)] alloc_Inr [OF _ assms(3)] by auto

text \<open>Releasing the frame just handed out restores the set of free frames.\<close>

lemma alloc_release:
  assumes "inv s" "alloc s = Some (Inr fr, s1)"
  shows "\<exists>s2. release fr s1 = Some s2 \<and> inv s2 \<and> free_of s2 = free_of s"
proof -
  note step = alloc_Inr [OF assms]
  then have "frame_index fr < limit s1"
    using free_limit [OF assms(1)] by auto
  then obtain s2 where "release fr s1 = Some s2" "inv s2"
      "free_of s2 = insert (frame_index fr) (free_of s1)"
    using release_ok step by blast
  with step show ?thesis by auto
qed

end

lemma fa_inv_free_index:
  "fa_inv s \<Longrightarrow> f \<in> free_set s \<Longrightarrow> frame_index (frame_from_index f) = f"
  by (meson fa_inv_def frame_index_from_index free_set_less)

interpretation fa: frame_source allocate free_frame free_set frame_count fa_inv
proof
  fix s :: alloc_state and s' fr f e
  assume inv: "fa_inv s"
  show "allocate s \<noteq> None"
    using inv by (cases rule: allocate_cases) auto
  show "allocate s = Some (Inr fr, s') \<Longrightarrow> fa_inv s' \<and> frame_index fr \<in> free_set s \<and>
      fr = frame_from_index (frame_index fr) \<and> free_set s' = free_set s - {frame_index fr} \<and>
      frame_count s' = frame_count s"
    using inv fa_inv_free_index [OF inv] by (cases rule: allocate_cases) auto
  show "allocate s = Some (Inl e, s') \<Longrightarrow> s' = s \<and> free_set s = {}"
    using inv by (cases rule: allocate_cases) auto
  show "frame_index fr < frame_count s \<Longrightarrow> \<exists>s'. free_frame fr s = Some s' \<and> fa_inv s' \<and>
      free_set s' = insert (frame_index fr) (free_set s) \<and> frame_count s' = frame_count s"
    by (rule free_frame_inv [OF inv, of fr]) auto
  show "f \<in> free_set s \<Longrightarrow> f < frame_count s \<and> frame_count s \<le> 2 ^ 52"
    using inv by (auto simp: fa_inv_def fa_wf_def free_set_def)
  show "finite (free_set s)"
    by simp
qed

section \<open>When the search hint lies outside the bitmap\<close>

lemma find_clear_eq:
  "find_clear bm fs =
     (case find (\<lambda>f. 64 * length bm \<le> f \<or> \<not> bit_at bm f) fs of
        None \<Rightarrow> Some None
      | Some f \<Rightarrow> if 64 * length bm \<le> f then None else Some (Some f))"
  by (induction fs) (auto simp: bit_test_None_iff [THEN iffD2] not_le)

lemma allocate_panic_iff:
  assumes wf: "fa_wf s"
  shows "allocate s = None \<longleftrightarrow> free_set s = {} \<and> 64 * length (bitmap s) < next_hint s"
proof (cases "next_hint s \<le> 64 * length (bitmap s)")
  case True
  then show ?thesis
    using wf fa.alloc_total [of s] by (auto simp: fa_inv_def)
next
  case False
  let ?b = "64 * length (bitmap s)"
  let ?P = "\<lambda>f. ?b \<le> f \<or> \<not> bit_at (bitmap s) f"
  have free: "f \<in> free_set s \<longleftrightarrow> \<not> bit_at (bitmap s) f" for f
    using wf by (auto simp: fa_wf_def free_set_def not_le)
  have "frame_count s \<le> next_hint s"
    using wf False by (simp add: fa_wf_def)
  then have scan: "[next_hint s ..< frame_count s] @ [0 ..< next_hint s] = [0 ..< next_hint s]"
    by simp
  obtain f where f: "find ?P [0 ..< next_hint s] = Some f"
    using False find_upt_None [of ?P 0 "next_hint s"]
    by (cases "find ?P [0 ..< next_hint s]") (auto simp: not_le)
  have "allocate s = None \<longleftrightarrow> ?b \<le> f"
    using f bit_mark_in_range [of f "bitmap s"]
    by (auto simp: allocate_def scan find_clear_eq bit_mark_def idx_update_def)
  also have "\<dots> \<longleftrightarrow> free_set s = {}"
  proof
    assume "?b \<le> f"
    then show "free_set s = {}"
      using f free free_set_in_bitmap [OF wf] unfolding find_upt_Some by fastforce
  next
    assume "free_set s = {}"
    then show "?b \<le> f"
      using f free unfolding find_upt_Some by auto
  qed
  finally show ?thesis
    using False by auto
qed

section \<open>Properties\<close>

lemmas frame_eval =
  from_regions_def max_usable_end_def region_end_def FRAME_SIZE_def div_ceil_def region_frames_def
  bit_clear_def bit_mark_def bit_test_def mask_bit_def idx_def idx_update_def Let_def
  allocate_def allocate_contiguous_def upt_eval

text \<open>
  C1. Building the allocator never panics and yields a well-formed bitmap in which exactly the
  usable frames are free: those fully inside a usable region and at or above the watermark. The
  \<open>allocated\<close> counter agrees with the bitmap (part of \<open>fa_wf\<close>).
\<close>

theorem from_regions_free_set:
  "\<exists>s. from_regions regions reserved_below = Some s \<and> fa_wf s \<and>
       free_set s = {f. usable_frame regions reserved_below f} \<and>
       next_hint s = div_ceil (unat reserved_below) FRAME_SIZE"
  by (rule from_regions_correct [of regions reserved_below]) blast

text \<open>
  C2. \<open>allocate\<close> refines "take an element out of the free set": with a well-formed state whose
  hint lies in the bitmap it never panics, it fails exactly when nothing is free (and then
  changes nothing), and otherwise returns a free frame, the lowest one at or above the hint if
  there is one and the lowest one of all otherwise, removes exactly that frame and keeps the
  invariant.
\<close>

theorem allocate_refines_take:
  assumes "fa_inv s"
  shows "case allocate s of
      None \<Rightarrow> False
    | Some (Inl e, s') \<Rightarrow> e = LimitExceeded ''physical frames'' \<and> s' = s \<and> free_set s = {}
    | Some (Inr fr, s') \<Rightarrow>
        (let f = frame_index fr in
         fr = frame_from_index f \<and> f \<in> free_set s \<and> free_set s' = free_set s - {f} \<and> fa_inv s' \<and>
         (\<forall>g \<in> free_set s. next_hint s \<le> g \<longrightarrow> next_hint s \<le> f \<and> f \<le> g) \<and>
         (\<forall>g \<in> free_set s. f < next_hint s \<longrightarrow> f \<le> g))"
  using assms
proof (cases rule: allocate_cases)
  case (ok f s')
  then show ?thesis
    using fa_inv_free_index [OF assms ok(2)] by (auto simp: Let_def)
next
  case exhausted
  then show ?thesis by simp
qed

theorem allocate_refines_take_witness:
  "let s = \<lparr>bitmap = [0xFFFFFFFFFFFFFFE3], frame_count = 5, allocated = 2, usable = 4, next_hint = 2\<rparr> in
   from_regions [\<lparr>base = 0x1000, region_length = 0x4000, kind = Usable\<rparr>] 0x2000 = Some s \<and>
   (\<exists>s'. allocate s = Some (Inr (frame_from_index 2), s') \<and> fa_inv s' \<and> free_set s' = free_set s - {2})"
proof -
  let ?s = "\<lparr>bitmap = [0xFFFFFFFFFFFFFFE3], frame_count = 5, allocated = 2, usable = 4, next_hint = 2\<rparr>"
  have s: "from_regions [\<lparr>base = 0x1000, region_length = 0x4000, kind = Usable\<rparr>] 0x2000 = Some ?s"
    by (simp add: frame_eval)
  then have inv: "fa_inv ?s"
    by (rule from_regions_inv) simp
  have "map_option fst (allocate ?s) = Some (Inr (frame_from_index 2))"
    by (simp add: frame_eval)
  with allocate_refines_take [OF inv] frame_index_from_index [of 2] s show ?thesis
    by (auto simp: Let_def split: option.splits)
qed

text \<open>
  C3. \<open>allocate_contiguous n\<close> (zero counting as one) takes the lowest run of \<open>n\<close> free frames out
  of the free set, and fails, changing nothing, exactly when no such run exists.
\<close>

theorem allocate_contiguous_first_fit:
  assumes "fa_inv s"
  shows "case allocate_contiguous n s of
      None \<Rightarrow> False
    | Some (Inl e, s') \<Rightarrow> s' = s \<and> (\<forall>k. \<not> free_run s (max n 1) k)
    | Some (Inr fr, s') \<Rightarrow>
        (let k = frame_index fr in
         fr = frame_from_index k \<and> free_run s (max n 1) k \<and>
         (\<forall>j. free_run s (max n 1) j \<longrightarrow> k \<le> j) \<and>
         free_set s' = free_set s - {k ..< k + max n 1} \<and> fa_inv s')"
  using assms
proof (cases rule: allocate_contiguous_cases [where n = n])
  case (ok k s')
  then have "k \<in> free_set s"
    by (auto simp: free_run_def)
  with ok show ?thesis
    using fa_inv_free_index [OF assms] by (simp add: Let_def)
next
  case (exhausted r)
  then show ?thesis by simp
qed

theorem allocate_contiguous_first_fit_witness:
  "let s = \<lparr>bitmap = [0xFFFFFFFFFFFFFFD3], frame_count = 6, allocated = 3, usable = 4, next_hint = 2\<rparr> in
   fa_inv s \<and> fst (the (allocate_contiguous 2 s)) = Inr (frame_from_index 2) \<and>
   fst (the (allocate_contiguous 3 s)) = Inl (LimitExceeded ''contiguous physical frames'') \<and>
   \<not> free_run s 3 2"
proof -
  let ?s = "\<lparr>bitmap = [0xFFFFFFFFFFFFFFD3], frame_count = 6, allocated = 3, usable = 4, next_hint = 2\<rparr>"
  have "from_regions [\<lparr>base = 0x1000, region_length = 0x3000, kind = Usable\<rparr>,
                      \<lparr>base = 0x4800, region_length = 0x1800, kind = Usable\<rparr>] 0x2000 = Some ?s"
    by (simp add: frame_eval)
  then have inv: "fa_inv ?s"
    by (rule from_regions_inv) simp
  moreover have "map_option fst (allocate_contiguous 2 ?s) = Some (Inr (frame_from_index 2))"
    by (simp add: frame_eval)
  moreover have "map_option fst (allocate_contiguous 3 ?s) =
      Some (Inl (LimitExceeded ''contiguous physical frames''))"
    by (simp add: frame_eval)
  ultimately show ?thesis
    using allocate_contiguous_first_fit [OF inv, of 3] by (auto simp: Let_def)
qed

text \<open>
  \<open>free\<close> never panics; it puts a frame the bitmap covers back into the free set, ignores
  one it does not cover, is idempotent (a double free changes nothing) and keeps the invariant.
\<close>

theorem free_frame_idempotent:
  assumes "fa_inv s"
  shows "\<exists>s'. free_frame fr s = Some s' \<and> fa_inv s' \<and> free_frame fr s' = Some s' \<and>
     free_set s' = free_set s \<union> ({frame_index fr} \<inter> {..<frame_count s})"
proof -
  obtain s' where s': "free_frame fr s = Some s'" "fa_inv s'" "frame_count s' = frame_count s"
    "free_set s' = (if frame_index fr < frame_count s then insert (frame_index fr) (free_set s)
                    else free_set s)"
    using free_frame_inv [OF assms] by blast
  have "free_frame fr s' = Some s'"
    using s' free_set_in_bitmap [of s' "frame_index fr"]
    by (auto simp: free_frame_def fa_inv_def free_set_def not_le Let_def)
  with s' show ?thesis
    by auto
qed

theorem free_frame_idempotent_witness:
  "let s = \<lparr>bitmap = [0xFFFFFFFFFFFFFFE3], frame_count = 5, allocated = 2, usable = 4, next_hint = 2\<rparr> in
   \<exists>s'. free_frame (PhysFrame 0x1000) s = Some s' \<and> fa_inv s' \<and> free_set s' = insert 1 (free_set s)"
proof -
  let ?s = "\<lparr>bitmap = [0xFFFFFFFFFFFFFFE3], frame_count = 5, allocated = 2, usable = 4, next_hint = 2\<rparr>"
  have "from_regions [\<lparr>base = 0x1000, region_length = 0x4000, kind = Usable\<rparr>] 0x2000 = Some ?s"
    by (simp add: frame_eval)
  then have inv: "fa_inv ?s"
    by (rule from_regions_inv) simp
  have "frame_index (PhysFrame 0x1000) = 1"
    by (simp add: frame_index_def FRAME_SIZE_def)
  then show ?thesis
    using free_frame_idempotent [OF inv, of "PhysFrame 0x1000"] by auto
qed

text \<open>
  C4. The one way \<open>allocate\<close> can fail to return: with no frame free and the search hint past
  the end of the bitmap the wrapped scan \<open>0..start\<close> indexes outside the bitmap and panics, where
  the documentation promises \<open>LimitExceeded\<close>. A watermark above the top of usable memory
  produces such a state.
\<close>

theorem allocate_panics_iff_hint_outside:
  assumes "from_regions regions reserved_below = Some s"
  shows "allocate s = None \<longleftrightarrow>
    free_set s = {} \<and> 64 * length (bitmap s) < div_ceil (unat reserved_below) FRAME_SIZE"
proof (rule from_regions_correct [of regions reserved_below])
  fix s'
  assume "from_regions regions reserved_below = Some s'" "fa_wf s'"
    "next_hint s' = div_ceil (unat reserved_below) FRAME_SIZE"
  with assms show ?thesis
    using allocate_panic_iff [of s] by simp
qed

theorem allocate_panics_iff_hint_outside_witness:
  "\<exists>s. from_regions [] 4096 = Some s \<and> allocate s = None"
proof -
  have s: "from_regions [] 4096 = Some \<lparr>bitmap = [], frame_count = 0, allocated = 0, usable = 0, next_hint = 1\<rparr>"
    by (simp add: frame_eval)
  show ?thesis
    using allocate_panics_iff_hint_outside [OF s] s
    by (simp add: free_set_def div_ceil_def FRAME_SIZE_def)
qed

end
