(* ===== verification/Page_Tables.thy ===== *)
theory Page_Tables
  imports Frame_Allocator
begin

unbundle bit_operations_syntax

text \<open>
  Page tables (\<open>cibos-kernel/src/paging.rs\<close>) and the three hardware entry encoders of the
  kernel image. Physical memory is a function from the address of a 64-bit slot to its value;
  \<open>phys_to_ptr\<close> is the caller's map from physical addresses to pointers and a parameter. A
  table is a frame of 512 slots, and a root with a path of indices names at most one table.

  The abstraction of a set of address spaces is \<open>lookup\<close>: for a root and the four indices of a
  virtual page, the entry that ends the hardware walk and its level. \<open>pt_wf\<close> says that tables
  are frames taken from the allocator and that no table is shared, neither between two roots
  nor between two paths of one root.
\<close>

section \<open>Constants, permissions and encoders\<close>

definition LEVELS :: nat where
  "LEVELS = 4"

definition INDEX_BITS :: nat where
  "INDEX_BITS = 9"

definition ENTRIES :: nat where
  "ENTRIES = 2 ^ INDEX_BITS"

record permissions =
  perm_read :: bool
  perm_write :: bool
  perm_execute :: bool
  perm_user :: bool
  perm_device :: bool

definition kernel_ro :: permissions where
  "kernel_ro = \<lparr>perm_read = True, perm_write = False, perm_execute = False, perm_user = False, perm_device = False\<rparr>"

definition kernel_rw :: permissions where
  "kernel_rw = \<lparr>perm_read = True, perm_write = True, perm_execute = False, perm_user = False, perm_device = False\<rparr>"

definition kernel_rx :: permissions where
  "kernel_rx = \<lparr>perm_read = True, perm_write = False, perm_execute = True, perm_user = False, perm_device = False\<rparr>"

definition user_rw :: permissions where
  "user_rw = \<lparr>perm_read = True, perm_write = True, perm_execute = False, perm_user = True, perm_device = False\<rparr>"

definition user_rx :: permissions where
  "user_rx = \<lparr>perm_read = True, perm_write = False, perm_execute = True, perm_user = True, perm_device = False\<rparr>"

definition device_rw :: permissions where
  "device_rw = \<lparr>perm_read = True, perm_write = True, perm_execute = False, perm_user = False, perm_device = True\<rparr>"

record encoder =
  encode_table :: "phys_frame \<Rightarrow> u64"
  encode_leaf :: "phys_frame \<Rightarrow> permissions \<Rightarrow> u64"
  encode_block_leaf :: "phys_frame \<Rightarrow> permissions \<Rightarrow> nat \<Rightarrow> u64"
  is_present :: "u64 \<Rightarrow> bool"
  is_block_leaf :: "u64 \<Rightarrow> nat \<Rightarrow> bool"
  entry_frame :: "u64 \<Rightarrow> phys_frame"

section \<open>Memory and the allocator\<close>

type_synonym memory = "u64 \<Rightarrow> u64"

type_synonym ptr_map = "u64 \<Rightarrow> u64"

record pt_state =
  mem :: memory
  fa :: alloc_state

type_synonym 'a pt_action = "(pt_state, kernel_error, 'a) action"

definition entry_ptr :: "ptr_map \<Rightarrow> phys_frame \<Rightarrow> nat \<Rightarrow> u64" where
  "entry_ptr p2p table index = p2p (frame_addr table) + 8 * of_nat index"

definition read_entry :: "ptr_map \<Rightarrow> memory \<Rightarrow> phys_frame \<Rightarrow> nat \<Rightarrow> u64" where
  "read_entry p2p m table index = m (entry_ptr p2p table index)"

definition write_entry :: "ptr_map \<Rightarrow> phys_frame \<Rightarrow> nat \<Rightarrow> u64 \<Rightarrow> unit pt_action" where
  "write_entry p2p table index v =
     (\<lambda>st. ret () (st\<lparr>mem := (mem st)(entry_ptr p2p table index := v)\<rparr>))"

text \<open>\<open>core::ptr::write_bytes(ptr, 0, FRAME_SIZE)\<close>: every slot in the 4096 bytes from \<open>ptr\<close>.\<close>

definition zero_frame :: "u64 \<Rightarrow> memory \<Rightarrow> memory" where
  "zero_frame p m = (\<lambda>a. if a - p < of_nat FRAME_SIZE then 0 else m a)"

definition allocate_zeroed :: "ptr_map \<Rightarrow> phys_frame pt_action" where
  "allocate_zeroed p2p st =
     (case allocate (fa st) of
        None \<Rightarrow> None
      | Some (Inl e, a) \<Rightarrow> Some (Inl e, st\<lparr>fa := a\<rparr>)
      | Some (Inr frame, a) \<Rightarrow>
          Some (Inr frame, \<lparr>mem = zero_frame (p2p (frame_addr frame)) (mem st), fa = a\<rparr>))"

section \<open>Address spaces\<close>

record address_space =
  root :: phys_frame

definition address_space_new :: "ptr_map \<Rightarrow> address_space pt_action" where
  "address_space_new p2p = bindE (allocate_zeroed p2p) (\<lambda>r. ret \<lparr>root = r\<rparr>)"

definition adopt :: "phys_frame \<Rightarrow> address_space" where
  "adopt r = \<lparr>root = r\<rparr>"

definition indices :: "u64 \<Rightarrow> nat list" where
  "indices virt =
     map (\<lambda>level. let shift = 12 + INDEX_BITS * (LEVELS - 1 - level) in
            unat (drop_bit shift virt AND (2 ^ INDEX_BITS - 1)))
       [0 ..< LEVELS]"

text \<open>
  The walk/allocate loop over the interior levels. \<open>check\<close> is whether the loop refuses to
  descend through a block entry: \<open>map\<close> does, \<open>map_block_2m\<close> has no such test.
\<close>

fun walk_alloc ::
    "encoder \<Rightarrow> ptr_map \<Rightarrow> bool \<Rightarrow> nat \<Rightarrow> nat list \<Rightarrow> phys_frame \<Rightarrow> phys_frame pt_action" where
  "walk_alloc E p2p check level [] table = ret table"
| "walk_alloc E p2p check level (index # is) table = (\<lambda>st.
     let entry = read_entry p2p (mem st) table index in
     if is_present E entry then
       if check \<and> is_block_leaf E entry level then
         throw (InvalidState ''address covered by an existing large-page block'') st
       else walk_alloc E p2p check (level + 1) is (entry_frame E entry) st
     else
       bindE (allocate_zeroed p2p) (\<lambda>child.
         bindE (write_entry p2p table index (encode_table E child)) (\<lambda>_.
           walk_alloc E p2p check (level + 1) is child)) st)"

definition map_page ::
    "encoder \<Rightarrow> ptr_map \<Rightarrow> address_space \<Rightarrow> u64 \<Rightarrow> phys_frame \<Rightarrow> permissions \<Rightarrow> unit pt_action" where
  "map_page E p2p space virt frame perms =
     (if virt mod of_nat FRAME_SIZE \<noteq> 0 then throw (InvalidState ''unaligned virtual address'')
      else
        let ix = indices virt in
        bindE (walk_alloc E p2p True 0 (take (LEVELS - 1) ix) (root space)) (\<lambda>table st.
          if is_present E (read_entry p2p (mem st) table (ix ! (LEVELS - 1))) then
            throw (InvalidState ''page already mapped'') st
          else write_entry p2p table (ix ! (LEVELS - 1)) (encode_leaf E frame perms) st))"

definition BLOCK_2M :: nat where
  "BLOCK_2M = FRAME_SIZE * ENTRIES"

definition map_block_2m ::
    "encoder \<Rightarrow> ptr_map \<Rightarrow> address_space \<Rightarrow> u64 \<Rightarrow> phys_frame \<Rightarrow> permissions \<Rightarrow> unit pt_action" where
  "map_block_2m E p2p space virt frame perms =
     (if virt mod of_nat BLOCK_2M \<noteq> 0 \<or> frame_addr frame mod of_nat BLOCK_2M \<noteq> 0 then
        throw (InvalidState ''unaligned 2 MiB block'')
      else
        let ix = indices virt in
        bindE (walk_alloc E p2p False 0 (take (LEVELS - 2) ix) (root space)) (\<lambda>table st.
          if is_present E (read_entry p2p (mem st) table (ix ! (LEVELS - 2))) then
            throw (InvalidState ''2 MiB slot already mapped'') st
          else write_entry p2p table (ix ! (LEVELS - 2))
                 (encode_block_leaf E frame perms (LEVELS - 2)) st))"

text \<open>
  The \<open>while i < count\<close> loop of \<open>map_range\<close>. \<open>count\<close> and \<open>i\<close> are page counts below
  \<open>2 ^ 64\<close>, natural numbers here; the addresses wrap as \<open>u64\<close> does.
\<close>

function map_range_from ::
    "encoder \<Rightarrow> ptr_map \<Rightarrow> address_space \<Rightarrow> u64 \<Rightarrow> u64 \<Rightarrow> nat \<Rightarrow> permissions \<Rightarrow> nat \<Rightarrow> unit pt_action" where
  "map_range_from E p2p space virt phys count perms i =
     (if i < count then
        let v = virt + of_nat i * of_nat FRAME_SIZE;
            p = phys + of_nat i * of_nat FRAME_SIZE;
            remaining = count - i
        in
        if v mod of_nat BLOCK_2M = 0 \<and> p mod of_nat BLOCK_2M = 0 \<and> ENTRIES \<le> remaining then
          bindE (map_block_2m E p2p space v (frame_containing p) perms) (\<lambda>_.
            map_range_from E p2p space virt phys count perms (i + ENTRIES))
        else
          bindE (map_page E p2p space v (frame_containing p) perms) (\<lambda>_.
            map_range_from E p2p space virt phys count perms (i + 1))
      else ret ())"
  by pat_completeness auto
termination
  by (relation "measure (\<lambda>(_, _, _, _, _, count, _, i). count - i)")
    (auto simp: ENTRIES_def INDEX_BITS_def)

declare map_range_from.simps [simp del]

definition map_range ::
    "encoder \<Rightarrow> ptr_map \<Rightarrow> address_space \<Rightarrow> u64 \<Rightarrow> u64 \<Rightarrow> nat \<Rightarrow> permissions \<Rightarrow> unit pt_action" where
  "map_range E p2p space virt phys count perms =
     map_range_from E p2p space virt phys count perms 0"

text \<open>The loop of \<open>translate\<close> over the interior levels, then the leaf.\<close>

fun translate_walk ::
    "encoder \<Rightarrow> ptr_map \<Rightarrow> memory \<Rightarrow> u64 \<Rightarrow> nat \<Rightarrow> nat list \<Rightarrow> phys_frame \<Rightarrow> u64 option" where
  "translate_walk E p2p m virt level [] table = None"
| "translate_walk E p2p m virt level [leaf_index] table =
     (let leaf = read_entry p2p m table leaf_index in
      if \<not> is_present E leaf then None
      else Some (frame_addr (entry_frame E leaf) OR (virt AND (of_nat FRAME_SIZE - 1))))"
| "translate_walk E p2p m virt level (index # is) table =
     (let entry = read_entry p2p m table index in
      if \<not> is_present E entry then None
      else if is_block_leaf E entry level then
        let shift = 12 + INDEX_BITS * (LEVELS - 1 - level);
            block_size = push_bit shift 1
        in Some (frame_addr (entry_frame E entry) OR (virt AND (block_size - 1)))
      else translate_walk E p2p m virt (level + 1) is (entry_frame E entry))"

definition translate :: "encoder \<Rightarrow> ptr_map \<Rightarrow> memory \<Rightarrow> address_space \<Rightarrow> u64 \<Rightarrow> u64 option" where
  "translate E p2p m space virt = translate_walk E p2p m virt 0 (indices virt) (root space)"
section \<open>Abstraction: walks and lookups\<close>

text \<open>One step of the hardware walk: where an interior entry leads.\<close>

definition descend :: "encoder \<Rightarrow> u64 \<Rightarrow> nat \<Rightarrow> phys_frame option" where
  "descend E e level = (if is_present E e \<and> \<not> is_block_leaf E e level then Some (entry_frame E e) else None)"

fun walk :: "encoder \<Rightarrow> ptr_map \<Rightarrow> memory \<Rightarrow> nat \<Rightarrow> nat list \<Rightarrow> phys_frame \<Rightarrow> phys_frame option" where
  "walk E p2p m level [] t = Some t"
| "walk E p2p m level (i # is) t =
     (case descend E (read_entry p2p m t i) level of
        None \<Rightarrow> None
      | Some u \<Rightarrow> walk E p2p m (level + 1) is u)"

text \<open>The entry that ends the walk for four indices, with its level.\<close>

fun lookup_from :: "encoder \<Rightarrow> ptr_map \<Rightarrow> memory \<Rightarrow> nat \<Rightarrow> nat list \<Rightarrow> phys_frame \<Rightarrow> (nat \<times> u64) option" where
  "lookup_from E p2p m level [] t = None"
| "lookup_from E p2p m level (i # is) t =
     (let e = read_entry p2p m t i in
      if \<not> is_present E e then None
      else if is = [] \<or> is_block_leaf E e level then Some (level, e)
      else lookup_from E p2p m (level + 1) is (entry_frame E e))"

definition lookup :: "encoder \<Rightarrow> ptr_map \<Rightarrow> memory \<Rightarrow> phys_frame \<Rightarrow> nat list \<Rightarrow> (nat \<times> u64) option" where
  "lookup E p2p m r ix = lookup_from E p2p m 0 ix r"

definition path_ok :: "nat \<Rightarrow> nat list \<Rightarrow> bool" where
  "path_ok n p \<longleftrightarrow> length p \<le> n \<and> (\<forall>i \<in> set p. i < ENTRIES)"

definition frame_ok :: "nat \<Rightarrow> phys_frame \<Rightarrow> bool" where
  "frame_ok lim f \<longleftrightarrow> f = frame_from_index (frame_index f) \<and> frame_index f < lim"

definition tables :: "encoder \<Rightarrow> ptr_map \<Rightarrow> phys_frame set \<Rightarrow> memory \<Rightarrow> phys_frame set" where
  "tables E p2p R m = {t. \<exists>r \<in> R. \<exists>p. path_ok 3 p \<and> walk E p2p m 0 p r = Some t}"

definition pt_wf :: "encoder \<Rightarrow> ptr_map \<Rightarrow> nat \<Rightarrow> phys_frame set \<Rightarrow> pt_state \<Rightarrow> bool" where
  "pt_wf E p2p lim R st \<longleftrightarrow>
     fa_inv (fa st) \<and> frame_count (fa st) \<le> lim \<and>
     (\<forall>t \<in> tables E p2p R (mem st). frame_ok lim t \<and> frame_index t \<notin> free_set (fa st)) \<and>
     (\<forall>r \<in> R. \<forall>r' \<in> R. \<forall>p p' t. path_ok 3 p \<longrightarrow> path_ok 3 p' \<longrightarrow>
        walk E p2p (mem st) 0 p r = Some t \<longrightarrow> walk E p2p (mem st) 0 p' r' = Some t \<longrightarrow> r = r' \<and> p = p') \<and>
     (\<forall>r \<in> R. \<forall>p t i. path_ok 1 p \<longrightarrow> i < ENTRIES \<longrightarrow> walk E p2p (mem st) 0 p r = Some t \<longrightarrow>
        is_present E (read_entry p2p (mem st) t i) \<longrightarrow>
        \<not> is_block_leaf E (read_entry p2p (mem st) t i) (length p))"

lemma walk_append:
  "walk E p2p m level (p @ q) t =
     (case walk E p2p m level p t of None \<Rightarrow> None | Some u \<Rightarrow> walk E p2p m (level + length p) q u)"
  by (induction p arbitrary: level t) (auto split: option.splits)

lemma walk_snoc:
  "walk E p2p m level (p @ [i]) t =
     (case walk E p2p m level p t of
        None \<Rightarrow> None
      | Some u \<Rightarrow> descend E (read_entry p2p m u i) (level + length p))"
  by (auto simp: walk_append split: option.splits)

lemma path_ok_append: "path_ok n (p @ q) \<Longrightarrow> path_ok n p"
  by (auto simp: path_ok_def)

lemma path_ok_take: "path_ok n p \<Longrightarrow> path_ok n (take k p)"
  by (auto simp: path_ok_def dest: in_set_takeD)

lemma path_ok_mono: "path_ok n p \<Longrightarrow> n \<le> m \<Longrightarrow> path_ok m p"
  by (auto simp: path_ok_def)

text \<open>Two memories in which every step of a path leads to the same place have the same walk.\<close>

lemma walk_cong:
  assumes "\<And>k t. k < length p \<Longrightarrow> walk E p2p m level (take k p) r = Some t \<Longrightarrow>
    descend E (read_entry p2p m' t (p ! k)) (level + k) = descend E (read_entry p2p m t (p ! k)) (level + k)"
  shows "walk E p2p m' level p r = walk E p2p m level p r"
  using assms
proof (induction p rule: rev_induct)
  case Nil
  then show ?case by simp
next
  case (snoc i p)
  have "walk E p2p m' level p r = walk E p2p m level p r"
  proof (rule snoc.IH)
    fix k t
    assume "k < length p" "walk E p2p m level (take k p) r = Some t"
    then show "descend E (read_entry p2p m' t (p ! k)) (level + k) =
        descend E (read_entry p2p m t (p ! k)) (level + k)"
      using snoc.prems [of k t] by (simp add: nth_append)
  qed
  then show ?case
    using snoc.prems [of "length p"] by (auto simp: walk_snoc split: option.splits)
qed

lemma ex_nat_split: "(\<exists>t k. Q t k) \<longleftrightarrow> (\<exists>t. Q t 0) \<or> (\<exists>t k. Q t (Suc k))"
  by (metis not0_implies_Suc)

lemma lookup_from_iff:
  "lookup_from E p2p m level ix r = Some (l, e) \<longleftrightarrow>
   (\<exists>t k. l = level + k \<and> k < length ix \<and> walk E p2p m level (take k ix) r = Some t \<and>
      e = read_entry p2p m t (ix ! k) \<and> is_present E e \<and>
      (k + 1 = length ix \<or> is_block_leaf E e l))"
proof (induction ix arbitrary: level r)
  case Nil
  then show ?case by simp
next
  case (Cons i ix)
  let ?e = "read_entry p2p m r i"
  let ?Q = "\<lambda>t k. l = level + k \<and> k < length (i # ix) \<and> walk E p2p m level (take k (i # ix)) r = Some t \<and>
      e = read_entry p2p m t ((i # ix) ! k) \<and> is_present E e \<and>
      (k + 1 = length (i # ix) \<or> is_block_leaf E e l)"
  have split: "(\<exists>t k. ?Q t k) \<longleftrightarrow> (\<exists>t. ?Q t 0) \<or> (\<exists>t k. ?Q t (Suc k))"
    by (rule ex_nat_split)
  consider (absent) "\<not> is_present E ?e" | (stop) "is_present E ?e" "ix = [] \<or> is_block_leaf E ?e level"
    | (go) "is_present E ?e" "ix \<noteq> []" "\<not> is_block_leaf E ?e level"
    by blast
  then show ?case
  proof cases
    case absent
    then show ?thesis
      unfolding split by (auto simp: descend_def)
  next
    case stop
    then show ?thesis
      unfolding split by (auto simp: descend_def)
  next
    case go
    then have eq: "lookup_from E p2p m level (i # ix) r = lookup_from E p2p m (level + 1) ix (entry_frame E ?e)"
      by (simp add: Let_def)
    show ?thesis
      unfolding split eq Cons.IH using go by (auto simp: descend_def)
  qed
qed
section \<open>The contract of an encoder\<close>

text \<open>
  What the portable code relies on in a \<open>PageTableEncoder\<close>, for frames below the architecture's
  physical address limit: a zero entry is absent, every encoded entry is present and gives back
  its frame, a table entry is never taken for a block and a block entry always is.
\<close>

locale page_table_encoder =
  fixes E :: encoder and lim :: nat
  assumes zero_absent: "\<not> is_present E 0"
    and table_entry: "f < lim \<Longrightarrow> descend E (encode_table E (frame_from_index f)) l = Some (frame_from_index f)"
    and leaf_entry: "f < lim \<Longrightarrow> is_present E (encode_leaf E (frame_from_index f) perms) \<and>
      entry_frame E (encode_leaf E (frame_from_index f) perms) = frame_from_index f"
    and block_entry: "f < lim \<Longrightarrow> is_present E (encode_block_leaf E (frame_from_index f) perms l) \<and>
      is_block_leaf E (encode_block_leaf E (frame_from_index f) perms l) l \<and>
      entry_frame E (encode_block_leaf E (frame_from_index f) perms l) = frame_from_index f"
    and lim_bound: "lim \<le> 2 ^ 52"

text \<open>
  Together with the caller's obligation on \<open>phys_to_ptr\<close>: the 4096 bytes of different frames do
  not overlap.
\<close>

locale paged_memory = page_table_encoder +
  fixes p2p :: ptr_map
  assumes frames_disjoint: "f < lim \<Longrightarrow> g < lim \<Longrightarrow> j < ENTRIES \<Longrightarrow>
    entry_ptr p2p (frame_from_index g) j - p2p (frame_addr (frame_from_index f)) < of_nat FRAME_SIZE \<longleftrightarrow> g = f"
begin

lemma unat_slot_offset: "j < ENTRIES \<Longrightarrow> unat (8 * of_nat j :: u64) = 8 * j"
  by (simp add: ENTRIES_def INDEX_BITS_def unat_word_ariths unsigned_of_nat take_bit_nat_eq_self)

lemma slot_inject:
  assumes t: "frame_ok lim t" and u: "frame_ok lim u" and i: "i < ENTRIES" and j: "j < ENTRIES"
  shows "entry_ptr p2p u j = entry_ptr p2p t i \<longleftrightarrow> u = t \<and> j = i"
proof
  assume eq: "entry_ptr p2p u j = entry_ptr p2p t i"
  have own: "entry_ptr p2p t i - p2p (frame_addr t) < of_nat FRAME_SIZE"
    using frames_disjoint [of "frame_index t" "frame_index t" i] t i by (simp add: frame_ok_def)
  then have "frame_index u = frame_index t"
    using frames_disjoint [of "frame_index t" "frame_index u" j] t u j eq by (simp add: frame_ok_def)
  then have "u = t"
    using t u by (metis frame_ok_def)
  with eq have "(8 * of_nat j :: u64) = 8 * of_nat i"
    by (simp add: entry_ptr_def)
  then show "u = t \<and> j = i"
    using unat_slot_offset [OF i] unat_slot_offset [OF j] \<open>u = t\<close> by simp
qed simp

lemma read_write:
  assumes "frame_ok lim t" "frame_ok lim u" "i < ENTRIES" "j < ENTRIES"
  shows "read_entry p2p (m(entry_ptr p2p t i := v)) u j =
    (if u = t \<and> j = i then v else read_entry p2p m u j)"
  using slot_inject [OF assms] by (auto simp: read_entry_def)

lemma read_zero:
  assumes "frame_ok lim f" "frame_ok lim u" "j < ENTRIES"
  shows "read_entry p2p (zero_frame (p2p (frame_addr f)) m) u j = (if u = f then 0 else read_entry p2p m u j)"
  using frames_disjoint [of "frame_index f" "frame_index u" j] assms
  by (auto simp: read_entry_def zero_frame_def frame_ok_def)

lemma descend_zero [simp]: "descend E 0 l = None"
  by (simp add: descend_def zero_absent)

lemma table_entry_ok: "frame_ok lim c \<Longrightarrow> descend E (encode_table E c) l = Some c"
  using table_entry [of "frame_index c"] by (simp add: frame_ok_def)

lemma table_entry_present:
  "frame_ok lim c \<Longrightarrow> is_present E (encode_table E c) \<and> \<not> is_block_leaf E (encode_table E c) l"
  using table_entry_ok [of c l] by (auto simp: descend_def split: if_splits)

lemma frame_ok_from_index: "f < lim \<Longrightarrow> frame_ok lim (frame_from_index f)"
  using lim_bound by (simp add: frame_ok_def frame_index_from_index)

text \<open>Consequences of well-formedness.\<close>

lemma wf_table:
  assumes "pt_wf E p2p lim R st" "r \<in> R" "path_ok 3 p" "walk E p2p (mem st) 0 p r = Some t"
  shows "frame_ok lim t" and "frame_index t \<notin> free_set (fa st)"
  using assms unfolding pt_wf_def tables_def by blast+

lemma wf_unique:
  assumes "pt_wf E p2p lim R st" "r \<in> R" "r' \<in> R" "path_ok 3 p" "path_ok 3 p'"
    "walk E p2p (mem st) 0 p r = Some t" "walk E p2p (mem st) 0 p' r' = Some t"
  shows "r = r' \<and> p = p'"
  using assms unfolding pt_wf_def by blast

lemma wf_no_block:
  assumes "pt_wf E p2p lim R st" "r \<in> R" "path_ok 1 p" "i < ENTRIES"
    "walk E p2p (mem st) 0 p r = Some t" "is_present E (read_entry p2p (mem st) t i)"
  shows "\<not> is_block_leaf E (read_entry p2p (mem st) t i) (length p)"
  using assms unfolding pt_wf_def by blast

text \<open>A write to a slot of one table is invisible at every other table and index.\<close>

lemma wf_read_other:
  assumes wf: "pt_wf E p2p lim R st" and r0: "r0 \<in> R" "path_ok 3 p0" "walk E p2p (mem st) 0 p0 r0 = Some t0"
    and r: "r \<in> R" "path_ok 3 p" "walk E p2p (mem st) 0 p r = Some t" and ij: "i0 < ENTRIES" "i < ENTRIES"
  shows "read_entry p2p ((mem st)(entry_ptr p2p t0 i0 := v)) t i =
    (if r = r0 \<and> p = p0 \<and> i = i0 then v else read_entry p2p (mem st) t i)"
proof -
  have "t = t0 \<longleftrightarrow> r = r0 \<and> p = p0"
    using wf_unique [OF wf r(1) r0(1) r(2) r0(2)] r(3) r0(3) by auto
  then show ?thesis
    using read_write [of t0 t i0 i] wf_table(1) [OF wf r0] wf_table(1) [OF wf r] ij by auto
qed
end
section \<open>Effects of the elementary steps\<close>

definition ix_ok :: "nat list \<Rightarrow> bool" where
  "ix_ok ix \<longleftrightarrow> length ix = LEVELS \<and> (\<forall>i \<in> set ix. i < ENTRIES)"

lemma ix_ok_nth: "ix_ok ix \<Longrightarrow> k < LEVELS \<Longrightarrow> ix ! k < ENTRIES"
  by (simp add: ix_ok_def)

lemma ix_ok_take: "ix_ok ix \<Longrightarrow> k < LEVELS \<Longrightarrow> path_ok 3 (take k ix)"
  by (auto simp: path_ok_def ix_ok_def LEVELS_def dest: in_set_takeD)

definition same_lookup :: "encoder \<Rightarrow> ptr_map \<Rightarrow> phys_frame set \<Rightarrow> memory \<Rightarrow> memory \<Rightarrow> bool" where
  "same_lookup E p2p R m m' \<longleftrightarrow> (\<forall>r \<in> R. \<forall>ix. ix_ok ix \<longrightarrow> lookup E p2p m' r ix = lookup E p2p m r ix)"

text \<open>
  How a mapping operation may change the state apart from the lookups: it stays well-formed,
  takes frames only from the free set, makes tables only of frames it took, keeps every
  existing table in place and leaves the contents of all other frames alone.
\<close>

definition pt_grow :: "encoder \<Rightarrow> ptr_map \<Rightarrow> nat \<Rightarrow> phys_frame set \<Rightarrow> pt_state \<Rightarrow> pt_state \<Rightarrow> bool" where
  "pt_grow E p2p lim R st st' \<longleftrightarrow>
     pt_wf E p2p lim R st' \<and> free_set (fa st') \<subseteq> free_set (fa st) \<and>
     frame_count (fa st') = frame_count (fa st) \<and>
     (\<forall>r \<in> R. \<forall>p t. path_ok 3 p \<longrightarrow> walk E p2p (mem st) 0 p r = Some t \<longrightarrow>
        walk E p2p (mem st') 0 p r = Some t) \<and>
     (\<forall>t \<in> tables E p2p R (mem st').
        t \<in> tables E p2p R (mem st) \<or> frame_index t \<in> free_set (fa st) - free_set (fa st')) \<and>
     (\<forall>u j. frame_ok lim u \<longrightarrow> j < ENTRIES \<longrightarrow> frame_index u \<notin> free_set (fa st) \<longrightarrow>
        u \<notin> tables E p2p R (mem st) \<longrightarrow> read_entry p2p (mem st') u j = read_entry p2p (mem st) u j)"

lemma pt_grow_refl: "pt_wf E p2p lim R st \<Longrightarrow> pt_grow E p2p lim R st st"
  by (simp add: pt_grow_def)

lemma pt_grow_wf: "pt_grow E p2p lim R st st' \<Longrightarrow> pt_wf E p2p lim R st'"
  by (simp add: pt_grow_def)

lemma pt_grow_trans:
  assumes a: "pt_grow E p2p lim R st1 st2" and b: "pt_grow E p2p lim R st2 st3"
  shows "pt_grow E p2p lim R st1 st3"
  unfolding pt_grow_def
proof (intro conjI)
  show "pt_wf E p2p lim R st3" "free_set (fa st3) \<subseteq> free_set (fa st1)" "frame_count (fa st3) = frame_count (fa st1)"
    using a b by (auto simp: pt_grow_def)
  show "\<forall>r\<in>R. \<forall>p t. path_ok 3 p \<longrightarrow> walk E p2p (mem st1) 0 p r = Some t \<longrightarrow> walk E p2p (mem st3) 0 p r = Some t"
    using a b by (simp add: pt_grow_def)
  show tabs: "\<forall>t\<in>tables E p2p R (mem st3). t \<in> tables E p2p R (mem st1) \<or>
      frame_index t \<in> free_set (fa st1) - free_set (fa st3)"
    using a b unfolding pt_grow_def by blast
  have "u \<notin> tables E p2p R (mem st2)" "frame_index u \<notin> free_set (fa st2)"
    if "frame_index u \<notin> free_set (fa st1)" "u \<notin> tables E p2p R (mem st1)" for u
    using a that unfolding pt_grow_def by blast+
  then show "\<forall>u j. frame_ok lim u \<longrightarrow> j < ENTRIES \<longrightarrow> frame_index u \<notin> free_set (fa st1) \<longrightarrow>
      u \<notin> tables E p2p R (mem st1) \<longrightarrow> read_entry p2p (mem st3) u j = read_entry p2p (mem st1) u j"
    using a b by (simp add: pt_grow_def)
qed

lemma same_lookup_refl: "same_lookup E p2p R m m"
  by (simp add: same_lookup_def)

lemma same_lookup_trans:
  "same_lookup E p2p R m1 m2 \<Longrightarrow> same_lookup E p2p R m2 m3 \<Longrightarrow> same_lookup E p2p R m1 m3"
  by (simp add: same_lookup_def)

lemma tables_eqI:
  assumes "\<And>r p. r \<in> R \<Longrightarrow> path_ok 3 p \<Longrightarrow> walk E p2p m' 0 p r = walk E p2p m 0 p r"
  shows "tables E p2p R m' = tables E p2p R m"
  using assms unfolding tables_def by (metis (mono_tags, lifting))

text \<open>Memories with the same walks and, at the tables of \<open>R\<close>, the same ends of walks.\<close>

lemma lookup_eqI:
  assumes ix: "ix_ok ix"
    and walk: "\<And>k. k < LEVELS \<Longrightarrow> walk E p2p m' 0 (take k ix) r = walk E p2p m 0 (take k ix) r"
    and ends: "\<And>k t. k < LEVELS \<Longrightarrow> walk E p2p m 0 (take k ix) r = Some t \<Longrightarrow>
      (let e = read_entry p2p m t (ix ! k); e' = read_entry p2p m' t (ix ! k) in
       e' = e \<or> \<not> (is_present E e \<and> (k + 1 = LEVELS \<or> is_block_leaf E e k)) \<and>
                \<not> (is_present E e' \<and> (k + 1 = LEVELS \<or> is_block_leaf E e' k)))"
  shows "lookup E p2p m' r ix = lookup E p2p m r ix"
proof -
  have "lookup E p2p m' r ix = Some (l, e) \<longleftrightarrow> lookup E p2p m r ix = Some (l, e)" for l e
  proof -
    have len: "length ix = LEVELS"
      using ix by (simp add: ix_ok_def)
    show ?thesis
    proof (cases "l < LEVELS")
      case True
      then show ?thesis
        using walk [OF True] ends [OF True]
        by (auto simp: lookup_def lookup_from_iff len Let_def)
    next
      case False
      then show ?thesis
        by (simp add: lookup_def lookup_from_iff len)
    qed
  qed
  then show ?thesis
    by (metis not_Some_eq surj_pair)
qed

lemma pt_wf_sameI:
  assumes wf: "pt_wf E p2p lim R st" and fa: "fa_inv (fa st')" "frame_count (fa st') = frame_count (fa st)"
    "free_set (fa st') \<subseteq> free_set (fa st)"
    and walks: "\<And>r p. r \<in> R \<Longrightarrow> path_ok 3 p \<Longrightarrow> walk E p2p (mem st') 0 p r = walk E p2p (mem st) 0 p r"
    and blocks: "\<And>r p t i. r \<in> R \<Longrightarrow> path_ok 1 p \<Longrightarrow> i < ENTRIES \<Longrightarrow> walk E p2p (mem st) 0 p r = Some t \<Longrightarrow>
      read_entry p2p (mem st') t i = read_entry p2p (mem st) t i \<or>
      \<not> is_block_leaf E (read_entry p2p (mem st') t i) (length p)"
  shows "pt_wf E p2p lim R st'"
proof -
  have tabs: "tables E p2p R (mem st') = tables E p2p R (mem st)"
    by (rule tables_eqI) (rule walks)
  have w1: "walk E p2p (mem st') 0 p r = walk E p2p (mem st) 0 p r" if "r \<in> R" "path_ok 1 p" for r p
    using that by (simp add: walks path_ok_mono [of 1 p 3])
  show ?thesis
    unfolding pt_wf_def tabs
  proof (intro conjI ballI allI impI)
    fix r p t i
    assume *: "r \<in> R" "path_ok 1 p" "i < ENTRIES" "walk E p2p (mem st') 0 p r = Some t"
      "is_present E (read_entry p2p (mem st') t i)"
    with w1 have "walk E p2p (mem st) 0 p r = Some t"
      by simp
    with * blocks [of r p i t] show "\<not> is_block_leaf E (read_entry p2p (mem st') t i) (length p)"
      using wf unfolding pt_wf_def by metis
  qed (use wf fa walks in \<open>auto simp: pt_wf_def\<close>)
qed

context paged_memory
begin

lemma allocate_zeroed_ok:
  assumes wf: "pt_wf E p2p lim R st" and run: "allocate_zeroed p2p st = Some (Inr c, st')"
  shows "frame_ok lim c" and "frame_index c \<in> free_set (fa st)"
    and "free_set (fa st') = free_set (fa st) - {frame_index c}"
    and "fa_inv (fa st')" and "frame_count (fa st') = frame_count (fa st)"
    and "\<And>u j. frame_ok lim u \<Longrightarrow> j < ENTRIES \<Longrightarrow>
      read_entry p2p (mem st') u j = (if u = c then 0 else read_entry p2p (mem st) u j)"
proof -
  from wf have inv: "fa_inv (fa st)" and le: "frame_count (fa st) \<le> lim"
    by (simp_all add: pt_wf_def)
  from run obtain a where a: "allocate (fa st) = Some (Inr c, a)"
    and st': "st' = \<lparr>mem = zero_frame (p2p (frame_addr c)) (mem st), fa = a\<rparr>"
    by (auto simp: allocate_zeroed_def split: option.splits prod.splits sum.splits)
  note step = fa.alloc_Inr [OF inv a]
  show c: "frame_ok lim c"
    using step fa.free_limit [OF inv, of "frame_index c"] le by (auto simp: frame_ok_def)
  show "frame_index c \<in> free_set (fa st)" "free_set (fa st') = free_set (fa st) - {frame_index c}"
    "fa_inv (fa st')" "frame_count (fa st') = frame_count (fa st)"
    using step st' by auto
  show "read_entry p2p (mem st') u j = (if u = c then 0 else read_entry p2p (mem st) u j)"
    if "frame_ok lim u" "j < ENTRIES" for u j
    using read_zero [OF c that] st' by simp
qed

lemma allocate_zeroed_err:
  assumes wf: "pt_wf E p2p lim R st"
  shows "allocate_zeroed p2p st \<noteq> None"
    and "allocate_zeroed p2p st = Some (Inl e, st') \<Longrightarrow> st' = st \<and> free_set (fa st) = {}"
proof -
  from wf have inv: "fa_inv (fa st)" by (simp add: pt_wf_def)
  show "allocate_zeroed p2p st \<noteq> None"
    using fa.alloc_total [OF inv] by (auto simp: allocate_zeroed_def split: sum.splits)
  show "allocate_zeroed p2p st = Some (Inl e, st') \<Longrightarrow> st' = st \<and> free_set (fa st) = {}"
    using fa.alloc_Inl [OF inv]
    by (auto simp: allocate_zeroed_def split: option.splits prod.splits sum.splits)
qed

text \<open>Zeroing a frame that was free disturbs no walk, so the state stays well-formed.\<close>

lemma allocate_zeroed_walk:
  assumes wf: "pt_wf E p2p lim R st" and run: "allocate_zeroed p2p st = Some (Inr c, st')"
    and r: "r \<in> R" and p: "path_ok 3 p"
  shows "walk E p2p (mem st') 0 p r = walk E p2p (mem st) 0 p r"
proof (rule walk_cong)
  fix k t
  assume k: "k < length p" and w: "walk E p2p (mem st) 0 (take k p) r = Some t"
  note t = wf_table [OF wf r path_ok_take [OF p] w]
  have "p ! k < ENTRIES"
    using p k by (simp add: path_ok_def)
  moreover have "t \<noteq> c"
    using t(2) allocate_zeroed_ok(2) [OF wf run] by auto
  ultimately show "descend E (read_entry p2p (mem st') t (p ! k)) (0 + k) =
      descend E (read_entry p2p (mem st) t (p ! k)) (0 + k)"
    using allocate_zeroed_ok(6) [OF wf run t(1)] by simp
qed

lemma allocate_zeroed_grow:
  assumes wf: "pt_wf E p2p lim R st" and run: "allocate_zeroed p2p st = Some (Inr c, st')"
  shows "pt_grow E p2p lim R st st'" and "same_lookup E p2p R (mem st) (mem st')"
    and "c \<notin> tables E p2p R (mem st')"
proof -
  note ok = allocate_zeroed_ok [OF wf run]
  note walks = allocate_zeroed_walk [OF wf run]
  have tabs: "tables E p2p R (mem st') = tables E p2p R (mem st)"
    by (rule tables_eqI) (rule walks)
  have read: "read_entry p2p (mem st') t i = read_entry p2p (mem st) t i"
    if "r \<in> R" "path_ok 3 p" "walk E p2p (mem st) 0 p r = Some t" "i < ENTRIES" for r p t i
    using ok(6) [OF wf_table(1) [OF wf that(1-3)] that(4)] wf_table(2) [OF wf that(1-3)] ok(2) by auto
  show "c \<notin> tables E p2p R (mem st')"
    using wf ok(2) unfolding tabs pt_wf_def by blast
  have "pt_wf E p2p lim R st'"
    using wf ok(4,5)
  proof (rule pt_wf_sameI)
    show "free_set (fa st') \<subseteq> free_set (fa st)"
      using ok(3) by blast
    show "walk E p2p (mem st') 0 p r = walk E p2p (mem st) 0 p r" if "r \<in> R" "path_ok 3 p" for r p
      using that by (rule walks)
    show "read_entry p2p (mem st') t i = read_entry p2p (mem st) t i \<or>
        \<not> is_block_leaf E (read_entry p2p (mem st') t i) (length p)"
      if "r \<in> R" "path_ok 1 p" "i < ENTRIES" "walk E p2p (mem st) 0 p r = Some t" for r p t i
      using read [of r p t i] that path_ok_mono [of 1 p 3] by simp
  qed
  then show "pt_grow E p2p lim R st st'"
    using ok unfolding pt_grow_def tabs by (auto simp: walks)
  show "same_lookup E p2p R (mem st) (mem st')"
    unfolding same_lookup_def
  proof (intro ballI allI impI)
    fix r ix
    assume r: "r \<in> R" and ix: "ix_ok ix"
    show "lookup E p2p (mem st') r ix = lookup E p2p (mem st) r ix"
      by (rule lookup_eqI [OF ix])
        (simp_all add: walks [OF r ix_ok_take [OF ix]] read [OF r ix_ok_take [OF ix]] ix_ok_nth [OF ix])
  qed
qed

end
text \<open>
  Storing an entry in an absent slot of a table. \<open>slot_write\<close> collects what the three uses
  share: the table \<open>t0\<close> is the one at path \<open>p0\<close> of root \<open>r0\<close> and its slot \<open>i0\<close> is absent.
\<close>

definition slot_write :: "encoder \<Rightarrow> ptr_map \<Rightarrow> nat \<Rightarrow> phys_frame set \<Rightarrow> pt_state \<Rightarrow>
    phys_frame \<Rightarrow> nat list \<Rightarrow> phys_frame \<Rightarrow> nat \<Rightarrow> bool" where
  "slot_write E p2p lim R st r0 p0 t0 i0 \<longleftrightarrow>
     pt_wf E p2p lim R st \<and> r0 \<in> R \<and> path_ok 3 p0 \<and> i0 < ENTRIES \<and>
     walk E p2p (mem st) 0 p0 r0 = Some t0 \<and> \<not> is_present E (read_entry p2p (mem st) t0 i0)"

definition store :: "ptr_map \<Rightarrow> pt_state \<Rightarrow> phys_frame \<Rightarrow> nat \<Rightarrow> u64 \<Rightarrow> pt_state" where
  "store p2p st t i v = st\<lparr>mem := (mem st)(entry_ptr p2p t i := v)\<rparr>"

lemma write_entry_store: "write_entry p2p t i v st = Some (Inr (), store p2p st t i v)"
  by (simp add: write_entry_def store_def ret_def)

lemma fa_store [simp]: "fa (store p2p st t i v) = fa st"
  by (simp add: store_def)

context paged_memory
begin

lemma store_read:
  assumes sw: "slot_write E p2p lim R st r0 p0 t0 i0"
    and r: "r \<in> R" "path_ok 3 p" "walk E p2p (mem st) 0 p r = Some t" "i < ENTRIES"
  shows "read_entry p2p (mem (store p2p st t0 i0 v)) t i =
    (if r = r0 \<and> p = p0 \<and> i = i0 then v else read_entry p2p (mem st) t i)"
  using wf_read_other [of R st r0 p0 t0 r p t i0 i v] assms
  by (simp add: slot_write_def store_def)

lemma store_data:
  assumes sw: "slot_write E p2p lim R st r0 p0 t0 i0"
    and u: "frame_ok lim u" "u \<notin> tables E p2p R (mem st)" "j < ENTRIES"
  shows "read_entry p2p (mem (store p2p st t0 i0 v)) u j = read_entry p2p (mem st) u j"
proof -
  have "frame_ok lim t0" "t0 \<in> tables E p2p R (mem st)"
    using sw wf_table [of R st r0 p0 t0] by (auto simp: slot_write_def tables_def)
  then show ?thesis
    using read_write [of t0 u i0 j] sw u by (auto simp: slot_write_def store_def)
qed

lemma store_no_descend_walk:
  assumes sw: "slot_write E p2p lim R st r0 p0 t0 i0"
    and v: "length p0 = 3 \<or> descend E v (length p0) = None"
    and r: "r \<in> R" and p: "path_ok 3 p"
  shows "walk E p2p (mem (store p2p st t0 i0 v)) 0 p r = walk E p2p (mem st) 0 p r"
proof (rule walk_cong)
  fix k t
  assume k: "k < length p" and w: "walk E p2p (mem st) 0 (take k p) r = Some t"
  have "p ! k < ENTRIES" "k < 3" "length (take k p) = k"
    using p k by (auto simp: path_ok_def)
  then show "descend E (read_entry p2p (mem (store p2p st t0 i0 v)) t (p ! k)) (0 + k) =
      descend E (read_entry p2p (mem st) t (p ! k)) (0 + k)"
    using store_read [OF sw r path_ok_take [OF p] w, of "p ! k" v] v sw w
    by (auto simp: slot_write_def descend_def)
qed

text \<open>Storing the end of a walk: a leaf in a last-level table, or a block one level above.\<close>

lemma store_end:
  assumes sw: "slot_write E p2p lim R st r0 p0 t0 i0"
    and v: "is_present E v" "length p0 = 3 \<or> length p0 = 2 \<and> is_block_leaf E v 2"
  defines "st' \<equiv> store p2p st t0 i0 v"
  shows "pt_grow E p2p lim R st st'"
    and "\<And>r ix. r \<in> R \<Longrightarrow> ix_ok ix \<Longrightarrow> lookup E p2p (mem st') r ix =
      (if r = r0 \<and> take (Suc (length p0)) ix = p0 @ [i0] then Some (length p0, v)
       else lookup E p2p (mem st) r ix)"
proof -
  have wf: "pt_wf E p2p lim R st" and r0: "r0 \<in> R" and p0: "path_ok 3 p0" and i0: "i0 < ENTRIES"
    and t0: "walk E p2p (mem st) 0 p0 r0 = Some t0"
    using sw by (simp_all add: slot_write_def)
  have walks: "walk E p2p (mem st') 0 p r = walk E p2p (mem st) 0 p r" if "r \<in> R" "path_ok 3 p" for r p
    unfolding st'_def using sw _ that by (rule store_no_descend_walk) (use v in \<open>auto simp: descend_def\<close>)
  have tabs: "tables E p2p R (mem st') = tables E p2p R (mem st)"
    by (rule tables_eqI) (rule walks)
  note read = store_read [OF sw, of _ _ _ _ v, folded st'_def]
  have "pt_wf E p2p lim R st'"
    using wf
  proof (rule pt_wf_sameI)
    show "read_entry p2p (mem st') t i = read_entry p2p (mem st) t i \<or>
        \<not> is_block_leaf E (read_entry p2p (mem st') t i) (length p)"
      if "r \<in> R" "path_ok 1 p" "i < ENTRIES" "walk E p2p (mem st) 0 p r = Some t" for r p t i
      using read [of r p t i] that path_ok_mono [of 1 p 3] v(2) by (auto simp: path_ok_def)
  qed (use wf walks in \<open>auto simp: st'_def pt_wf_def\<close>)
  moreover have "fa st' = fa st"
    by (simp add: st'_def)
  ultimately show "pt_grow E p2p lim R st st'"
    using store_data [OF sw, of _ _ v, folded st'_def] unfolding pt_grow_def tabs by (simp add: walks)
  fix r ix
  assume r: "r \<in> R" and ix: "ix_ok ix"
  have len: "length ix = LEVELS" using ix by (simp add: ix_ok_def)
  have l0: "length p0 < LEVELS" using p0 by (simp add: path_ok_def LEVELS_def)
  note w = walks [OF r ix_ok_take [OF ix]] and rd = read [OF r ix_ok_take [OF ix] _ ix_ok_nth [OF ix]]
  show "lookup E p2p (mem st') r ix =
      (if r = r0 \<and> take (Suc (length p0)) ix = p0 @ [i0] then Some (length p0, v)
       else lookup E p2p (mem st) r ix)"
  proof (cases "r = r0 \<and> take (Suc (length p0)) ix = p0 @ [i0]")
    case True
    then have "take (length p0) ix = p0" "ix ! length p0 = i0"
      using l0 len by (simp_all add: take_Suc_conv_app_nth)
    then have "lookup E p2p (mem st') r ix = Some (length p0, v)"
      using True v w [OF l0] rd [OF l0] t0 l0 len
      by (auto simp: lookup_def lookup_from_iff LEVELS_def)
    with True show ?thesis by simp
  next
    case False
    have "\<not> (r = r0 \<and> take k ix = p0 \<and> ix ! k = i0)" if "k < LEVELS" for k
      using False that len l0 by (auto simp: take_Suc_conv_app_nth min_def split: if_splits)
    then have "lookup E p2p (mem st') r ix = lookup E p2p (mem st) r ix"
      using w rd by (intro lookup_eqI [OF ix]) (auto simp: Let_def)
    then show ?thesis
      by (simp only: False if_False)
  qed
qed

text \<open>Storing a pointer to a fresh, empty table: the walks gain exactly one table.\<close>

lemma store_table_walk:
  assumes sw: "slot_write E p2p lim R st r0 p0 t0 i0" and p0: "path_ok 2 p0"
    and c: "frame_ok lim c" "c \<notin> tables E p2p R (mem st)"
      "\<And>j. j < ENTRIES \<Longrightarrow> read_entry p2p (mem st) c j = 0"
    and r: "r \<in> R" and p: "path_ok 3 p"
  shows "walk E p2p (mem (store p2p st t0 i0 (encode_table E c))) 0 p r =
    (if r = r0 \<and> p = p0 @ [i0] then Some c else walk E p2p (mem st) 0 p r)"
  using p
proof (induction p rule: rev_induct)
  case Nil
  then show ?case by simp
next
  case (snoc i p)
  let ?m = "mem (store p2p st t0 i0 (encode_table E c))"
  have po: "path_ok 3 p" and i: "i < ENTRIES"
    using snoc.prems by (auto simp: path_ok_def)
  note IH = snoc.IH [OF po]
  have absent: "walk E p2p (mem st) 0 (p0 @ [i0]) r0 = None"
    using sw by (simp add: walk_snoc slot_write_def descend_def)
  show ?case
  proof (cases "r = r0 \<and> p = p0 @ [i0]")
    case True
    have "read_entry p2p ?m c i = 0"
      using store_data [OF sw c(1,2) i] c(3) [OF i] by simp
    then have "walk E p2p ?m 0 (p @ [i]) r = None"
      using IH True unfolding walk_snoc [of _ _ _ _ p] by simp
    moreover have "walk E p2p (mem st) 0 (p @ [i]) r = None"
      using absent True unfolding walk_snoc [of _ _ _ _ p] by simp
    ultimately show ?thesis
      using True by simp
  next
    case False
    have same: "walk E p2p ?m 0 p r = walk E p2p (mem st) 0 p r"
      using IH by (simp only: False if_False)
    show ?thesis
    proof (cases "walk E p2p (mem st) 0 p r")
      case None
      have "\<not> (r = r0 \<and> p = p0)"
        using None sw by (auto simp: slot_write_def)
      with None same show ?thesis
        by (auto simp: walk_snoc)
    next
      case (Some t)
      have "read_entry p2p ?m t i = (if r = r0 \<and> p = p0 \<and> i = i0 then encode_table E c else read_entry p2p (mem st) t i)"
        by (rule store_read [OF sw r po Some i])
      with Some same show ?thesis
        by (auto simp: walk_snoc table_entry_ok [OF c(1)])
    qed
  qed
qed

lemma store_table:
  assumes sw: "slot_write E p2p lim R st r0 p0 t0 i0" and p0: "path_ok 2 p0"
    and c: "frame_ok lim c" "c \<notin> tables E p2p R (mem st)" "frame_index c \<notin> free_set (fa st)"
      "\<And>j. j < ENTRIES \<Longrightarrow> read_entry p2p (mem st) c j = 0"
  defines "st' \<equiv> store p2p st t0 i0 (encode_table E c)"
  shows "pt_wf E p2p lim R st'" and "same_lookup E p2p R (mem st) (mem st')"
    and "tables E p2p R (mem st') = insert c (tables E p2p R (mem st))"
    and "walk E p2p (mem st') 0 (p0 @ [i0]) r0 = Some c"
    and "\<And>r p t. r \<in> R \<Longrightarrow> path_ok 3 p \<Longrightarrow> walk E p2p (mem st) 0 p r = Some t \<Longrightarrow>
      walk E p2p (mem st') 0 p r = Some t"
proof -
  have wf: "pt_wf E p2p lim R st" and r0: "r0 \<in> R" and i0: "i0 < ENTRIES"
    and t0: "walk E p2p (mem st) 0 p0 r0 = Some t0"
    using sw by (simp_all add: slot_write_def)
  have p1: "path_ok 3 (p0 @ [i0])"
    using p0 i0 by (auto simp: path_ok_def)
  have walks: "walk E p2p (mem st') 0 p r =
      (if r = r0 \<and> p = p0 @ [i0] then Some c else walk E p2p (mem st) 0 p r)"
    if "r \<in> R" "path_ok 3 p" for r p
    unfolding st'_def using sw p0 c(1,2,4) that by (rule store_table_walk)
  have absent: "walk E p2p (mem st) 0 (p0 @ [i0]) r0 = None"
    using sw by (simp add: walk_snoc slot_write_def descend_def)
  show new: "walk E p2p (mem st') 0 (p0 @ [i0]) r0 = Some c"
    using walks [OF r0 p1] by simp
  show old: "walk E p2p (mem st') 0 p r = Some t"
    if "r \<in> R" "path_ok 3 p" "walk E p2p (mem st) 0 p r = Some t" for r p t
    using walks [OF that(1,2)] that(3) absent by auto
  show tabs: "tables E p2p R (mem st') = insert c (tables E p2p R (mem st))"
  proof (intro equalityI subsetI)
    show "t \<in> insert c (tables E p2p R (mem st))" if "t \<in> tables E p2p R (mem st')" for t
      using that unfolding tables_def by (auto simp: walks split: if_splits)
    show "t \<in> tables E p2p R (mem st')" if "t \<in> insert c (tables E p2p R (mem st))" for t
      using that new old r0 p1 unfolding tables_def by blast
  qed
  note read = store_read [OF sw, of _ _ _ _ "encode_table E c", folded st'_def]
  note cread = store_data [OF sw c(1,2), of _ "encode_table E c", folded st'_def]
  show "pt_wf E p2p lim R st'"
  proof -
    have unique: "r = r' \<and> p = p'" if "r \<in> R" "r' \<in> R" "path_ok 3 p" "path_ok 3 p'"
      "walk E p2p (mem st') 0 p r = Some t" "walk E p2p (mem st') 0 p' r' = Some t" for r r' p p' t
    proof -
      have "t \<noteq> c" if "walk E p2p (mem st) 0 q s = Some t" "s \<in> R" "path_ok 3 q" for q s
        using that c(2) unfolding tables_def by blast
      with that show ?thesis
        using wf_unique [OF wf that(1-4)] by (auto simp: walks split: if_splits)
    qed
    have noblock: "\<not> is_block_leaf E (read_entry p2p (mem st') t i) (length p)"
      if "r \<in> R" "path_ok 1 p" "i < ENTRIES" "walk E p2p (mem st') 0 p r = Some t"
        "is_present E (read_entry p2p (mem st') t i)" for r p t i
    proof (cases "t = c")
      case True
      then show ?thesis
        using cread [OF that(3)] c(4) [OF that(3)] that(5) zero_absent by simp
    next
      case False
      have p3: "path_ok 3 p" using that(2) by (rule path_ok_mono) simp
      then have w: "walk E p2p (mem st) 0 p r = Some t"
        using walks [OF that(1) p3] that(4) False by (auto split: if_splits)
      show ?thesis
        using read [OF that(1) p3 w that(3)] that(5) wf_no_block [OF wf that(1-3) w]
          table_entry_present [OF c(1)] by (auto split: if_splits)
    qed
    show ?thesis
      unfolding pt_wf_def tabs using wf c(1,3) unique noblock
      by (auto simp: pt_wf_def st'_def)
  qed
  show "same_lookup E p2p R (mem st) (mem st')"
    unfolding same_lookup_def
  proof (intro ballI allI impI)
    fix r ix assume r: "r \<in> R" and ix: "ix_ok ix"
    have "lookup E p2p (mem st') r ix = Some (l, e) \<longleftrightarrow> lookup E p2p (mem st) r ix = Some (l, e)" for l e
    proof (cases "l < LEVELS")
      case False
      then show ?thesis
        using ix by (simp add: lookup_def lookup_from_iff ix_ok_def)
    next
      case l: True
      note w = walks [OF r ix_ok_take [OF ix l]] and il = ix_ok_nth [OF ix l]
      have len: "length ix = LEVELS" "length (take l ix) = l"
        using ix l by (simp_all add: ix_ok_def)
      show ?thesis
      proof (cases "r = r0 \<and> take l ix = p0 @ [i0]")
        case True
        then show ?thesis
          using w absent cread [OF il] c(4) [OF il] zero_absent
          by (auto simp: lookup_def lookup_from_iff)
      next
        case False
        have same: "walk E p2p (mem st') 0 (take l ix) r = walk E p2p (mem st) 0 (take l ix) r"
          using w False by (simp only: if_False)
        have "read_entry p2p (mem st') t (ix ! l) = read_entry p2p (mem st) t (ix ! l) \<or>
            l < 3 \<and> \<not> is_present E (read_entry p2p (mem st) t (ix ! l)) \<and>
            \<not> is_block_leaf E (read_entry p2p (mem st') t (ix ! l)) l"
          if "walk E p2p (mem st) 0 (take l ix) r = Some t" for t
          using read [OF r ix_ok_take [OF ix l] that il] sw that len(2) p0
            table_entry_present [OF c(1)] by (auto simp: slot_write_def path_ok_def)
        then show ?thesis
          using same len l by (auto simp: lookup_def lookup_from_iff LEVELS_def)
      qed
    qed
    then show "lookup E p2p (mem st') r ix = lookup E p2p (mem st) r ix"
      by (metis not_Some_eq surj_pair)
  qed
qed

end
section \<open>Mapping\<close>

definition block_err :: kernel_error where
  "block_err = InvalidState ''address covered by an existing large-page block''"

definition frames_err :: kernel_error where
  "frames_err = LimitExceeded ''physical frames''"

lemma allocate_err: "fa_inv s \<Longrightarrow> allocate s = Some (Inl e, s') \<Longrightarrow> e = frames_err"
  by (cases rule: allocate_cases [of s]) (auto simp: frames_err_def)

context paged_memory
begin

lemma allocate_table_grow:
  assumes wf: "pt_wf E p2p lim R st" and r0: "r0 \<in> R" and p0: "path_ok 2 p0" and i0: "i0 < ENTRIES"
    and t0: "walk E p2p (mem st) 0 p0 r0 = Some t0"
    and absent: "\<not> is_present E (read_entry p2p (mem st) t0 i0)"
    and run: "allocate_zeroed p2p st = Some (Inr c, st1)"
  defines "st2 \<equiv> store p2p st1 t0 i0 (encode_table E c)"
  shows "pt_grow E p2p lim R st st2" and "same_lookup E p2p R (mem st) (mem st2)"
    and "walk E p2p (mem st2) 0 (p0 @ [i0]) r0 = Some c"
proof -
  note ok = allocate_zeroed_ok [OF wf run] and grow = allocate_zeroed_grow [OF wf run]
  have p3: "path_ok 3 p0" using p0 by (rule path_ok_mono) simp
  have t1: "walk E p2p (mem st1) 0 p0 r0 = Some t0"
    using allocate_zeroed_walk [OF wf run r0 p3] t0 by simp
  note tab = wf_table [OF wf r0 p3 t0]
  have "t0 \<noteq> c"
    using tab(2) ok(2) by auto
  then have sw: "slot_write E p2p lim R st1 r0 p0 t0 i0"
    using grow(1) r0 p3 i0 t1 absent ok(6) [OF tab(1) i0] by (simp add: slot_write_def pt_grow_def)
  have zero: "read_entry p2p (mem st1) c j = 0" if "j < ENTRIES" for j
    using ok(6) [OF ok(1) that] by simp
  have used: "frame_index c \<notin> free_set (fa st1)"
    using ok(3) by simp
  note tbl = store_table [OF sw p0 ok(1) grow(3) used zero, folded st2_def]
  show "walk E p2p (mem st2) 0 (p0 @ [i0]) r0 = Some c"
    by (rule tbl(4))
  show "same_lookup E p2p R (mem st) (mem st2)"
    using grow(2) tbl(2) by (rule same_lookup_trans)
  have data: "read_entry p2p (mem st2) u j = read_entry p2p (mem st) u j"
    if "frame_ok lim u" "j < ENTRIES" "frame_index u \<notin> free_set (fa st)" "u \<notin> tables E p2p R (mem st)" for u j
  proof -
    have "tables E p2p R (mem st1) = tables E p2p R (mem st)"
      by (rule tables_eqI) (rule allocate_zeroed_walk [OF wf run])
    then show ?thesis
      using store_data [OF sw that(1) _ that(2), of "encode_table E c"] that ok(2) ok(6) [OF that(1,2)]
      by (auto simp: st2_def)
  qed
  have tabs: "tables E p2p R (mem st1) = tables E p2p R (mem st)"
    by (rule tables_eqI) (rule allocate_zeroed_walk [OF wf run])
  have fa2: "fa st2 = fa st1"
    by (simp add: st2_def)
  show "pt_grow E p2p lim R st st2"
    unfolding pt_grow_def fa2
    using tbl(1,3,5) tabs ok(2,3,5) data allocate_zeroed_walk [OF wf run] by auto
qed

lemma walk_alloc_spec:
  assumes "pt_wf E p2p lim R st" "r0 \<in> R" "path_ok 3 (p0 @ is)"
    "walk E p2p (mem st) 0 p0 r0 = Some t0" "check \<or> length (p0 @ is) \<le> 2"
  shows "walk_alloc E p2p check (length p0) is t0 st \<noteq> None \<and>
    (\<forall>res st'. walk_alloc E p2p check (length p0) is t0 st = Some (res, st') \<longrightarrow>
       pt_grow E p2p lim R st st' \<and> same_lookup E p2p R (mem st) (mem st') \<and>
       (\<forall>t. res = Inr t \<longrightarrow> walk E p2p (mem st') 0 (p0 @ is) r0 = Some t) \<and>
       (\<forall>e. res = Inl e \<longrightarrow> e = frames_err \<and> free_set (fa st') = {} \<or>
          e = block_err \<and> (\<forall>ix. ix_ok ix \<and> take (length (p0 @ is)) ix = p0 @ is \<longrightarrow>
            lookup E p2p (mem st') r0 ix \<noteq> None)))"
  using assms
proof (induction "is" arbitrary: p0 t0 st)
  case Nil
  then show ?case
    by (auto simp: action_simps pt_grow_refl same_lookup_refl)
next
  case (Cons i "is")
  let ?e = "read_entry p2p (mem st) t0 i"
  note wf = Cons.prems(1) and r0 = Cons.prems(2) and t0 = Cons.prems(4)
  have i: "i < ENTRIES" and p2: "path_ok 2 p0" and p3: "path_ok 3 p0"
    using Cons.prems(3) by (auto simp: path_ok_def)
  have rest: "path_ok 3 ((p0 @ [i]) @ is)" "check \<or> length ((p0 @ [i]) @ is) \<le> 2"
    using Cons.prems(3,5) by simp_all
  consider (block) "is_present E ?e" "is_block_leaf E ?e (length p0)"
    | (descend) "is_present E ?e" "\<not> is_block_leaf E ?e (length p0)"
    | (absent) "\<not> is_present E ?e"
    by blast
  then show ?case
  proof cases
    case block
    then have check
      using wf_no_block [OF wf r0 _ i t0 block(1)] Cons.prems(5) p2 by (auto simp: path_ok_def)
    have "lookup E p2p (mem st) r0 ix \<noteq> None"
      if "ix_ok ix" "take (length (p0 @ i # is)) ix = p0 @ i # is" for ix
    proof -
      have "take (length p0) ix = p0"
        using that(2) by (metis append_eq_conv_conj take_take length_append min.absorb1 le_add1)
      moreover have "ix ! length p0 = i"
        using that(2) by (metis nth_append_length nth_take length_append_singleton le_add1 less_add_same_cancel1 length_append length_Cons zero_less_Suc)
      moreover have "length p0 < length ix"
        using that p2 by (simp add: ix_ok_def path_ok_def LEVELS_def)
      ultimately have "lookup E p2p (mem st) r0 ix = Some (length p0, ?e)"
        using t0 block by (auto simp: lookup_def lookup_from_iff)
      then show ?thesis by simp
    qed
    then show ?thesis
      using block \<open>check\<close> wf
      by (auto simp: action_simps Let_def pt_grow_refl same_lookup_refl block_err_def)
  next
    case descend
    then have "walk E p2p (mem st) 0 (p0 @ [i]) r0 = Some (entry_frame E ?e)"
      using t0 by (simp add: walk_snoc descend_def)
    from Cons.IH [OF wf r0 rest(1) this rest(2)] show ?thesis
      using descend by (simp add: Let_def)
  next
    case absent
    show ?thesis
    proof (cases "\<exists>c st1. allocate_zeroed p2p st = Some (Inr c, st1)")
      case False
      then obtain e where e: "allocate_zeroed p2p st = Some (Inl e, st)" "free_set (fa st) = {}"
        using allocate_zeroed_err [OF wf] by (metis not_Some_eq old.sum.exhaust surj_pair)
      have "e = frames_err"
        using e(1) allocate_err [of "fa st"] wf
        by (auto simp: allocate_zeroed_def pt_wf_def split: option.splits prod.splits sum.splits)
      with e absent wf show ?thesis
        by (auto simp: action_simps Let_def pt_grow_refl same_lookup_refl)
    next
      case True
      then obtain c st1 where run: "allocate_zeroed p2p st = Some (Inr c, st1)" by blast
      define st2 where "st2 = store p2p st1 t0 i (encode_table E c)"
      note tab = allocate_table_grow [OF wf r0 p2 i t0 absent run, folded st2_def]
      have eq: "walk_alloc E p2p check (length p0) (i # is) t0 st =
          walk_alloc E p2p check (length (p0 @ [i])) is c st2"
        using absent run by (simp add: Let_def bindE_simps write_entry_store st2_def)
      note IH = Cons.IH [OF pt_grow_wf [OF tab(1)] r0 rest(1) tab(3) rest(2)]
      show ?thesis
        unfolding eq using IH pt_grow_trans [OF tab(1)] same_lookup_trans [OF tab(2)] by auto
    qed
  qed
qed

end

section \<open>Virtual addresses\<close>

lemma index_eq_take_bit: "x AND (2 ^ INDEX_BITS - 1) = take_bit 9 x" for x :: u64
  by (simp add: INDEX_BITS_def take_bit_eq_mask mask_eq_exp_minus_1)

lemma indices_eq:
  "indices v = map (\<lambda>s. unat (take_bit 9 (drop_bit s v))) [39, 30, 21, 12]"
proof -
  have "[0 ..< LEVELS] = [0, 1, 2, 3]"
    by (simp add: LEVELS_def upt_rec)
  then show ?thesis
    unfolding indices_def Let_def index_eq_take_bit
    by (simp add: LEVELS_def INDEX_BITS_def)
qed

lemma unat_take_bit_9: "unat (take_bit 9 (w :: u64)) < ENTRIES"
proof -
  have "unat (take_bit 9 w) = take_bit 9 (unat w)"
    by (simp add: unsigned_take_bit_eq)
  then show ?thesis
    using take_bit_nat_less_exp [of 9 "unat w"] by (simp add: ENTRIES_def INDEX_BITS_def)
qed

lemma ix_ok_indices: "ix_ok (indices v)"
  by (auto simp: ix_ok_def indices_eq LEVELS_def unat_take_bit_9)

text \<open>An offset below an aligned address only fills in low bits.\<close>

lemma add_offset_or:
  fixes v x :: u64
  assumes "take_bit n v = 0" "unat x < 2 ^ n"
  shows "v + x = v OR x"
proof -
  have "x = take_bit n x"
    using assms(2) by (simp add: word_unat_eq_iff unsigned_take_bit_eq take_bit_nat_eq_self)
  then have "v AND x = v AND take_bit n x"
    by simp
  also have "\<dots> = 0"
  proof (rule bit_eqI)
    fix k
    have "bit v k \<Longrightarrow> k < n \<Longrightarrow> False"
      using assms(1) by (metis bit_take_bit_iff bit_0_eq bot_apply bot_bool_def)
    then show "bit (v AND take_bit n x) k \<longleftrightarrow> bit (0 :: u64) k"
      by (auto simp: bit_and_iff bit_take_bit_iff)
  qed
  finally show ?thesis
    by (rule disjunctive_add_eq_or)
qed

lemma drop_bit_offset:
  fixes v x :: u64
  assumes "take_bit n v = 0" "unat x < 2 ^ n" "n \<le> s"
  shows "drop_bit s (v + x) = drop_bit s v"
proof -
  have "unat x < 2 ^ s"
    using assms(2,3) by (meson less_le_trans one_le_numeral power_increasing)
  then have "drop_bit s x = 0"
    using take_bit_nat_eq_self [OF unat_u64_less [of x]]
    by (simp only: word_unat_eq_iff unsigned_drop_bit_eq) (simp add: drop_bit_eq_div)
  then show ?thesis
    using add_offset_or [OF assms(1,2)] by (simp add: drop_bit_or)
qed

lemma take_bit_eq_0_mod: "take_bit n v = 0 \<longleftrightarrow> v mod 2 ^ n = 0" for v :: u64
  by (simp add: take_bit_eq_mod)

lemma FRAME_SIZE_word: "(of_nat FRAME_SIZE :: u64) = 2 ^ 12"
  by (simp add: FRAME_SIZE_def)

lemma BLOCK_2M_word: "(of_nat BLOCK_2M :: u64) = 2 ^ 21"
  by (simp add: BLOCK_2M_def FRAME_SIZE_def ENTRIES_def INDEX_BITS_def)

lemma take_bit_page: "take_bit 12 (p + of_nat q * of_nat FRAME_SIZE) = take_bit 12 (p :: u64)"
proof -
  let ?x = "of_nat q * of_nat FRAME_SIZE :: u64"
  have "?x = push_bit 12 (of_nat q)"
    by (simp add: FRAME_SIZE_def push_bit_eq_mult)
  then have "take_bit 12 ?x = 0"
    by (simp only: take_bit_push_bit) simp
  then have "take_bit 12 (uint ?x) = 0"
    by (metis unsigned_0 unsigned_take_bit_eq)
  moreover have "take_bit 12 (uint (p + ?x)) = take_bit 12 (uint p + uint ?x)"
    by (simp only: uint_word_ariths(1)) (simp add: take_bit_eq_mod mod_mod_cancel)
  ultimately have "take_bit 12 (uint (p + ?x)) = take_bit 12 (uint p)"
    using take_bit_add [of 12 "uint p" "uint ?x"] by simp
  then show ?thesis
    by (metis unsigned_take_bit_eq unsigned_word_eqI)
qed

lemma indices_offset:
  "take_bit 12 v = 0 \<Longrightarrow> unat x < 2 ^ 12 \<Longrightarrow> indices (v + x) = indices v"
  by (simp add: indices_eq drop_bit_offset)

lemma indices_block_offset:
  "take_bit 21 v = 0 \<Longrightarrow> unat x < 2 ^ 21 \<Longrightarrow> take 3 (indices (v + x)) = take 3 (indices v)"
  by (simp add: indices_eq drop_bit_offset numeral_3_eq_3)

text \<open>The address a lookup translates to: the entry's frame with the bits below its level.\<close>

definition target :: "encoder \<Rightarrow> u64 \<Rightarrow> nat \<times> u64 \<Rightarrow> u64" where
  "target E virt = (\<lambda>(l, e). frame_addr (entry_frame E e) OR take_bit (12 + 9 * (3 - l)) virt)"

lemma and_mask_shift: "virt AND (push_bit n 1 - 1) = take_bit n (virt :: u64)"
  by (simp add: take_bit_eq_mask mask_eq_exp_minus_1)

lemma and_shift_mask: "virt AND (2 ^ n - 1) = take_bit n (virt :: u64)"
  by (simp add: take_bit_eq_mask mask_eq_exp_minus_1)

lemma and_page_mask: "virt AND (of_nat FRAME_SIZE - 1) = take_bit 12 (virt :: u64)"
  by (simp add: FRAME_SIZE_word take_bit_eq_mask mask_eq_exp_minus_1)

lemma translate_walk_lookup:
  "length ix + level = 4 \<Longrightarrow>
   translate_walk E p2p m virt level ix t = map_option (target E virt) (lookup_from E p2p m level ix t)"
proof (induction E p2p m virt level ix t rule: translate_walk.induct)
  case (1 E p2p m virt level table)
  then show ?case by simp
next
  case (2 E p2p m virt level leaf_index table)
  then have "level = 3" by simp
  then show ?case
    by (simp add: Let_def target_def and_page_mask)
next
  case (3 E p2p m virt level index v va table)
  then show ?case
    by (simp add: Let_def target_def and_shift_mask LEVELS_def INDEX_BITS_def)
qed

lemma translate_lookup:
  "translate E p2p m space virt = map_option (target E virt) (lookup E p2p m (root space) (indices virt))"
  using ix_ok_indices [of virt]
  by (simp add: translate_def lookup_def translate_walk_lookup ix_ok_def LEVELS_def)

section \<open>What mapping promises\<close>

text \<open>
  The contract of a single mapping call on root \<open>r0\<close>: it returns, keeps the tables
  well-formed, adds \<open>new\<close> for the index lists in \<open>dom\<close> when it succeeds, and changes no other
  lookup of any root, whether it succeeds or fails.
\<close>

definition maps_to :: "encoder \<Rightarrow> ptr_map \<Rightarrow> nat \<Rightarrow> phys_frame set \<Rightarrow> phys_frame \<Rightarrow>
    (nat list \<Rightarrow> bool) \<Rightarrow> nat \<times> u64 \<Rightarrow> pt_state \<Rightarrow> kernel_error + unit \<Rightarrow> pt_state \<Rightarrow> bool" where
  "maps_to E p2p lim R r0 D new st res st' \<longleftrightarrow>
     pt_grow E p2p lim R st st' \<and>
     (\<forall>r \<in> R. \<forall>ix. ix_ok ix \<longrightarrow> lookup E p2p (mem st') r ix =
        (if res = Inr () \<and> r = r0 \<and> D ix then Some new else lookup E p2p (mem st) r ix)) \<and>
     (res = Inr () \<longrightarrow> (\<forall>ix. ix_ok ix \<longrightarrow> D ix \<longrightarrow> lookup E p2p (mem st) r0 ix = None))"

lemma maps_to_err:
  "pt_grow E p2p lim R st st' \<Longrightarrow> same_lookup E p2p R (mem st) (mem st') \<Longrightarrow>
   maps_to E p2p lim R r0 D new st (Inl e) st'"
  by (simp add: maps_to_def same_lookup_def)

lemma maps_to_cong:
  assumes "\<And>ix. ix_ok ix \<Longrightarrow> D ix \<longleftrightarrow> D' ix"
  shows "maps_to E p2p lim R r0 D new st res st' \<longleftrightarrow> maps_to E p2p lim R r0 D' new st res st'"
  using assms unfolding maps_to_def by (auto simp: assms)

context paged_memory
begin

lemma absent_slot_lookup:
  assumes "walk E p2p m 0 p r = Some t" "\<not> is_present E (read_entry p2p m t i)"
    "ix_ok ix" "take (Suc (length p)) ix = p @ [i]"
  shows "lookup E p2p m r ix = None"
proof (rule ccontr)
  assume "lookup E p2p m r ix \<noteq> None"
  then obtain l e where le: "lookup E p2p m r ix = Some (l, e)" by auto
  then obtain u where l: "l < length ix" and u: "walk E p2p m 0 (take l ix) r = Some u"
    and e: "e = read_entry p2p m u (ix ! l)" "is_present E e" "l + 1 = length ix \<or> is_block_leaf E e l"
    by (auto simp: lookup_def lookup_from_iff)
  have k: "length p < length ix"
    using assms(3,4) by (metis Suc_le_lessD length_append_singleton length_take min.cobounded1 min.commute)
  then have pi: "take (length p) ix = p" "ix ! length p = i"
    using assms(4) by (simp_all add: take_Suc_conv_app_nth)
  consider "l < length p" | "l = length p" | "length p < l" by linarith
  then show False
  proof cases
    case 1
    then have "take (length p) ix = take (Suc l) ix @ drop (Suc l) (take (length p) ix)"
      by (metis Suc_leI append_take_drop_id min.absorb1 take_take)
    then have "walk E p2p m 0 (take (Suc l) ix) r \<noteq> None"
      using assms(1) pi(1) by (metis option.simps(4) walk_append option.distinct(1))
    then have "descend E e l \<noteq> None"
      using u e(1) l by (simp add: take_Suc_conv_app_nth walk_snoc min_def split: if_splits)
    then show False
      using e(3) 1 k by (auto simp: descend_def split: if_splits)
  next
    case 2
    then show False
      using u assms(1,2) e pi by simp
  next
    case 3
    then have "take l ix = take (Suc (length p)) ix @ drop (Suc (length p)) (take l ix)"
      by (metis Suc_leI append_take_drop_id min.absorb1 take_take)
    then have "walk E p2p m 0 (p @ [i]) r \<noteq> None"
      using u assms(4) by (metis option.simps(4) walk_append option.distinct(1))
    then show False
      using assms(1,2) by (simp add: walk_snoc descend_def)
  qed
qed

text \<open>
  The common shape of \<open>map\<close> and \<open>map_block_2m\<close>: walk to the table at depth \<open>k\<close>, refuse a
  present slot, store the entry.
\<close>

lemma place_spec:
  assumes wf: "pt_wf E p2p lim R st" and r0: "r0 \<in> R" and ix: "ix_ok ix"
    and k: "k = 3 \<and> check \<or> k = 2 \<and> is_block_leaf E v 2" and v: "is_present E v"
  obtains res st' where
    "bindE (walk_alloc E p2p check 0 (take k ix) r0) (\<lambda>table st.
       if is_present E (read_entry p2p (mem st) table (ix ! k)) then throw err st
       else write_entry p2p table (ix ! k) v st) st = Some (res, st')"
    "maps_to E p2p lim R r0 (\<lambda>jx. take (Suc k) jx = take (Suc k) ix) (k, v) st res st'"
    "\<And>e. res = Inl e \<Longrightarrow> k = 3 \<Longrightarrow>
       e = frames_err \<and> free_set (fa st') = {} \<or> lookup E p2p (mem st) r0 ix \<noteq> None"
proof -
  let ?A = "bindE (walk_alloc E p2p check 0 (take k ix) r0) (\<lambda>table st.
       if is_present E (read_entry p2p (mem st) table (ix ! k)) then throw err st
       else write_entry p2p table (ix ! k) v st) st"
  let ?p = "take k ix" and ?i = "ix ! k"
  have kl: "k < LEVELS" and len: "length ix = LEVELS"
    using k ix by (auto simp: LEVELS_def ix_ok_def)
  have p: "path_ok 3 ([] @ ?p)" "length ?p = k" and i: "?i < ENTRIES"
    using ix_ok_take [OF ix kl] ix_ok_nth [OF ix kl] len kl by auto
  have check: "check \<or> length ([] @ ?p) \<le> 2"
    using k p(2) by auto
  have start: "walk E p2p (mem st) 0 [] r0 = Some r0" by simp
  note W = walk_alloc_spec [OF wf r0 p(1) start check, simplified]
  then obtain res1 st1 where run: "walk_alloc E p2p check 0 ?p r0 st = Some (res1, st1)"
    by auto
  from W run have grow: "pt_grow E p2p lim R st st1" and same: "same_lookup E p2p R (mem st) (mem st1)"
    by auto
  then have look: "lookup E p2p (mem st1) r jx = lookup E p2p (mem st) r jx" if "r \<in> R" "ix_ok jx" for r jx
    using that by (simp add: same_lookup_def)
  show thesis
  proof (cases res1)
    case (Inl e)
    then have "e = frames_err \<and> free_set (fa st1) = {} \<or>
        (\<forall>jx. ix_ok jx \<and> take k jx = take k ix \<longrightarrow> lookup E p2p (mem st1) r0 jx \<noteq> None)"
      using W run len kl by (auto simp: min.absorb2 [OF less_imp_le])
    then have "e = frames_err \<and> free_set (fa st1) = {} \<or> lookup E p2p (mem st) r0 ix \<noteq> None"
      using ix look [OF r0 ix] by metis
    then show thesis
      using run Inl grow same by (intro that [of "Inl e" st1]) (auto simp: action_simps maps_to_err)
  next
    case (Inr t)
    then have t: "walk E p2p (mem st1) 0 ?p r0 = Some t"
      using W run by auto
    show thesis
    proof (cases "is_present E (read_entry p2p (mem st1) t ?i)")
      case True
      then have "k = 3 \<Longrightarrow> lookup E p2p (mem st1) r0 ix = Some (3, read_entry p2p (mem st1) t ?i)"
        using t len by (auto simp: lookup_def lookup_from_iff LEVELS_def)
      then show thesis
        using run Inr grow same True look [OF r0 ix]
        by (intro that [of "Inl err" st1]) (auto simp: action_simps maps_to_err)
    next
      case absent: False
      let ?st2 = "store p2p st1 t ?i v"
      have sw: "slot_write E p2p lim R st1 r0 ?p t ?i"
        using grow r0 p i t absent by (simp add: slot_write_def pt_grow_def)
      have pi: "?p @ [?i] = take (Suc k) ix"
        using kl len by (simp add: take_Suc_conv_app_nth)
      have kv: "length ?p = 3 \<or> length ?p = 2 \<and> is_block_leaf E v 2"
        using k p(2) by auto
      note fin = store_end [OF sw v kv, unfolded p(2) pi]
      have "maps_to E p2p lim R r0 (\<lambda>jx. take (Suc k) jx = take (Suc k) ix) (k, v) st (Inr ()) ?st2"
        using pt_grow_trans [OF grow fin(1)] fin(2) look absent_slot_lookup [OF t absent, unfolded p(2) pi] r0
        by (auto simp: maps_to_def)
      then show thesis
        using run Inr absent by (intro that [of "Inr ()" ?st2]) (auto simp: action_simps write_entry_store)
    qed
  qed
qed

lemma map_page_spec:
  assumes wf: "pt_wf E p2p lim R st" and r0: "root space \<in> R" and f: "frame_ok lim frame"
  obtains res st' where "map_page E p2p space virt frame perms st = Some (res, st')"
    "maps_to E p2p lim R (root space) (\<lambda>ix. ix = indices virt) (3, encode_leaf E frame perms) st res st'"
    "res = Inr () \<Longrightarrow> take_bit 12 virt = 0"
    "\<And>e. res = Inl e \<Longrightarrow> take_bit 12 virt = 0 \<Longrightarrow>
       e = frames_err \<and> free_set (fa st') = {} \<or> lookup E p2p (mem st) (root space) (indices virt) \<noteq> None"
proof (cases "take_bit 12 virt = 0")
  case False
  then have "map_page E p2p space virt frame perms st = Some (Inl (InvalidState ''unaligned virtual address''), st)"
    by (simp add: map_page_def action_simps FRAME_SIZE_word take_bit_eq_mod)
  then show thesis
    by (rule that) (use False wf in \<open>auto simp: maps_to_err pt_grow_refl same_lookup_refl\<close>)
next
  case True
  have leaf: "is_present E (encode_leaf E frame perms)"
    using leaf_entry [of "frame_index frame" perms] f by (simp add: frame_ok_def)
  have full: "ix_ok jx \<Longrightarrow> take (Suc 3) jx = take (Suc 3) (indices virt) \<longleftrightarrow> jx = indices virt" for jx
    using ix_ok_indices [of virt] by (simp add: ix_ok_def LEVELS_def)
  show thesis
  proof (rule place_spec [OF wf r0 ix_ok_indices [of virt], where k = 3 and check = True
      and v = "encode_leaf E frame perms" and err = "InvalidState ''page already mapped''"])
    fix res st'
    assume run: "bindE (walk_alloc E p2p True 0 (take 3 (indices virt)) (root space)) (\<lambda>table st.
        if is_present E (read_entry p2p (mem st) table (indices virt ! 3)) then throw (InvalidState ''page already mapped'') st
        else write_entry p2p table (indices virt ! 3) (encode_leaf E frame perms) st) st = Some (res, st')"
      and m: "maps_to E p2p lim R (root space) (\<lambda>jx. take (Suc 3) jx = take (Suc 3) (indices virt))
        (3, encode_leaf E frame perms) st res st'"
      and err: "\<And>e. res = Inl e \<Longrightarrow> 3 = (3 :: nat) \<Longrightarrow> e = frames_err \<and> free_set (fa st') = {} \<or>
        lookup E p2p (mem st) (root space) (indices virt) \<noteq> None"
    show thesis
    proof (rule that)
      show "map_page E p2p space virt frame perms st = Some (res, st')"
        using True run by (simp add: map_page_def FRAME_SIZE_word take_bit_eq_mod LEVELS_def Let_def cong: if_cong)
      show "maps_to E p2p lim R (root space) (\<lambda>ix. ix = indices virt) (3, encode_leaf E frame perms) st res st'"
        using m by (rule maps_to_cong [THEN iffD1, rotated]) (rule full)
    qed (use True err in auto)
  qed (use leaf in auto)
qed

lemma map_block_2m_spec:
  assumes wf: "pt_wf E p2p lim R st" and r0: "root space \<in> R" and f: "frame_ok lim frame"
  obtains res st' where "map_block_2m E p2p space virt frame perms st = Some (res, st')"
    "maps_to E p2p lim R (root space) (\<lambda>ix. take 3 ix = take 3 (indices virt))
       (2, encode_block_leaf E frame perms 2) st res st'"
    "res = Inr () \<Longrightarrow> take_bit 21 virt = 0 \<and> take_bit 21 (frame_addr frame) = 0"
proof (cases "take_bit 21 virt = 0 \<and> take_bit 21 (frame_addr frame) = 0")
  case False
  then have "map_block_2m E p2p space virt frame perms st = Some (Inl (InvalidState ''unaligned 2 MiB block''), st)"
    by (auto simp: map_block_2m_def action_simps BLOCK_2M_word take_bit_eq_mod)
  then show thesis
    by (rule that) (use wf in \<open>auto simp: maps_to_err pt_grow_refl same_lookup_refl\<close>)
next
  case True
  have block: "is_present E (encode_block_leaf E frame perms 2)" "is_block_leaf E (encode_block_leaf E frame perms 2) 2"
    using block_entry [of "frame_index frame" perms 2] f by (simp_all add: frame_ok_def)
  have three: "Suc 2 = 3" by simp
  show thesis
  proof (rule place_spec [OF wf r0 ix_ok_indices [of virt], where k = 2 and check = False
      and v = "encode_block_leaf E frame perms 2" and err = "InvalidState ''2 MiB slot already mapped''", unfolded three])
    fix res st'
    assume run: "bindE (walk_alloc E p2p False 0 (take 2 (indices virt)) (root space)) (\<lambda>table st.
        if is_present E (read_entry p2p (mem st) table (indices virt ! 2)) then throw (InvalidState ''2 MiB slot already mapped'') st
        else write_entry p2p table (indices virt ! 2) (encode_block_leaf E frame perms 2) st) st = Some (res, st')"
      and m: "maps_to E p2p lim R (root space) (\<lambda>jx. take 3 jx = take 3 (indices virt))
        (2, encode_block_leaf E frame perms 2) st res st'"
    show thesis
    proof (rule that)
      show "map_block_2m E p2p space virt frame perms st = Some (res, st')"
        using True run by (simp add: map_block_2m_def BLOCK_2M_word take_bit_eq_mod LEVELS_def Let_def cong: if_cong)
    qed (use True m in auto)
  qed (use block in auto)
qed

end

section \<open>Mapping a range\<close>

text \<open>Several mapping calls on one root: existing lookups stay, other roots are untouched.\<close>

definition extends :: "encoder \<Rightarrow> ptr_map \<Rightarrow> nat \<Rightarrow> phys_frame set \<Rightarrow> phys_frame \<Rightarrow> pt_state \<Rightarrow> pt_state \<Rightarrow> bool" where
  "extends E p2p lim R r0 st st' \<longleftrightarrow> pt_grow E p2p lim R st st' \<and>
     (\<forall>r \<in> R. \<forall>ix. ix_ok ix \<longrightarrow> r \<noteq> r0 \<or> lookup E p2p (mem st) r ix \<noteq> None \<longrightarrow>
        lookup E p2p (mem st') r ix = lookup E p2p (mem st) r ix)"

lemma extends_refl: "pt_wf E p2p lim R st \<Longrightarrow> extends E p2p lim R r0 st st"
  by (simp add: extends_def pt_grow_refl)

lemma extends_trans:
  assumes "extends E p2p lim R r0 st1 st2" "extends E p2p lim R r0 st2 st3"
  shows "extends E p2p lim R r0 st1 st3"
  using assms pt_grow_trans [of E p2p lim R st1 st2 st3] unfolding extends_def by (auto; metis)

lemma maps_to_extends: "maps_to E p2p lim R r0 D new st res st' \<Longrightarrow> extends E p2p lim R r0 st st'"
  by (auto simp: maps_to_def extends_def)

lemma extends_lookup:
  "extends E p2p lim R r0 st st' \<Longrightarrow> r \<in> R \<Longrightarrow> ix_ok ix \<Longrightarrow> lookup E p2p (mem st) r ix = Some x \<Longrightarrow>
   lookup E p2p (mem st') r ix = Some x"
  unfolding extends_def by (metis option.distinct(1))

text \<open>
  Page \<open>j\<close> of the range is mapped: every address inside it translates to the same offset of
  the \<open>j\<close>-th physical page.
\<close>

definition page_mapped :: "encoder \<Rightarrow> ptr_map \<Rightarrow> address_space \<Rightarrow> u64 \<Rightarrow> u64 \<Rightarrow> memory \<Rightarrow> nat \<Rightarrow> bool" where
  "page_mapped E p2p space virt phys m j \<longleftrightarrow> (\<forall>x. unat x < 2 ^ 12 \<longrightarrow>
     translate E p2p m space (virt + of_nat j * of_nat FRAME_SIZE + x) =
     Some (phys + of_nat j * of_nat FRAME_SIZE + x))"

lemma take_bit_offset:
  fixes v x :: u64
  assumes "take_bit n v = 0" "unat x < 2 ^ n"
  shows "take_bit n (v + x) = x"
proof -
  have "take_bit n x = x"
    using assms(2) by (simp add: word_unat_eq_iff unsigned_take_bit_eq take_bit_nat_eq_self)
  then show ?thesis
    using add_offset_or [OF assms] assms(1) by (simp add: take_bit_or)
qed

lemma frame_containing_aligned:
  assumes "take_bit 12 p = 0"
  shows "frame_containing p = PhysFrame p"
proof -
  have "p AND NOT (of_nat FRAME_SIZE - 1) = p AND NOT (mask 12)"
    by (simp add: FRAME_SIZE_def mask_eq_exp_minus_1)
  also have "\<dots> = p"
  proof (rule bit_eqI)
    fix k
    have "bit p k \<Longrightarrow> \<not> k < 12"
      using assms by (metis bit_take_bit_iff bit_0_eq bot_apply bot_bool_def)
    then show "bit (p AND NOT (mask 12)) k \<longleftrightarrow> bit p k"
      by (auto simp: bit_and_iff bit_not_iff bit_mask_iff dest: bit_imp_le_length)
  qed
  finally show ?thesis
    by (simp add: frame_containing_def)
qed

lemma frame_from_index_aligned:
  assumes "take_bit 12 p = 0"
  shows "frame_from_index (unat p div FRAME_SIZE) = PhysFrame p"
proof -
  have "take_bit 12 (unat p) = 0"
    using assms by (metis unsigned_0 unsigned_take_bit_eq)
  then have "unat p div 4096 * 4096 = unat p"
    by (simp add: take_bit_eq_mod) (metis add.right_neutral div_mult_mod_eq)
  then have "of_nat (unat p div 4096 * 4096) = (of_nat (unat p) :: u64)"
    by simp
  then have "of_nat (unat p div 4096) * 4096 = p"
    by simp
  then show ?thesis
    by (simp add: frame_from_index_def FRAME_SIZE_def)
qed

lemma frame_containing_offset:
  assumes "take_bit 12 p = 0" "unat x < 2 ^ 12"
  shows "frame_containing (p + x) = PhysFrame p"
proof -
  have x: "take_bit 12 x = x"
    using assms(2) by (simp add: word_unat_eq_iff unsigned_take_bit_eq take_bit_nat_eq_self)
  have "(p + x) AND NOT (of_nat FRAME_SIZE - 1) = (p OR x) AND NOT (mask 12)"
    using add_offset_or [OF assms] by (simp add: FRAME_SIZE_def mask_eq_exp_minus_1)
  also have "\<dots> = p"
  proof (rule bit_eqI)
    fix k
    have "bit p k \<Longrightarrow> \<not> k < 12"
      using assms(1) by (metis bit_take_bit_iff bit_0_eq bot_apply bot_bool_def)
    moreover have "bit x k \<Longrightarrow> k < 12"
      using x by (metis bit_take_bit_iff)
    ultimately show "bit ((p OR x) AND NOT (mask 12)) k \<longleftrightarrow> bit p k"
      by (auto simp: bit_and_iff bit_or_iff bit_not_iff bit_mask_iff dest: bit_imp_le_length)
  qed
  finally show ?thesis
    by (simp add: frame_containing_def)
qed

text \<open>The frames of a physical range of \<open>count\<close> pages.\<close>

definition range_frames :: "u64 \<Rightarrow> nat \<Rightarrow> phys_frame set" where
  "range_frames phys count = {frame_containing (phys + of_nat j * of_nat FRAME_SIZE) | j. j < count}"

text \<open>Every translation that is new in \<open>m'\<close> leads into the given physical range.\<close>

definition in_range :: "encoder \<Rightarrow> ptr_map \<Rightarrow> address_space \<Rightarrow> u64 \<Rightarrow> nat \<Rightarrow> memory \<Rightarrow> memory \<Rightarrow> bool" where
  "in_range E p2p space phys count m m' \<longleftrightarrow> (\<forall>v pa. translate E p2p m' space v = Some pa \<longrightarrow>
     translate E p2p m space v = Some pa \<or> frame_containing pa \<in> range_frames phys count)"

lemma in_range_refl: "in_range E p2p space phys count m m"
  by (simp add: in_range_def)

lemma in_range_trans:
  "in_range E p2p space phys count m1 m2 \<Longrightarrow> in_range E p2p space phys count m2 m3 \<Longrightarrow>
   in_range E p2p space phys count m1 m3"
  unfolding in_range_def by blast

context paged_memory
begin

lemma frame_ok_containing:
  assumes "take_bit 12 p = 0" "unat p div FRAME_SIZE < lim"
  shows "frame_ok lim (frame_containing p)"
  using frame_ok_from_index [OF assms(2)] frame_from_index_aligned [OF assms(1)]
    frame_containing_aligned [OF assms(1)] by simp

lemma leaf_target:
  assumes "take_bit 12 p = 0" "unat p div FRAME_SIZE < lim" "take_bit 12 v = 0" "unat x < 2 ^ 12"
  shows "target E (v + x) (3, encode_leaf E (frame_containing p) perms) = p + x"
  using leaf_entry [OF assms(2), of perms] frame_from_index_aligned [OF assms(1)]
    frame_containing_aligned [OF assms(1)] take_bit_offset [OF assms(3,4)] add_offset_or [OF assms(1,4)]
  by (simp add: target_def)

lemma block_target:
  assumes "take_bit 21 p = 0" "unat p div FRAME_SIZE < lim" "take_bit 21 v = 0" "unat x < 2 ^ 21"
  shows "target E (v + x) (2, encode_block_leaf E (frame_containing p) perms 2) = p + x"
proof -
  have p: "take_bit 12 p = 0"
    using assms(1) take_bit_take_bit [of 12 21 p] by simp
  show ?thesis
    using block_entry [OF assms(2), of perms 2] frame_from_index_aligned [OF p]
      frame_containing_aligned [OF p] take_bit_offset [OF assms(3,4)] add_offset_or [OF assms(1,4)]
    by (simp add: target_def)
qed

lemma page_mapped_extends:
  assumes "extends E p2p lim R r0 st st'" "root space \<in> R" "page_mapped E p2p space virt phys (mem st) j"
  shows "page_mapped E p2p space virt phys (mem st') j"
  using assms extends_lookup [OF assms(1,2) ix_ok_indices]
  unfolding page_mapped_def translate_lookup by fastforce

lemma page_step:
  assumes m: "maps_to E p2p lim R (root space) (\<lambda>ix. ix = indices v)
      (3, encode_leaf E (frame_containing p) perms) st (Inr ()) st'"
    and r0: "root space \<in> R" and v: "v = virt + of_nat i * of_nat FRAME_SIZE" "take_bit 12 v = 0"
    and p: "p = phys + of_nat i * of_nat FRAME_SIZE" "take_bit 12 p = 0" "unat p div FRAME_SIZE < lim"
  shows "page_mapped E p2p space virt phys (mem st') i"
  unfolding page_mapped_def v(1) [symmetric] p(1) [symmetric]
proof (intro allI impI)
  fix x :: u64
  assume x: "unat x < 2 ^ 12"
  then have "lookup E p2p (mem st') (root space) (indices (v + x)) =
      Some (3, encode_leaf E (frame_containing p) perms)"
    using m r0 indices_offset [OF v(2) x] ix_ok_indices by (simp add: maps_to_def)
  then show "translate E p2p (mem st') space (v + x) = Some (p + x)"
    using leaf_target [OF p(2,3) v(2) x] by (simp add: translate_lookup)
qed

lemma block_step:
  assumes m: "maps_to E p2p lim R (root space) (\<lambda>ix. take 3 ix = take 3 (indices v))
      (2, encode_block_leaf E (frame_containing p) perms 2) st (Inr ()) st'"
    and r0: "root space \<in> R" and v: "v = virt + of_nat i * of_nat FRAME_SIZE" "take_bit 21 v = 0"
    and p: "p = phys + of_nat i * of_nat FRAME_SIZE" "take_bit 21 p = 0" "unat p div FRAME_SIZE < lim"
    and j: "i \<le> j" "j < i + ENTRIES"
  shows "page_mapped E p2p space virt phys (mem st') j"
  unfolding page_mapped_def
proof (intro allI impI)
  fix x :: u64
  assume x: "unat x < 2 ^ 12"
  let ?y = "of_nat (j - i) * of_nat FRAME_SIZE + x"
  have "(j - i) * 4096 + unat x < 2 ^ 21"
    using j x by (simp add: ENTRIES_def INDEX_BITS_def)
  moreover from this have "unat ?y = (j - i) * 4096 + unat x"
    by (simp add: FRAME_SIZE_def unat_word_ariths unsigned_of_nat take_bit_nat_eq_self)
  ultimately have y: "unat ?y < 2 ^ 21"
    by simp
  have "(of_nat j :: u64) = of_nat i + of_nat (j - i)"
    using j(1) by (metis le_add_diff_inverse of_nat_add)
  then have eqs: "virt + of_nat j * of_nat FRAME_SIZE + x = v + ?y"
    "phys + of_nat j * of_nat FRAME_SIZE + x = p + ?y"
    using v(1) p(1) by (simp_all add: algebra_simps)
  have "lookup E p2p (mem st') (root space) (indices (v + ?y)) =
      Some (2, encode_block_leaf E (frame_containing p) perms 2)"
    using m r0 indices_block_offset [OF v(2) y] ix_ok_indices by (simp add: maps_to_def)
  then show "translate E p2p (mem st') space (virt + of_nat j * of_nat FRAME_SIZE + x) =
     Some (phys + of_nat j * of_nat FRAME_SIZE + x)"
    unfolding eqs using block_target [OF p(2,3) v(2) y] by (simp add: translate_lookup)
qed

lemma unat_take_bit_less: "n \<le> 64 \<Longrightarrow> unat (take_bit n (w :: u64)) < 2 ^ n"
  by (simp add: unsigned_take_bit_eq)

lemma page_target_frame:
  assumes "take_bit 12 p = 0" "unat p div FRAME_SIZE < lim"
  shows "frame_containing (target E v (3, encode_leaf E (frame_containing p) perms)) = frame_containing p"
proof -
  let ?x = "take_bit 12 v"
  have x: "unat ?x < 2 ^ 12"
    by (rule unat_take_bit_less) simp
  have "target E v (3, encode_leaf E (frame_containing p) perms) = p + ?x"
    using leaf_entry [OF assms(2), of perms] frame_from_index_aligned [OF assms(1)]
      frame_containing_aligned [OF assms(1)] add_offset_or [OF assms(1) x] by (simp add: target_def)
  then show ?thesis
    using frame_containing_offset [OF assms(1) x] frame_containing_aligned [OF assms(1)] by simp
qed

lemma block_target_frame:
  assumes "take_bit 21 p = 0" "unat p div FRAME_SIZE < lim"
  obtains q where "q < ENTRIES"
    "frame_containing (target E v (2, encode_block_leaf E (frame_containing p) perms 2)) =
       frame_containing (p + of_nat q * of_nat FRAME_SIZE)"
proof -
  let ?y = "take_bit 21 v"
  let ?q = "unat ?y div 4096" and ?x = "take_bit 12 ?y"
  have y: "unat ?y < 2 ^ 21" and x: "unat ?x < 2 ^ 12"
    by (rule unat_take_bit_less, simp)+
  have p: "take_bit 12 p = 0"
    using assms(1) take_bit_take_bit [of 12 21 p] by simp
  have t: "target E v (2, encode_block_leaf E (frame_containing p) perms 2) = p + ?y"
    using block_entry [OF assms(2), of perms 2] frame_from_index_aligned [OF p]
      frame_containing_aligned [OF p] add_offset_or [OF assms(1) y] by (simp add: target_def)
  have "unat ?x = take_bit 12 (unat ?y)"
    by (rule unsigned_take_bit_eq)
  then have "unat ?x = unat ?y mod 4096"
    by (simp only: take_bit_eq_mod) simp
  then have "?q * 4096 + unat ?x = unat ?y"
    by presburger
  then have "of_nat (?q * 4096 + unat ?x) = (of_nat (unat ?y) :: u64)"
    by (simp only:)
  then have split: "?y = of_nat ?q * of_nat FRAME_SIZE + ?x"
    by (simp add: FRAME_SIZE_def del: take_bit_take_bit)
  have al: "take_bit 12 (p + of_nat ?q * of_nat FRAME_SIZE) = 0"
    using p by (simp add: take_bit_page)
  show thesis
  proof (rule that)
    show "?q < ENTRIES"
      using y by (simp add: ENTRIES_def INDEX_BITS_def)
    show "frame_containing (target E v (2, encode_block_leaf E (frame_containing p) perms 2)) =
       frame_containing (p + of_nat ?q * of_nat FRAME_SIZE)"
    proof -
      have "p + ?y = p + (of_nat ?q * of_nat FRAME_SIZE + ?x)"
        by (rule arg_cong [OF split, where f = "(+) p"])
      also have "\<dots> = p + of_nat ?q * of_nat FRAME_SIZE + ?x"
        by (rule add.assoc [symmetric])
      finally have sum: "p + ?y = p + of_nat ?q * of_nat FRAME_SIZE + ?x" .
      show ?thesis
        unfolding t sum by (simp only: frame_containing_offset [OF al x] frame_containing_aligned [OF al])
    qed
  qed
qed

lemma phys_page:
  fixes phys :: u64
  assumes "take_bit 12 phys = 0" "unat phys div FRAME_SIZE + count \<le> lim" "i < count"
  defines "p \<equiv> phys + of_nat i * of_nat FRAME_SIZE"
  shows "take_bit 12 p = 0" and "unat p div FRAME_SIZE < lim"
proof -
  let ?q = "unat phys div FRAME_SIZE"
  have "take_bit 12 (unat phys) = 0"
    using assms(1) by (metis unsigned_0 unsigned_take_bit_eq)
  then have q: "unat phys = ?q * 4096"
    by (simp add: take_bit_eq_mod FRAME_SIZE_def) (metis add.right_neutral div_mult_mod_eq)
  have small: "?q + i < lim"
    using assms(2,3) by linarith
  then have "?q + i < 2 ^ 52"
    using lim_bound by linarith
  then have bound: "(?q + i) * 4096 < 2 ^ 64"
    by simp
  have "phys = of_nat (?q * 4096)"
    unfolding q [symmetric] by simp
  then have "p = of_nat ((?q + i) * 4096)"
    by (simp add: p_def FRAME_SIZE_def algebra_simps)
  then have p: "unat p = (?q + i) * 4096"
    using unat_of_nat_u64 [OF bound] by simp
  then have "take_bit 12 (unat p) = 0"
    by (simp add: take_bit_eq_mod)
  then show "take_bit 12 p = 0"
    by (metis unsigned_take_bit_eq unsigned_eq_0_iff)
  show "unat p div FRAME_SIZE < lim"
    using p small by (simp add: FRAME_SIZE_def)
qed

lemma maps_to_in_range:
  assumes "maps_to E p2p lim R (root space) D new st res st'" "root space \<in> R"
    "\<And>v. frame_containing (target E v new) \<in> range_frames phys count"
  shows "in_range E p2p space phys count (mem st) (mem st')"
  using assms ix_ok_indices unfolding in_range_def maps_to_def translate_lookup
  by (auto split: if_splits)

lemma map_range_step:
  assumes wf: "pt_wf E p2p lim R st" and r0: "root space \<in> R"
    and phys: "take_bit 12 phys = 0" "unat phys div FRAME_SIZE + count \<le> lim" and i: "i < count"
  obtains A n res st' where
    "map_range_from E p2p space virt phys count perms i st =
       bindE A (\<lambda>_. map_range_from E p2p space virt phys count perms n) st"
    "A st = Some (res, st')" "extends E p2p lim R (root space) st st'" "i < n"
    "\<And>j. res = Inr () \<Longrightarrow> i \<le> j \<Longrightarrow> j < n \<Longrightarrow> page_mapped E p2p space virt phys (mem st') j"
    "in_range E p2p space phys count (mem st) (mem st')"
proof -
  let ?v = "virt + of_nat i * of_nat FRAME_SIZE" and ?p = "phys + of_nat i * of_nat FRAME_SIZE"
  let ?blk = "?v mod of_nat BLOCK_2M = 0 \<and> ?p mod of_nat BLOCK_2M = 0 \<and> ENTRIES \<le> count - i"
  note pp = phys_page [OF phys i]
  note ok = frame_ok_containing [OF pp]
  show thesis
  proof (cases ?blk)
    case True
    then have al: "take_bit 21 ?v = 0" "take_bit 21 ?p = 0"
      by (simp_all add: BLOCK_2M_word take_bit_eq_mod)
    obtain res st' where *: "map_block_2m E p2p space ?v (frame_containing ?p) perms st = Some (res, st')"
      "maps_to E p2p lim R (root space) (\<lambda>ix. take 3 ix = take 3 (indices ?v))
         (2, encode_block_leaf E (frame_containing ?p) perms 2) st res st'"
      by (rule map_block_2m_spec [OF wf r0 ok])
    show thesis
    proof (rule that [where A = "map_block_2m E p2p space ?v (frame_containing ?p) perms",
          OF _ *(1) maps_to_extends [OF *(2)]])
      show "map_range_from E p2p space virt phys count perms i st =
          bindE (map_block_2m E p2p space ?v (frame_containing ?p) perms)
            (\<lambda>_. map_range_from E p2p space virt phys count perms (i + ENTRIES)) st"
        using i True by (subst map_range_from.simps) (simp add: Let_def)
      show "i < i + ENTRIES"
        by (simp add: ENTRIES_def)
      show "page_mapped E p2p space virt phys (mem st') j" if "res = Inr ()" "i \<le> j" "j < i + ENTRIES" for j
        using block_step [OF _ r0 refl al(1) refl al(2) pp(2) that(2,3)] *(2) that(1) by blast
      show "in_range E p2p space phys count (mem st) (mem st')"
        using *(2) r0
      proof (rule maps_to_in_range)
        fix v
        obtain q where "q < ENTRIES"
          "frame_containing (target E v (2, encode_block_leaf E (frame_containing ?p) perms 2)) =
             frame_containing (phys + of_nat (i + q) * of_nat FRAME_SIZE)"
          by (rule block_target_frame [OF al(2) pp(2), of v perms]) (auto simp: algebra_simps)
        moreover have "i + q < count"
          using \<open>q < ENTRIES\<close> True by linarith
        ultimately show "frame_containing (target E v (2, encode_block_leaf E (frame_containing ?p) perms 2))
            \<in> range_frames phys count"
          unfolding range_frames_def by blast
      qed
    qed
  next
    case False
    show thesis
    proof (rule map_page_spec [OF wf r0 ok, of ?v perms])
      fix res st'
      assume *: "map_page E p2p space ?v (frame_containing ?p) perms st = Some (res, st')"
        "maps_to E p2p lim R (root space) (\<lambda>ix. ix = indices ?v)
           (3, encode_leaf E (frame_containing ?p) perms) st res st'"
        "res = Inr () \<Longrightarrow> take_bit 12 ?v = 0"
      show thesis
      proof (rule that [where A = "map_page E p2p space ?v (frame_containing ?p) perms",
          OF _ *(1) maps_to_extends [OF *(2)]])
      show "map_range_from E p2p space virt phys count perms i st =
          bindE (map_page E p2p space ?v (frame_containing ?p) perms)
            (\<lambda>_. map_range_from E p2p space virt phys count perms (i + 1)) st"
        by (subst map_range_from.simps) (simp only: Let_def i False if_True if_False)
      show "page_mapped E p2p space virt phys (mem st') j" if "res = Inr ()" "i \<le> j" "j < i + 1" for j
      proof -
        have "j = i" using that by simp
        moreover have "page_mapped E p2p space virt phys (mem st') i"
          by (rule page_step [OF _ r0 refl *(3) refl pp]) (use *(2) that(1) in simp_all)
        ultimately show ?thesis by simp
      qed
      show "in_range E p2p space phys count (mem st) (mem st')"
        using *(2) r0
      proof (rule maps_to_in_range)
        show "frame_containing (target E v (3, encode_leaf E (frame_containing ?p) perms)) \<in> range_frames phys count" for v
          using page_target_frame [OF pp, of v perms] i unfolding range_frames_def by auto
      qed
      qed simp
    qed
  qed
qed

lemma map_range_from_spec:
  assumes "pt_wf E p2p lim R st" "root space \<in> R"
    and phys: "take_bit 12 phys = 0" "unat phys div FRAME_SIZE + count \<le> lim"
  shows "\<exists>res st'. map_range_from E p2p space virt phys count perms i st = Some (res, st') \<and>
    extends E p2p lim R (root space) st st' \<and> in_range E p2p space phys count (mem st) (mem st') \<and>
    (\<forall>j. res = Inr () \<longrightarrow> i \<le> j \<longrightarrow> j < count \<longrightarrow> page_mapped E p2p space virt phys (mem st') j)"
  using assms(1,2)
proof (induction "count - i" arbitrary: i st rule: less_induct)
  case less
  show ?case
  proof (cases "i < count")
    case False
    then show ?thesis
      using less.prems by (subst map_range_from.simps) (auto simp: action_simps extends_refl in_range_refl)
  next
    case i: True
    show ?thesis
    proof (rule map_range_step [OF less.prems phys i, of virt perms])
    fix A n res1 st1
    assume step: "map_range_from E p2p space virt phys count perms i st =
         bindE A (\<lambda>_. map_range_from E p2p space virt phys count perms n) st"
      and run: "A st = Some (res1, st1)" and ext: "extends E p2p lim R (root space) st st1" and n: "i < n"
      and mapped: "\<And>j. res1 = Inr () \<Longrightarrow> i \<le> j \<Longrightarrow> j < n \<Longrightarrow> page_mapped E p2p space virt phys (mem st1) j"
      and range: "in_range E p2p space phys count (mem st) (mem st1)"
    show ?thesis
    proof (cases res1)
      case (Inl e)
      then show ?thesis
        using run ext range by (auto simp: step bindE_def)
    next
      case (Inr u)
      have wf1: "pt_wf E p2p lim R st1"
        using ext by (simp add: extends_def pt_grow_def)
      have "count - n < count - i"
        using n i by simp
      from less.hyps [OF this wf1 less.prems(2)] obtain res st' where
        rest: "map_range_from E p2p space virt phys count perms n st1 = Some (res, st')"
          "extends E p2p lim R (root space) st1 st'"
          "\<And>j. res = Inr () \<Longrightarrow> n \<le> j \<Longrightarrow> j < count \<Longrightarrow> page_mapped E p2p space virt phys (mem st') j"
          "in_range E p2p space phys count (mem st1) (mem st')"
        by blast
      have "map_range_from E p2p space virt phys count perms i st = Some (res, st')"
        using step run rest(1) Inr by (simp add: bindE_def)
      moreover have "page_mapped E p2p space virt phys (mem st') j"
        if "res = Inr ()" "i \<le> j" "j < count" for j
        using rest(3) [of j] that mapped [of j] Inr page_mapped_extends [OF rest(2) less.prems(2)]
        by (cases "n \<le> j") auto
      ultimately show ?thesis
        using extends_trans [OF ext rest(2)] in_range_trans [OF range rest(4)] by blast
    qed
    qed
  qed
qed

end

end
