(* ===== verification/Page_Encoders.thy ===== *)
theory Page_Encoders
  imports Page_Tables
begin

unbundle bit_operations_syntax

text \<open>
  The three hardware entry encoders of the kernel image (\<open>kernel-image/src/arch/paging*.rs\<close>):
  x86-64 four-level paging, AArch64 VMSAv8-64 with a 4 KiB granule, and RISC-V Sv48. Each is
  shown to satisfy the encoder contract for every frame below its physical address limit, and
  with the identity map of the booted kernel each interprets \<open>paged_memory\<close>.
\<close>

section \<open>x86-64\<close>

definition X86_ADDR_MASK :: u64 where
  "X86_ADDR_MASK = 0x000FFFFFFFFFF000"

definition x86_flags :: "permissions \<Rightarrow> u64" where
  "x86_flags perms =
     (if perm_write perms then push_bit 1 1 else 0) OR
     (if perm_user perms then push_bit 2 1 else 0) OR
     (if \<not> perm_execute perms then push_bit 63 1 else 0) OR
     (if perm_device perms then push_bit 3 1 OR push_bit 4 1 else 0)"

definition x86_encoder :: encoder where
  "x86_encoder =
     \<lparr>encode_table = (\<lambda>child. (frame_addr child AND X86_ADDR_MASK) OR 1 OR push_bit 1 1 OR push_bit 2 1),
      encode_leaf = (\<lambda>frame perms. (frame_addr frame AND X86_ADDR_MASK) OR 1 OR x86_flags perms),
      encode_block_leaf = (\<lambda>frame perms _.
        (frame_addr frame AND X86_ADDR_MASK) OR 1 OR push_bit 7 1 OR x86_flags perms),
      is_present = (\<lambda>entry. entry AND 1 \<noteq> 0),
      is_block_leaf = (\<lambda>entry _. entry AND 1 \<noteq> 0 \<and> entry AND push_bit 7 1 \<noteq> 0),
      entry_frame = (\<lambda>entry. frame_containing (entry AND X86_ADDR_MASK))\<rparr>"

section \<open>AArch64\<close>

definition ARM_ADDR_MASK :: u64 where
  "ARM_ADDR_MASK = 0x0000FFFFFFFFF000"

definition arm_attrs :: "permissions \<Rightarrow> u64" where
  "arm_attrs perms =
     push_bit 10 1 OR
     (if perm_device perms then push_bit 2 1 else push_bit 8 3) OR
     (case (perm_write perms, perm_user perms) of
        (True, True) \<Rightarrow> push_bit 6 1
      | (True, False) \<Rightarrow> 0
      | (False, True) \<Rightarrow> push_bit 6 3
      | (False, False) \<Rightarrow> push_bit 6 2) OR
     (if \<not> perm_execute perms then push_bit 53 1 OR push_bit 54 1
      else if \<not> perm_user perms then push_bit 54 1 else 0)"

definition aarch64_encoder :: encoder where
  "aarch64_encoder =
     \<lparr>encode_table = (\<lambda>child. (frame_addr child AND ARM_ADDR_MASK) OR 1 OR push_bit 1 1),
      encode_leaf = (\<lambda>frame perms.
        (frame_addr frame AND ARM_ADDR_MASK) OR 1 OR push_bit 1 1 OR arm_attrs perms),
      encode_block_leaf = (\<lambda>frame perms _. (frame_addr frame AND ARM_ADDR_MASK) OR 1 OR arm_attrs perms),
      is_present = (\<lambda>entry. entry AND 1 \<noteq> 0),
      is_block_leaf = (\<lambda>entry _. entry AND 1 \<noteq> 0 \<and> entry AND push_bit 1 1 = 0),
      entry_frame = (\<lambda>entry. frame_containing (entry AND ARM_ADDR_MASK))\<rparr>"

section \<open>RISC-V Sv48\<close>

definition ppn_field :: "phys_frame \<Rightarrow> u64" where
  "ppn_field frame = push_bit 10 (drop_bit 12 (frame_addr frame))"

definition frame_from_pte :: "u64 \<Rightarrow> phys_frame" where
  "frame_from_pte entry =
     (let ppn = drop_bit 10 entry AND (push_bit 44 1 - 1) in frame_containing (push_bit 12 ppn))"

definition sv48_leaf :: "phys_frame \<Rightarrow> permissions \<Rightarrow> u64" where
  "sv48_leaf frame perms =
     ppn_field frame OR
     (1 OR push_bit 1 1 OR push_bit 6 1 OR push_bit 7 1 OR
      (if perm_write perms then push_bit 2 1 else 0) OR
      (if perm_execute perms then push_bit 3 1 else 0) OR
      (if perm_user perms then push_bit 4 1 else 0))"

definition sv48_encoder :: encoder where
  "sv48_encoder =
     \<lparr>encode_table = (\<lambda>child. ppn_field child OR 1),
      encode_leaf = sv48_leaf,
      encode_block_leaf = (\<lambda>frame perms _. sv48_leaf frame perms),
      is_present = (\<lambda>entry. entry AND 1 \<noteq> 0),
      is_block_leaf = (\<lambda>entry _. entry AND 1 \<noteq> 0 \<and> entry AND (push_bit 1 1 OR push_bit 2 1 OR push_bit 3 1) \<noteq> 0),
      entry_frame = frame_from_pte\<rparr>"

section \<open>Frame addresses\<close>

lemma frame_addr_bits:
  assumes "f < 2 ^ n" "n \<le> 52" "bit (frame_addr (frame_from_index f)) k"
  shows "12 \<le> k \<and> k < 12 + n"
proof -
  have "frame_addr (frame_from_index f) = push_bit 12 (of_nat f)"
    by (simp add: frame_from_index_def FRAME_SIZE_def push_bit_eq_mult)
  with assms(3) have "12 \<le> k" "bit (of_nat f :: u64) (k - 12)"
    by (simp_all only: bit_push_bit_iff)
  then have "bit f (k - 12)"
    by (simp add: bit_of_nat_iff)
  then have "2 ^ (k - 12) \<le> f"
    by (simp add: bit_iff_odd) (metis div_less even_zero not_le)
  then have "2 ^ (k - 12) < (2 :: nat) ^ n"
    using assms(1) by linarith
  then show ?thesis
    using \<open>12 \<le> k\<close> by simp
qed

lemma frame_aligned: "take_bit 12 (frame_addr (frame_from_index f)) = 0"
proof -
  have "frame_addr (frame_from_index f) = push_bit 12 (of_nat f)"
    by (simp add: frame_from_index_def FRAME_SIZE_def push_bit_eq_mult)
  then show ?thesis
    by (simp only: take_bit_push_bit) simp
qed

lemma containing_frame: "frame_containing (frame_addr (frame_from_index f)) = frame_from_index f"
  using frame_containing_aligned [OF frame_aligned] by simp

lemma addr_mask_id:
  assumes "f < 2 ^ n" "n \<le> 52"
  shows "frame_addr (frame_from_index f) AND (mask (12 + n) AND NOT (mask 12)) = frame_addr (frame_from_index f)"
proof (rule bit_eqI)
  fix k
  show "bit (frame_addr (frame_from_index f) AND (mask (12 + n) AND NOT (mask 12))) k \<longleftrightarrow>
      bit (frame_addr (frame_from_index f)) k"
    using frame_addr_bits [OF assms, of k] by (auto simp: bit_simps dest: bit_imp_le_length)
qed

section \<open>The identity map of the booted kernel\<close>

definition identity_map :: ptr_map where
  "identity_map a = a"

lemma identity_slots:
  assumes "f < 2 ^ 52" "g < 2 ^ 52" "j < ENTRIES"
  shows "entry_ptr identity_map (frame_from_index g) j - identity_map (frame_addr (frame_from_index f)) <
      of_nat FRAME_SIZE \<longleftrightarrow> g = f"
proof -
  let ?a = "of_nat (g * 4096 + 8 * j) :: u64" and ?b = "of_nat (f * 4096) :: u64"
  have j: "j < 512"
    using assms(3) by (simp add: ENTRIES_def INDEX_BITS_def)
  have a: "unat ?a = g * 4096 + 8 * j" and b: "unat ?b = f * 4096"
    using assms(1,2) j by (intro unat_of_nat_u64; simp)+
  have "unat (?a - ?b) < 4096 \<longleftrightarrow> g = f"
  proof (cases "f \<le> g")
    case True
    then have "?b \<le> ?a"
      using a b by (simp add: word_le_nat_alt)
    then have "unat (?a - ?b) = (g - f) * 4096 + 8 * j"
      using a b True by (simp add: unat_sub algebra_simps)
    then show ?thesis
      using True j by auto
  next
    case False
    have "\<not> unat (?a - ?b) < 4096"
    proof
      assume small: "unat (?a - ?b) < 4096"
      have "unat (?b + (?a - ?b)) = (unat ?b + unat (?a - ?b)) mod 2 ^ 64"
        by (simp only: unat_word_ariths(1)) simp
      also have "\<dots> = unat ?b + unat (?a - ?b)"
        using small b assms(1) by simp
      finally have "f * 4096 \<le> g * 4096 + 8 * j"
        using a b by simp
      with False j show False by linarith
    qed
    with False show ?thesis by simp
  qed
  then show ?thesis
    by (simp add: entry_ptr_def identity_map_def frame_from_index_def FRAME_SIZE_def word_less_nat_alt)
qed

section \<open>The contract holds\<close>

lemma x86_mask: "X86_ADDR_MASK = mask (12 + 40) AND NOT (mask 12)"
  by (simp add: X86_ADDR_MASK_def mask_eq_exp_minus_1)

lemma arm_mask: "ARM_ADDR_MASK = mask (12 + 36) AND NOT (mask 12)"
  by (simp add: ARM_ADDR_MASK_def mask_eq_exp_minus_1)

text \<open>An entry made of a masked frame address and flags outside the mask gives the address back.\<close>

lemma masked_entry:
  assumes "a AND M = a" "flags AND M = 0"
  shows "(a AND M OR flags) AND M = (a :: u64)"
  using assms by (simp add: bit.conj_disj_distrib2)

lemma masked_flag:
  assumes "M AND bits = 0"
  shows "(a AND M OR flags) AND bits = flags AND (bits :: u64)"
  using assms by (simp add: bit.conj_disj_distrib2 and.assoc)

lemma x86_flags_simps:
  "x86_flags perms AND X86_ADDR_MASK = 0" "x86_flags perms AND 1 = 0" "x86_flags perms AND 128 = 0"
  by (simp_all add: x86_flags_def X86_ADDR_MASK_def bit.conj_disj_distrib2)

lemma x86_mask_simps: "1 AND X86_ADDR_MASK = 0" "128 AND X86_ADDR_MASK = 0"
  by (simp_all add: X86_ADDR_MASK_def)

lemma x86_entry:
  assumes f: "f < 2 ^ 40" and flags: "flags AND X86_ADDR_MASK = 0"
  defines "e \<equiv> frame_addr (frame_from_index f) AND X86_ADDR_MASK OR flags"
  shows "entry_frame x86_encoder e = frame_from_index f"
    and "e AND 1 = flags AND 1" and "e AND 128 = flags AND 128"
proof -
  have "frame_addr (frame_from_index f) AND X86_ADDR_MASK = frame_addr (frame_from_index f)"
    using addr_mask_id [OF f] by (simp only: x86_mask)
  from masked_entry [OF this flags] show "entry_frame x86_encoder e = frame_from_index f"
    by (simp add: x86_encoder_def e_def containing_frame)
  show "e AND 1 = flags AND 1" "e AND 128 = flags AND 128"
    unfolding e_def by (rule masked_flag, simp add: X86_ADDR_MASK_def)+
qed

interpretation x86: page_table_encoder x86_encoder "2 ^ 40"
proof
  fix f l :: nat and perms :: permissions
  assume f: "f < 2 ^ 40"
  note table = x86_entry [OF f, of "1 OR push_bit 1 1 OR push_bit 2 1"]
  note leaf = x86_entry [OF f, of "1 OR x86_flags perms"]
  note block = x86_entry [OF f, of "1 OR push_bit 7 1 OR x86_flags perms"]
  show "descend x86_encoder (encode_table x86_encoder (frame_from_index f)) l = Some (frame_from_index f)"
    using table by (simp add: descend_def x86_encoder_def or.assoc X86_ADDR_MASK_def)
  show "is_present x86_encoder (encode_leaf x86_encoder (frame_from_index f) perms) \<and>
      entry_frame x86_encoder (encode_leaf x86_encoder (frame_from_index f) perms) = frame_from_index f"
    using leaf x86_mask_simps x86_flags_simps [of perms]
    by (simp add: x86_encoder_def or.assoc bit.conj_disj_distrib2)
  show "is_present x86_encoder (encode_block_leaf x86_encoder (frame_from_index f) perms l) \<and>
      is_block_leaf x86_encoder (encode_block_leaf x86_encoder (frame_from_index f) perms l) l \<and>
      entry_frame x86_encoder (encode_block_leaf x86_encoder (frame_from_index f) perms l) = frame_from_index f"
    using block x86_mask_simps x86_flags_simps [of perms]
    by (simp add: x86_encoder_def or.assoc bit.conj_disj_distrib2)
qed (simp_all add: x86_encoder_def)

lemma arm_attrs_simps:
  "arm_attrs perms AND ARM_ADDR_MASK = 0" "arm_attrs perms AND 1 = 0" "arm_attrs perms AND 2 = 0"
  by (simp_all add: arm_attrs_def ARM_ADDR_MASK_def bit.conj_disj_distrib2 split: bool.split)

lemma arm_mask_simps: "1 AND ARM_ADDR_MASK = 0" "2 AND ARM_ADDR_MASK = 0"
  by (simp_all add: ARM_ADDR_MASK_def)

lemma arm_entry:
  assumes f: "f < 2 ^ 36" and flags: "flags AND ARM_ADDR_MASK = 0"
  defines "e \<equiv> frame_addr (frame_from_index f) AND ARM_ADDR_MASK OR flags"
  shows "entry_frame aarch64_encoder e = frame_from_index f"
    and "e AND 1 = flags AND 1" and "e AND 2 = flags AND 2"
proof -
  have "frame_addr (frame_from_index f) AND ARM_ADDR_MASK = frame_addr (frame_from_index f)"
    using addr_mask_id [OF f] by (simp only: arm_mask)
  from masked_entry [OF this flags] show "entry_frame aarch64_encoder e = frame_from_index f"
    by (simp add: aarch64_encoder_def e_def containing_frame)
  show "e AND 1 = flags AND 1" "e AND 2 = flags AND 2"
    unfolding e_def by (rule masked_flag, simp add: ARM_ADDR_MASK_def)+
qed

interpretation aarch64: page_table_encoder aarch64_encoder "2 ^ 36"
proof
  fix f l :: nat and perms :: permissions
  assume f: "f < 2 ^ 36"
  note table = arm_entry [OF f, of "1 OR push_bit 1 1"]
  note leaf = arm_entry [OF f, of "1 OR push_bit 1 1 OR arm_attrs perms"]
  note block = arm_entry [OF f, of "1 OR arm_attrs perms"]
  show "descend aarch64_encoder (encode_table aarch64_encoder (frame_from_index f)) l = Some (frame_from_index f)"
    using table by (simp add: descend_def aarch64_encoder_def or.assoc ARM_ADDR_MASK_def)
  show "is_present aarch64_encoder (encode_leaf aarch64_encoder (frame_from_index f) perms) \<and>
      entry_frame aarch64_encoder (encode_leaf aarch64_encoder (frame_from_index f) perms) = frame_from_index f"
    using leaf arm_mask_simps arm_attrs_simps [of perms]
    by (simp add: aarch64_encoder_def or.assoc bit.conj_disj_distrib2)
  show "is_present aarch64_encoder (encode_block_leaf aarch64_encoder (frame_from_index f) perms l) \<and>
      is_block_leaf aarch64_encoder (encode_block_leaf aarch64_encoder (frame_from_index f) perms l) l \<and>
      entry_frame aarch64_encoder (encode_block_leaf aarch64_encoder (frame_from_index f) perms l) = frame_from_index f"
    using block arm_mask_simps arm_attrs_simps [of perms]
    by (simp add: aarch64_encoder_def or.assoc bit.conj_disj_distrib2)
qed (simp_all add: aarch64_encoder_def)

lemma push_10_flags:
  assumes "take_bit 10 bits = bits"
  shows "(push_bit 10 x OR flags) AND bits = flags AND (bits :: u64)"
proof -
  have "push_bit 10 x AND bits = 0"
    by (subst assms [symmetric]) (auto intro!: bit_eqI simp: bit_simps)
  then show ?thesis
    by (simp add: bit.conj_disj_distrib2)
qed

lemma sv48_entry:
  assumes f: "f < 2 ^ 44" and flags: "drop_bit 10 flags = 0"
  defines "e \<equiv> ppn_field (frame_from_index f) OR flags"
  shows "entry_frame sv48_encoder e = frame_from_index f"
    and "e AND 1 = flags AND 1" and "e AND 14 = flags AND 14"
proof -
  have "bit (push_bit 12 (drop_bit 10 e AND (push_bit 44 1 - 1))) k \<longleftrightarrow> bit (frame_addr (frame_from_index f)) k" for k
  proof -
    have "drop_bit 10 e = drop_bit 10 (ppn_field (frame_from_index f))"
      using flags by (simp add: e_def)
    then show ?thesis
      unfolding and_mask_shift using frame_addr_bits [OF f, of k]
      by (auto simp: ppn_field_def bit_simps dest: bit_imp_le_length)
  qed
  then have "push_bit 12 (drop_bit 10 e AND (push_bit 44 1 - 1)) = frame_addr (frame_from_index f)"
    by (rule bit_eqI)
  then show "entry_frame sv48_encoder e = frame_from_index f"
    by (simp add: sv48_encoder_def frame_from_pte_def Let_def containing_frame)
  show "e AND 1 = flags AND 1" "e AND 14 = flags AND 14"
    unfolding e_def ppn_field_def by (rule push_10_flags, simp)+
qed

interpretation sv48: page_table_encoder sv48_encoder "2 ^ 44"
proof
  fix f l :: nat and perms :: permissions
  assume f: "f < 2 ^ 44"
  note table = sv48_entry [OF f, of 1]
  let ?fl = "1 OR push_bit 1 1 OR push_bit 6 1 OR push_bit 7 1 OR
      (if perm_write perms then push_bit 2 1 else 0) OR
      (if perm_execute perms then push_bit 3 1 else 0) OR
      (if perm_user perms then push_bit 4 1 else 0) :: u64"
  have "drop_bit 10 ?fl = 0" "?fl AND 1 = 1" "?fl AND 14 \<noteq> 0"
    by (simp_all split: if_split)
  note leaf = sv48_entry [OF f this(1)] this(2,3)
  show "descend sv48_encoder (encode_table sv48_encoder (frame_from_index f)) l = Some (frame_from_index f)"
    using table by (simp add: descend_def sv48_encoder_def)
  show "is_present sv48_encoder (encode_leaf sv48_encoder (frame_from_index f) perms) \<and>
      entry_frame sv48_encoder (encode_leaf sv48_encoder (frame_from_index f) perms) = frame_from_index f"
    using leaf by (simp add: sv48_encoder_def sv48_leaf_def)
  show "is_present sv48_encoder (encode_block_leaf sv48_encoder (frame_from_index f) perms l) \<and>
      is_block_leaf sv48_encoder (encode_block_leaf sv48_encoder (frame_from_index f) perms l) l \<and>
      entry_frame sv48_encoder (encode_block_leaf sv48_encoder (frame_from_index f) perms l) = frame_from_index f"
    using leaf by (simp add: sv48_encoder_def sv48_leaf_def)
qed (simp_all add: sv48_encoder_def)

text \<open>With the identity map each encoder gives a paged memory.\<close>

interpretation x86_mem: paged_memory x86_encoder "2 ^ 40" identity_map
  by unfold_locales (rule identity_slots; simp)

interpretation aarch64_mem: paged_memory aarch64_encoder "2 ^ 36" identity_map
  by unfold_locales (rule identity_slots; simp)

interpretation sv48_mem: paged_memory sv48_encoder "2 ^ 44" identity_map
  by unfold_locales (rule identity_slots; simp)

end
