(* ===== verification/Address_Space.thy ===== *)
theory Address_Space
  imports Page_Encoders
begin

unbundle bit_operations_syntax

text \<open>
  The address space manager (\<open>cibos-kernel/src/address_space.rs\<close>): one address space per
  isolation boundary, and the data frames mapped into it. The state couples the map of spaces
  with the memory and the frame allocator, because every operation runs under the manager's
  lock and changes all three.

  \<open>am_inv\<close> is the isolation invariant: no table is shared, no data frame is a table or belongs
  to two boundaries, and every address a boundary can translate lies in one of its own data
  frames or in the frames \<open>X\<close> that the kernel mapped explicitly from outside the allocator.
  \<open>am_reach\<close> adds the boundaries' own stores through their mappings as steps of the
  environment.
\<close>

section \<open>State and operations\<close>

record boundary_space =
  bs_space :: address_space
  mapped_frames :: "phys_frame list"

record am_state =
  am_pt :: pt_state
  spaces :: "(boundary_id, boundary_space) btreemap"

type_synonym 'a am_action = "(am_state, kernel_error, 'a) action"

definition on_pt :: "'a pt_action \<Rightarrow> 'a am_action" where
  "on_pt m st = map_option (\<lambda>(r, pt). (r, st\<lparr>am_pt := pt\<rparr>)) (m (am_pt st))"

definition manager_new :: "pt_state \<Rightarrow> am_state" where
  "manager_new pt = \<lparr>am_pt = pt, spaces = []\<rparr>"

definition has_space :: "am_state \<Rightarrow> boundary_id \<Rightarrow> bool" where
  "has_space st b = bt_contains (spaces st) b"

definition space_count :: "am_state \<Rightarrow> nat" where
  "space_count st = length (spaces st)"

definition insert_space :: "boundary_id \<Rightarrow> boundary_space \<Rightarrow> am_state \<Rightarrow> am_state" where
  "insert_space b s st = st\<lparr>spaces := bt_insert b s (spaces st)\<rparr>"

definition create_space :: "ptr_map \<Rightarrow> boundary_id \<Rightarrow> unit am_action" where
  "create_space p2p b st =
     (if bt_contains (spaces st) b then
        throw (InvalidState ''boundary already has an address space'') st
      else
        bindE (on_pt (address_space_new p2p)) (\<lambda>space st.
          ret () (insert_space b \<lparr>bs_space = space, mapped_frames = []\<rparr> st)) st)"

definition root_of :: "am_state \<Rightarrow> boundary_id \<Rightarrow> phys_frame option" where
  "root_of st b = map_option (\<lambda>s. root (bs_space s)) (bt_get (spaces st) b)"

text \<open>\<open>b.mapped_frames.push(frame)\<close> on the entry the loop holds by mutable reference.\<close>

definition push_frame :: "boundary_id \<Rightarrow> phys_frame \<Rightarrow> unit am_action" where
  "push_frame b frame st =
     (case bt_get (spaces st) b of
        None \<Rightarrow> throw UnknownContainer st
      | Some s \<Rightarrow> ret () (insert_space b (s\<lparr>mapped_frames := mapped_frames s @ [frame]\<rparr>) st))"

fun map_new_loop ::
    "encoder \<Rightarrow> ptr_map \<Rightarrow> boundary_id \<Rightarrow> address_space \<Rightarrow> u64 \<Rightarrow> permissions \<Rightarrow> nat list \<Rightarrow> unit am_action" where
  "map_new_loop E p2p b space virt perms [] = ret ()"
| "map_new_loop E p2p b space virt perms (i # is) =
     bindE (on_pt (allocate_zeroed p2p)) (\<lambda>frame.
       bindE (on_pt (map_page E p2p space (virt + of_nat i * of_nat FRAME_SIZE) frame perms)) (\<lambda>_.
         bindE (push_frame b frame) (\<lambda>_.
           map_new_loop E p2p b space virt perms is)))"

definition map_new_pages ::
    "encoder \<Rightarrow> ptr_map \<Rightarrow> boundary_id \<Rightarrow> u64 \<Rightarrow> nat \<Rightarrow> permissions \<Rightarrow> unit am_action" where
  "map_new_pages E p2p b virt count perms st =
     (case bt_get (spaces st) b of
        None \<Rightarrow> throw UnknownContainer st
      | Some s \<Rightarrow> map_new_loop E p2p b (bs_space s) virt perms [0 ..< count] st)"

definition map_existing ::
    "encoder \<Rightarrow> ptr_map \<Rightarrow> boundary_id \<Rightarrow> u64 \<Rightarrow> u64 \<Rightarrow> nat \<Rightarrow> permissions \<Rightarrow> unit am_action" where
  "map_existing E p2p b virt phys count perms st =
     (case bt_get (spaces st) b of
        None \<Rightarrow> throw UnknownContainer st
      | Some s \<Rightarrow> on_pt (map_range E p2p (bs_space s) virt phys count perms) st)"

definition manager_translate :: "encoder \<Rightarrow> ptr_map \<Rightarrow> am_state \<Rightarrow> boundary_id \<Rightarrow> u64 \<Rightarrow> u64 option" where
  "manager_translate E p2p st b virt =
     (case bt_get (spaces st) b of
        None \<Rightarrow> None
      | Some s \<Rightarrow> translate E p2p (mem (am_pt st)) (bs_space s) virt)"

fun free_all :: "phys_frame list \<Rightarrow> alloc_state \<Rightarrow> alloc_state option" where
  "free_all [] a = Some a"
| "free_all (f # fs) a =
     (case free_frame f a of
        None \<Rightarrow> None
      | Some a' \<Rightarrow> free_all fs a')"

definition destroy_space :: "boundary_id \<Rightarrow> unit am_action" where
  "destroy_space b st =
     (case bt_get (spaces st) b of
        None \<Rightarrow> throw UnknownContainer st
      | Some s \<Rightarrow>
          (case free_all (mapped_frames s) (fa (am_pt st)) of
             None \<Rightarrow> None
           | Some a \<Rightarrow>
               ret () \<lparr>am_pt = (am_pt st)\<lparr>fa := a\<rparr>, spaces = bt_remove b (spaces st)\<rparr>))"

section \<open>The isolation invariant\<close>

definition roots :: "am_state \<Rightarrow> phys_frame set" where
  "roots st = {r. \<exists>b. root_of st b = Some r}"

definition data_frames :: "am_state \<Rightarrow> boundary_id \<Rightarrow> phys_frame set" where
  "data_frames st b = (case bt_get (spaces st) b of None \<Rightarrow> {} | Some s \<Rightarrow> set (mapped_frames s))"

definition am_inv :: "encoder \<Rightarrow> ptr_map \<Rightarrow> nat \<Rightarrow> phys_frame set \<Rightarrow> am_state \<Rightarrow> bool" where
  "am_inv E p2p lim X st \<longleftrightarrow>
     pt_wf E p2p lim (roots st) (am_pt st) \<and>
     (\<forall>b b' r. root_of st b = Some r \<longrightarrow> root_of st b' = Some r \<longrightarrow> b = b') \<and>
     (\<forall>b. \<forall>f \<in> data_frames st b. frame_ok lim f \<and> frame_index f < frame_count (fa (am_pt st)) \<and>
        frame_index f \<notin> free_set (fa (am_pt st)) \<and>
        f \<notin> tables E p2p (roots st) (mem (am_pt st))) \<and>
     (\<forall>b b'. b \<noteq> b' \<longrightarrow> data_frames st b \<inter> data_frames st b' = {}) \<and>
     (\<forall>f \<in> X. frame_ok lim f \<and> frame_index f \<notin> free_set (fa (am_pt st)) \<and>
        f \<notin> tables E p2p (roots st) (mem (am_pt st)) \<and> (\<forall>b. f \<notin> data_frames st b)) \<and>
     (\<forall>b virt pa. manager_translate E p2p st b virt = Some pa \<longrightarrow>
        frame_containing pa \<in> data_frames st b \<union> X)"
section \<open>Roots come and go\<close>

lemma tables_mono: "R' \<subseteq> R \<Longrightarrow> tables E p2p R' m \<subseteq> tables E p2p R m"
  by (auto simp: tables_def)

lemma pt_wf_subset: "pt_wf E p2p lim R st \<Longrightarrow> R' \<subseteq> R \<Longrightarrow> pt_wf E p2p lim R' st"
  unfolding pt_wf_def using tables_mono [of R' R E p2p "mem st"] by (meson subset_eq)

text \<open>Giving frames back to the allocator is harmless as long as none of them is a table.\<close>

lemma pt_wf_release:
  assumes "pt_wf E p2p lim R st" "fa_inv a" "frame_count a = frame_count (fa st)"
    "\<And>t. t \<in> tables E p2p R (mem st) \<Longrightarrow> frame_index t \<notin> free_set a"
  shows "pt_wf E p2p lim R (st\<lparr>fa := a\<rparr>)"
  using assms by (simp add: pt_wf_def)

context paged_memory
begin

lemma new_root_walk:
  assumes "\<And>j. j < ENTRIES \<Longrightarrow> read_entry p2p m c j = 0" "path_ok 3 p"
  shows "walk E p2p m 0 p c = (if p = [] then Some c else None)"
  using assms by (cases p) (auto simp: path_ok_def)

lemma new_root:
  assumes wf: "pt_wf E p2p lim R st" and run: "allocate_zeroed p2p st = Some (Inr c, st')"
  shows "pt_wf E p2p lim (insert c R) st'"
    and "tables E p2p (insert c R) (mem st') = insert c (tables E p2p R (mem st))"
    and "\<And>ix. ix_ok ix \<Longrightarrow> lookup E p2p (mem st') c ix = None"
proof -
  note ok = allocate_zeroed_ok [OF wf run] and grow = allocate_zeroed_grow [OF wf run]
  have zero: "read_entry p2p (mem st') c j = 0" if "j < ENTRIES" for j
    using ok(6) [OF ok(1) that] by simp
  have cw: "walk E p2p (mem st') 0 p c = (if p = [] then Some c else None)" if "path_ok 3 p" for p
    using that zero by (intro new_root_walk)
  have tR: "tables E p2p R (mem st') = tables E p2p R (mem st)"
    by (rule tables_eqI) (rule allocate_zeroed_walk [OF wf run])
  have "path_ok 3 []" by (simp add: path_ok_def)
  then have "tables E p2p (insert c R) (mem st') = insert c (tables E p2p R (mem st'))"
    unfolding tables_def using cw by (auto split: if_splits)
  then show tabs: "tables E p2p (insert c R) (mem st') = insert c (tables E p2p R (mem st))"
    using tR by simp
  have wf': "pt_wf E p2p lim R st'"
    using grow(1) by (rule pt_grow_wf)
  have notc: "walk E p2p (mem st') 0 p r \<noteq> Some c" if "r \<in> R" "path_ok 3 p" for r p
    using grow(3) that unfolding tables_def by blast
  have unique: "r = r' \<and> p = p'" if "r \<in> insert c R" "r' \<in> insert c R" "path_ok 3 p" "path_ok 3 p'"
    "walk E p2p (mem st') 0 p r = Some t" "walk E p2p (mem st') 0 p' r' = Some t" for r r' p p' t
  proof -
    have in_R: "r = c \<and> p = [] \<and> t = c \<or> r \<in> R" if "r \<in> insert c R" "path_ok 3 p"
      "walk E p2p (mem st') 0 p r = Some t" for r p
      using that cw by (auto split: if_splits)
    show ?thesis
      using in_R [OF that(1,3,5)] in_R [OF that(2,4,6)] notc wf_unique [OF wf' _ _ that(3-6)] that by metis
  qed
  have noblock: "\<not> is_block_leaf E (read_entry p2p (mem st') t i) (length p)"
    if "r \<in> insert c R" "path_ok 1 p" "i < ENTRIES" "walk E p2p (mem st') 0 p r = Some t"
      "is_present E (read_entry p2p (mem st') t i)" for r p t i
  proof (cases "r \<in> R")
    case True
    then show ?thesis
      using wf_no_block [OF wf' True that(2-5)] by simp
  next
    case False
    then have "t = c"
      using that cw [OF path_ok_mono [OF that(2), of 3]] by (auto split: if_splits)
    then show ?thesis
      using zero [OF that(3)] that(5) zero_absent by simp
  qed
  show "pt_wf E p2p lim (insert c R) st'"
    unfolding pt_wf_def tabs using wf' tR ok(1,3,4) unique noblock
    by (auto simp: pt_wf_def)
  show "lookup E p2p (mem st') c ix = None" if ix: "ix_ok ix" for ix
  proof -
    obtain i "is" where "ix = i # is" "i < ENTRIES"
      using ix by (cases ix) (auto simp: ix_ok_def LEVELS_def)
    then show ?thesis
      using zero zero_absent by (simp add: lookup_def)
  qed
qed

end

lemma free_all_inv:
  assumes "fa_inv a"
  obtains a' where "free_all fs a = Some a'" "fa_inv a'" "frame_count a' = frame_count a"
    "free_set a' = free_set a \<union> {i \<in> frame_index ` set fs. i < frame_count a}"
  using assms
proof (induction fs arbitrary: a thesis)
  case Nil
  then show ?case by auto
next
  case (Cons f fs)
  show ?case
  proof (rule free_frame_inv [OF Cons.prems(2), of f])
    fix a1
    assume a1: "free_frame f a = Some a1" "fa_inv a1" "frame_count a1 = frame_count a"
      "free_set a1 = (if frame_index f < frame_count a then insert (frame_index f) (free_set a) else free_set a)"
    show ?thesis
    proof (rule Cons.IH [OF _ a1(2)])
      fix a'
      assume a': "free_all fs a1 = Some a'" "fa_inv a'" "frame_count a' = frame_count a1"
        "free_set a' = free_set a1 \<union> {i \<in> frame_index ` set fs. i < frame_count a1}"
      show ?thesis
        by (rule Cons.prems(1) [of a']) (use a1 a' in auto)
    qed
  qed
qed
section \<open>Every operation keeps the invariant\<close>

lemma manager_translate_lookup:
  "bt_get (spaces st) b = Some s \<Longrightarrow> manager_translate E p2p st b virt =
     map_option (target E virt) (lookup E p2p (mem (am_pt st)) (root (bs_space s)) (indices virt))"
  by (simp add: manager_translate_def translate_lookup)

lemma root_of_in_roots: "bt_get (spaces st) b = Some s \<Longrightarrow> root (bs_space s) \<in> roots st"
  by (auto simp: roots_def root_of_def intro!: exI [of _ b])

lemma manager_translate_Some:
  "manager_translate E p2p st b virt = Some pa \<Longrightarrow> \<exists>s. bt_get (spaces st) b = Some s"
  by (cases "bt_get (spaces st) b") (auto simp: manager_translate_def)

text \<open>
  Growing the tables and handing the new data frames \<open>N b\<close> to the boundaries keeps the
  invariant, provided all translations stay inside the data frames and \<open>X\<close>.
\<close>

lemma am_inv_grow:
  assumes inv: "am_inv E p2p lim X st" and grow: "pt_grow E p2p lim (roots st) (am_pt st) (am_pt st')"
    and same: "root_of st' = root_of st"
    and data: "\<And>b. data_frames st' b = data_frames st b \<union> N b"
    and N: "\<And>b f. f \<in> N b \<Longrightarrow> frame_ok lim f \<and> frame_index f \<in> free_set (fa (am_pt st)) \<and>
        frame_index f \<notin> free_set (fa (am_pt st')) \<and> f \<notin> tables E p2p (roots st) (mem (am_pt st'))"
    and N_disj: "\<And>b b'. b \<noteq> b' \<Longrightarrow> N b \<inter> N b' = {}"
    and trans: "\<And>b virt pa. manager_translate E p2p st' b virt = Some pa \<Longrightarrow>
        frame_containing pa \<in> data_frames st' b \<union> X"
  shows "am_inv E p2p lim X st'"
proof -
  have roots: "roots st' = roots st"
    by (simp add: roots_def same)
  have count: "frame_count (fa (am_pt st')) = frame_count (fa (am_pt st))"
    and wf: "pt_wf E p2p lim (roots st) (am_pt st')"
    and mono: "\<And>i. i \<notin> free_set (fa (am_pt st)) \<Longrightarrow> i \<notin> free_set (fa (am_pt st'))"
    and tabs: "\<And>f. frame_index f \<notin> free_set (fa (am_pt st)) \<Longrightarrow> f \<notin> tables E p2p (roots st) (mem (am_pt st)) \<Longrightarrow>
      f \<notin> tables E p2p (roots st) (mem (am_pt st'))"
    using grow unfolding pt_grow_def by blast+
  have free: "i \<in> free_set (fa (am_pt st)) \<Longrightarrow> i < frame_count (fa (am_pt st))" for i
    by (simp add: free_set_def)
  have old: "frame_index f \<notin> free_set (fa (am_pt st))" "f \<notin> N b'" if "f \<in> data_frames st b \<union> X" for f b b'
    using inv N that unfolding am_inv_def by blast+
  show ?thesis
    unfolding am_inv_def roots same count data
  proof (intro conjI allI impI ballI)
    show "pt_wf E p2p lim (roots st) (am_pt st')" by (rule wf)
    show "b = b'" if "root_of st b = Some r" "root_of st b' = Some r" for b b' r
      using inv that by (simp add: am_inv_def)
    show "(data_frames st b \<union> N b) \<inter> (data_frames st b' \<union> N b') = {}" if "b \<noteq> b'" for b b'
      using inv N_disj [OF that] old that unfolding am_inv_def by blast
    show "frame_containing pa \<in> data_frames st b \<union> N b \<union> X"
      if "manager_translate E p2p st' b virt = Some pa" for b virt pa
      using trans [OF that] data by simp
  qed (use inv N free mono tabs old in \<open>(auto simp: am_inv_def; blast)+\<close>)
qed
lemma on_pt_simps:
  "on_pt m st = None \<longleftrightarrow> m (am_pt st) = None"
  "on_pt m st = Some (r, st') \<longleftrightarrow> (\<exists>pt. m (am_pt st) = Some (r, pt) \<and> st' = st\<lparr>am_pt := pt\<rparr>)"
  by (auto simp: on_pt_def)

lemma insert_space_simps [simp]:
  "am_pt (insert_space b s st) = am_pt st"
  "bt_get (spaces (insert_space b s st)) b' = (if b' = b then Some s else bt_get (spaces st) b')"
  by (simp_all add: insert_space_def btree_simps)

lemma push_frame_Some:
  fixes f :: phys_frame
  assumes "bt_get (spaces st) b = Some s"
  defines "st' \<equiv> insert_space b (s\<lparr>mapped_frames := mapped_frames s @ [f]\<rparr>) st"
  shows "push_frame b f st = Some (Inr (), st')" and "root_of st' = root_of st"
    and "data_frames st' b' = data_frames st b' \<union> (if b' = b then {f} else {})"
    and "manager_translate E p2p st' = manager_translate E p2p st"
  using assms by (auto simp: push_frame_def ret_def root_of_def data_frames_def manager_translate_def
      fun_eq_iff split: option.splits)

lemma am_pt_update_simps [simp]:
  "root_of (st\<lparr>am_pt := pt\<rparr>) = root_of st" "data_frames (st\<lparr>am_pt := pt\<rparr>) = data_frames st"
  "roots (st\<lparr>am_pt := pt\<rparr>) = roots st"
  by (auto simp: root_of_def data_frames_def roots_def fun_eq_iff)

context paged_memory
begin

lemma containing_target:
  assumes "frame_ok lim c"
  shows "frame_containing (target E v (3, encode_leaf E c perms)) = c"
proof -
  have "take_bit 12 (frame_addr c) = 0" and "unat (frame_addr c) div FRAME_SIZE < lim" and "frame_containing (frame_addr c) = c"
    using assms frame_aligned [of "frame_index c"] containing_frame [of "frame_index c"]
    by (simp_all add: frame_ok_def frame_index_def)
  then show ?thesis
    using page_target_frame [of "frame_addr c" v perms] by simp
qed

text \<open>What a boundary can reach after a mapping call on some root.\<close>

lemma translate_after_map:
  assumes m: "maps_to E p2p lim (roots st) r0 D new (am_pt st) res pt'"
    and t: "manager_translate E p2p (st\<lparr>am_pt := pt'\<rparr>) b virt = Some pa"
  shows "manager_translate E p2p st b virt = Some pa \<or>
    res = Inr () \<and> root_of st b = Some r0 \<and> pa = target E virt new"
proof -
  from manager_translate_Some [OF t] obtain s where s: "bt_get (spaces st) b = Some s"
    by auto
  have "lookup E p2p (mem pt') (root (bs_space s)) (indices virt) =
      (if res = Inr () \<and> root (bs_space s) = r0 \<and> D (indices virt) then Some new
       else lookup E p2p (mem (am_pt st)) (root (bs_space s)) (indices virt))"
    using m root_of_in_roots [OF s] ix_ok_indices by (simp add: maps_to_def)
  with t s show ?thesis
    by (auto simp: manager_translate_lookup root_of_def split: if_splits)
qed

lemma map_new_step:
  assumes inv: "am_inv E p2p lim X st" and s: "bt_get (spaces st) b = Some s"
    and run: "allocate_zeroed p2p (am_pt st) = Some (Inr c, pt1)"
    and map: "map_page E p2p (bs_space s) virt c perms pt1 = Some (res, pt2)"
  shows "res = Inl e \<Longrightarrow> am_inv E p2p lim X (st\<lparr>am_pt := pt2\<rparr>)"
    and "res = Inr () \<Longrightarrow> \<exists>st' s'. push_frame b c (st\<lparr>am_pt := pt2\<rparr>) = Some (Inr (), st') \<and>
      am_inv E p2p lim X st' \<and> bt_get (spaces st') b = Some s' \<and> bs_space s' = bs_space s"
proof -
  let ?R = "roots st" and ?r0 = "root (bs_space s)"
  have wf: "pt_wf E p2p lim ?R (am_pt st)"
    using inv by (simp add: am_inv_def)
  note ok = allocate_zeroed_ok [OF wf run] and zg = allocate_zeroed_grow [OF wf run]
  have m: "maps_to E p2p lim ?R ?r0 (\<lambda>ix. ix = indices virt) (3, encode_leaf E c perms) pt1 res pt2"
    by (rule map_page_spec [OF pt_grow_wf [OF zg(1)] root_of_in_roots [OF s] ok(1), of virt perms])
      (use map in auto)
  have m0: "maps_to E p2p lim ?R ?r0 (\<lambda>ix. ix = indices virt) (3, encode_leaf E c perms) (am_pt st) res pt2"
    using m zg(1,2) pt_grow_trans [of E p2p lim ?R "am_pt st" pt1 pt2] root_of_in_roots [OF s]
    by (auto simp: maps_to_def same_lookup_def)
  then have grow: "pt_grow E p2p lim ?R (am_pt st) pt2"
    by (simp add: maps_to_def)
  have old: "frame_containing pa \<in> data_frames st b' \<union> X"
    if "manager_translate E p2p st b' v = Some pa" for b' v pa
    using inv that by (auto simp: am_inv_def)
  show "am_inv E p2p lim X (st\<lparr>am_pt := pt2\<rparr>)" if "res = Inl e"
    using inv
  proof (rule am_inv_grow [where N = "\<lambda>_. {}"])
    show "frame_containing pa \<in> data_frames (st\<lparr>am_pt := pt2\<rparr>) b' \<union> X"
      if "manager_translate E p2p (st\<lparr>am_pt := pt2\<rparr>) b' v = Some pa" for b' v pa
      using translate_after_map [OF m0 that] old \<open>res = Inl e\<close> by auto
  qed (use grow in auto)
  assume res: "res = Inr ()"
  have s2: "bt_get (spaces (st\<lparr>am_pt := pt2\<rparr>)) b = Some s"
    using s by simp
  define st' where "st' = insert_space b (s\<lparr>mapped_frames := mapped_frames s @ [c]\<rparr>) (st\<lparr>am_pt := pt2\<rparr>)"
  note push = push_frame_Some [OF s2, where f = c, folded st'_def]
  have c_used: "frame_index c \<notin> free_set (fa pt2)"
    using m ok(3) by (auto simp: maps_to_def pt_grow_def)
  have c_data: "c \<notin> tables E p2p ?R (mem pt2)"
    using m zg(3) ok(3) unfolding maps_to_def pt_grow_def by blast
  have "am_inv E p2p lim X st'"
    using inv
  proof (rule am_inv_grow [where N = "\<lambda>b'. if b' = b then {c} else {}"])
    show "data_frames st' b' = data_frames st b' \<union> (if b' = b then {c} else {})" for b'
      using push(3) [of b'] by simp
    show "frame_containing pa \<in> data_frames st' b' \<union> X"
      if t: "manager_translate E p2p st' b' v = Some pa" for b' v pa
    proof -
      have "manager_translate E p2p (st\<lparr>am_pt := pt2\<rparr>) b' v = Some pa"
        using t push(4) by simp
      from translate_after_map [OF m0 this] show ?thesis
      proof
        assume "manager_translate E p2p st b' v = Some pa"
        then show ?thesis
          using old push(3) [of b'] by auto
      next
        assume *: "res = Inr () \<and> root_of st b' = Some ?r0 \<and> pa = target E v (3, encode_leaf E c perms)"
        then have "b' = b"
          using inv s by (auto simp: am_inv_def root_of_def)
        then show ?thesis
          using * containing_target [OF ok(1)] push(3) [of b'] by simp
      qed
    qed
  qed (use grow push ok c_used c_data in \<open>auto simp: st'_def split: if_splits\<close>)
  then show "\<exists>st' s'. push_frame b c (st\<lparr>am_pt := pt2\<rparr>) = Some (Inr (), st') \<and>
      am_inv E p2p lim X st' \<and> bt_get (spaces st') b = Some s' \<and> bs_space s' = bs_space s"
    using push(1) by (auto simp: st'_def)
qed

end
section \<open>Mapping fresh pages\<close>

text \<open>
  A freshly mapped page: its addresses translate into the frame and the frame reads as zeroes.
\<close>

definition fresh_page :: "encoder \<Rightarrow> ptr_map \<Rightarrow> address_space \<Rightarrow> memory \<Rightarrow> u64 \<Rightarrow> phys_frame \<Rightarrow> bool" where
  "fresh_page E p2p space m v c \<longleftrightarrow>
     (\<forall>x. unat x < 2 ^ 12 \<longrightarrow> translate E p2p m space (v + x) = Some (frame_addr c + x)) \<and>
     (\<forall>j < ENTRIES. read_entry p2p m c j = 0)"

text \<open>What the loop of \<open>map_new_pages\<close> does to everything but the mapped boundary.\<close>

definition loop_frame :: "encoder \<Rightarrow> ptr_map \<Rightarrow> nat \<Rightarrow> boundary_id \<Rightarrow> phys_frame \<Rightarrow> am_state \<Rightarrow> am_state \<Rightarrow> bool" where
  "loop_frame E p2p lim b r0 st st' \<longleftrightarrow>
     extends E p2p lim (roots st) r0 (am_pt st) (am_pt st') \<and> root_of st' = root_of st \<and>
     (\<forall>b'. b' \<noteq> b \<longrightarrow> bt_get (spaces st') b' = bt_get (spaces st) b')"

lemma loop_frame_roots: "loop_frame E p2p lim b r0 st st' \<Longrightarrow> roots st' = roots st"
  by (simp add: loop_frame_def roots_def)

lemma loop_frame_trans:
  assumes "loop_frame E p2p lim b r0 st1 st2" "loop_frame E p2p lim b r0 st2 st3"
  shows "loop_frame E p2p lim b r0 st1 st3"
  using assms loop_frame_roots [OF assms(1)] extends_trans
  unfolding loop_frame_def by metis

context paged_memory
begin

lemma fresh_page_extends:
  assumes fresh: "fresh_page E p2p space (mem st) v c" and ext: "extends E p2p lim R r0 st st'"
    and r: "root space \<in> R" and c: "frame_ok lim c" "frame_index c \<notin> free_set (fa st)" "c \<notin> tables E p2p R (mem st)"
  shows "fresh_page E p2p space (mem st') v c"
proof -
  have "translate E p2p (mem st') space (v + x) = Some (frame_addr c + x)" if "unat x < 2 ^ 12" for x
    using fresh that extends_lookup [OF ext r ix_ok_indices] unfolding fresh_page_def translate_lookup
    by fastforce
  moreover have "read_entry p2p (mem st') c j = 0" if "j < ENTRIES" for j
    using fresh ext c that by (simp add: fresh_page_def extends_def pt_grow_def)
  ultimately show ?thesis
    by (simp add: fresh_page_def)
qed

lemma map_new_fresh:
  assumes wf: "pt_wf E p2p lim R pt" and r: "root space \<in> R"
    and run: "allocate_zeroed p2p pt = Some (Inr c, pt1)"
    and map: "map_page E p2p space v c perms pt1 = Some (res, pt2)"
  shows "extends E p2p lim R (root space) pt pt2"
    and "res = Inr () \<Longrightarrow> fresh_page E p2p space (mem pt2) v c"
proof -
  note ok = allocate_zeroed_ok [OF wf run] and zg = allocate_zeroed_grow [OF wf run]
  have m: "maps_to E p2p lim R (root space) (\<lambda>ix. ix = indices v) (3, encode_leaf E c perms) pt1 res pt2"
    and al: "res = Inr () \<Longrightarrow> take_bit 12 v = 0"
    by (rule map_page_spec [OF pt_grow_wf [OF zg(1)] r ok(1), of v perms]; use map in auto)+
  have "extends E p2p lim R (root space) pt pt1"
    using zg by (simp add: extends_def same_lookup_def)
  then show "extends E p2p lim R (root space) pt pt2"
    using maps_to_extends [OF m] by (rule extends_trans)
  assume res: "res = Inr ()"
  have c: "take_bit 12 (frame_addr c) = 0" "unat (frame_addr c) div FRAME_SIZE < lim" "frame_containing (frame_addr c) = c"
    using ok(1) frame_aligned [of "frame_index c"] containing_frame [of "frame_index c"]
    by (simp_all add: frame_ok_def frame_index_def)
  have "translate E p2p (mem pt2) space (v + x) = Some (frame_addr c + x)" if x: "unat x < 2 ^ 12" for x
  proof -
    have "lookup E p2p (mem pt2) (root space) (indices (v + x)) = Some (3, encode_leaf E c perms)"
      using m r res indices_offset [OF al [OF res] x] ix_ok_indices by (simp add: maps_to_def)
    then show ?thesis
      using leaf_target [OF c(1,2) al [OF res] x, of perms] c(3) by (simp add: translate_lookup)
  qed
  moreover have "read_entry p2p (mem pt2) c j = 0" if "j < ENTRIES" for j
  proof -
    have "read_entry p2p (mem pt2) c j = read_entry p2p (mem pt1) c j"
      using m that ok(1,3) zg(3) by (simp add: maps_to_def pt_grow_def)
    then show ?thesis
      using ok(6) [OF ok(1) that] by simp
  qed
  ultimately show "fresh_page E p2p space (mem pt2) v c"
    by (simp add: fresh_page_def)
qed


end
definition loop_result :: "encoder \<Rightarrow> ptr_map \<Rightarrow> u64 \<Rightarrow> nat list \<Rightarrow> am_state \<Rightarrow> boundary_space \<Rightarrow>
    am_state \<Rightarrow> boundary_space \<Rightarrow> bool" where
  "loop_result E p2p virt is st s st' s' \<longleftrightarrow>
     (\<exists>fs. mapped_frames s' = mapped_frames s @ fs \<and> distinct fs \<and>
        (\<forall>c \<in> set fs. frame_index c \<in> free_set (fa (am_pt st))) \<and>
        list_all2 (\<lambda>i c. fresh_page E p2p (bs_space s) (mem (am_pt st')) (virt + of_nat i * of_nat FRAME_SIZE) c) is fs)"

lemma loop_frame_free:
  "loop_frame E p2p lim b r0 st st' \<Longrightarrow> free_set (fa (am_pt st')) \<subseteq> free_set (fa (am_pt st))"
  by (simp add: loop_frame_def extends_def pt_grow_def)

context paged_memory
begin

lemma map_page_total:
  assumes "pt_wf E p2p lim R st" "root space \<in> R" "frame_ok lim frame"
  shows "\<exists>res st'. map_page E p2p space virt frame perms st = Some (res, st')"
  by (rule map_page_spec [OF assms, of virt perms]) blast

lemma loop_frame_refl: "am_inv E p2p lim X st \<Longrightarrow> loop_frame E p2p lim b r0 st st"
  by (simp add: loop_frame_def extends_refl am_inv_def)

lemma loop_result_Cons:
  assumes inv1: "am_inv E p2p lim X st1" and lf1: "loop_frame E p2p lim b (root (bs_space s)) st st1"
    and s1: "bt_get (spaces st1) b = Some s1" "s1 = s\<lparr>mapped_frames := mapped_frames s @ [c]\<rparr>"
    and c: "frame_index c \<in> free_set (fa (am_pt st))"
      "fresh_page E p2p (bs_space s) (mem (am_pt st1)) (virt + of_nat i * of_nat FRAME_SIZE) c"
    and lf2: "loop_frame E p2p lim b (root (bs_space s)) st1 st'"
    and res: "loop_result E p2p virt is st1 s1 st' s'"
  shows "loop_result E p2p virt (i # is) st s st' s'"
proof -
  obtain fs where fs: "mapped_frames s' = mapped_frames s1 @ fs" "distinct fs"
    "\<forall>c \<in> set fs. frame_index c \<in> free_set (fa (am_pt st1))"
    "list_all2 (\<lambda>i c. fresh_page E p2p (bs_space s) (mem (am_pt st')) (virt + of_nat i * of_nat FRAME_SIZE) c) is fs"
    using res s1(2) by (auto simp: loop_result_def)
  have "c \<in> data_frames st1 b"
    using s1 by (simp add: data_frames_def)
  then have c1: "frame_ok lim c" "frame_index c \<notin> free_set (fa (am_pt st1))"
    "c \<notin> tables E p2p (roots st1) (mem (am_pt st1))"
    using inv1 unfolding am_inv_def by blast+
  have "root (bs_space s) \<in> roots st1"
    using root_of_in_roots [OF s1(1)] s1(2) by simp
  then have "fresh_page E p2p (bs_space s) (mem (am_pt st')) (virt + of_nat i * of_nat FRAME_SIZE) c"
    using fresh_page_extends [OF c(2) _ _ c1] lf2 unfolding loop_frame_def by blast
  moreover have "c \<notin> set fs"
    using fs(3) c1(2) by auto
  moreover have "\<forall>c' \<in> set (c # fs). frame_index c' \<in> free_set (fa (am_pt st))"
    using fs(3) c(1) loop_frame_free [OF lf1] by auto
  moreover have "mapped_frames s' = mapped_frames s @ c # fs"
    using fs(1) s1(2) by simp
  ultimately show ?thesis
    unfolding loop_result_def using fs(2,4) by (metis distinct.simps(2) list_all2_Cons)
qed

lemma map_new_loop_spec:
  assumes "am_inv E p2p lim X st" "bt_get (spaces st) b = Some s"
  shows "\<exists>r st' s'. map_new_loop E p2p b (bs_space s) virt perms is st = Some (r, st') \<and>
    am_inv E p2p lim X st' \<and> loop_frame E p2p lim b (root (bs_space s)) st st' \<and>
    bt_get (spaces st') b = Some s' \<and> bs_space s' = bs_space s \<and>
    (r = Inr () \<longrightarrow> loop_result E p2p virt is st s st' s')"
  using assms
proof (induction "is" arbitrary: st s)
  case Nil
  then show ?case
    by (auto simp: action_simps loop_result_def intro: loop_frame_refl)
next
  case (Cons i "is")
  note inv = Cons.prems(1) and s = Cons.prems(2)
  have wf: "pt_wf E p2p lim (roots st) (am_pt st)"
    using inv by (simp add: am_inv_def)
  let ?v = "virt + of_nat i * of_nat FRAME_SIZE" and ?sp = "bs_space s"
  show ?case
  proof (cases "\<exists>c pt1. allocate_zeroed p2p (am_pt st) = Some (Inr c, pt1)")
    case False
    then obtain e where "allocate_zeroed p2p (am_pt st) = Some (Inl e, am_pt st)"
      using allocate_zeroed_err [OF wf] by (metis not_Some_eq old.sum.exhaust surj_pair)
    then have "map_new_loop E p2p b ?sp virt perms (i # is) st = Some (Inl e, st)"
      by (simp add: bindE_def on_pt_def)
    with inv s show ?thesis
      using loop_frame_refl by auto
  next
    case True
    then obtain c pt1 where run: "allocate_zeroed p2p (am_pt st) = Some (Inr c, pt1)" by blast
    note zg = allocate_zeroed_grow [OF wf run] and ok = allocate_zeroed_ok [OF wf run]
    obtain res pt2 where map: "map_page E p2p ?sp ?v c perms pt1 = Some (res, pt2)"
      using map_page_total [OF pt_grow_wf [OF zg(1)] root_of_in_roots [OF s] ok(1)] by blast
    note step = map_new_step [OF inv s run map] and fresh = map_new_fresh [OF wf root_of_in_roots [OF s] run map]
    show ?thesis
    proof (cases res)
      case (Inl e)
      have "map_new_loop E p2p b ?sp virt perms (i # is) st = Some (Inl e, st\<lparr>am_pt := pt2\<rparr>)"
        using run map Inl by (simp add: bindE_def on_pt_def)
      then show ?thesis
        using step(1) [OF Inl] fresh(1) s by (auto simp: loop_frame_def)
    next
      case (Inr u)
      then have res: "res = Inr ()" by simp
      define s1 where "s1 = s\<lparr>mapped_frames := mapped_frames s @ [c]\<rparr>"
      define st1 where "st1 = insert_space b s1 (st\<lparr>am_pt := pt2\<rparr>)"
      have s2: "bt_get (spaces (st\<lparr>am_pt := pt2\<rparr>)) b = Some s"
        using s by simp
      note push = push_frame_Some [OF s2, where f = c, folded s1_def, folded st1_def]
      have inv1: "am_inv E p2p lim X st1"
        using step(2) [OF res] push(1) by auto
      have s1: "bt_get (spaces st1) b = Some s1"
        by (simp add: st1_def)
      have lf1: "loop_frame E p2p lim b (root ?sp) st st1"
        using fresh(1) push(2) by (simp add: loop_frame_def st1_def)
      have sp1: "bs_space s1 = ?sp" by (simp add: s1_def)
      have eq: "map_new_loop E p2p b ?sp virt perms (i # is) st = map_new_loop E p2p b (bs_space s1) virt perms is st1"
        using run map res push(1) by (simp add: bindE_def on_pt_def sp1)
      from Cons.IH [OF inv1 s1] obtain r st' s' where
        IH: "map_new_loop E p2p b (bs_space s1) virt perms is st1 = Some (r, st')" "am_inv E p2p lim X st'"
          "loop_frame E p2p lim b (root ?sp) st1 st'" "bt_get (spaces st') b = Some s'" "bs_space s' = ?sp"
          "r = Inr () \<longrightarrow> loop_result E p2p virt is st1 s1 st' s'"
        unfolding sp1 by blast
      have "fresh_page E p2p ?sp (mem (am_pt st1)) ?v c"
        using fresh(2) [OF res] by (simp add: st1_def)
      then have "r = Inr () \<longrightarrow> loop_result E p2p virt (i # is) st s st' s'"
        using loop_result_Cons [OF inv1 lf1 s1 s1_def ok(2) _ IH(3)] IH(6) by blast
      then show ?thesis
        unfolding eq using IH loop_frame_trans [OF lf1 IH(3)] by blast
    qed
  qed
qed

end
section \<open>The other operations\<close>

context paged_memory
begin

lemma create_space_inv:
  assumes inv: "am_inv E p2p lim X st"
  shows "\<exists>r st'. create_space p2p b st = Some (r, st') \<and> am_inv E p2p lim X st' \<and>
    (r = Inr () \<longrightarrow> \<not> has_space st b \<and> has_space st' b \<and>
       (\<forall>virt. manager_translate E p2p st' b virt = None)) \<and>
    (\<forall>b' virt. b' \<noteq> b \<longrightarrow> manager_translate E p2p st' b' virt = manager_translate E p2p st b' virt)"
proof (cases "bt_contains (spaces st) b")
  case True
  then show ?thesis
    using inv by (simp add: create_space_def throw_def)
next
  case False
  have wf: "pt_wf E p2p lim (roots st) (am_pt st)"
    using inv by (simp add: am_inv_def)
  show ?thesis
  proof (cases "\<exists>c pt. allocate_zeroed p2p (am_pt st) = Some (Inr c, pt)")
    case none: False
    then obtain e where "allocate_zeroed p2p (am_pt st) = Some (Inl e, am_pt st)"
      using allocate_zeroed_err [OF wf] by (metis not_Some_eq old.sum.exhaust surj_pair)
    then have "create_space p2p b st = Some (Inl e, st)"
      using False by (simp add: create_space_def address_space_new_def bindE_def on_pt_def)
    with inv show ?thesis by simp
  next
    case True
    then obtain c pt where run: "allocate_zeroed p2p (am_pt st) = Some (Inr c, pt)" by blast
    note ok = allocate_zeroed_ok [OF wf run] and zg = allocate_zeroed_grow [OF wf run] and nr = new_root [OF wf run]
    define st' where "st' = insert_space b \<lparr>bs_space = \<lparr>root = c\<rparr>, mapped_frames = []\<rparr> (st\<lparr>am_pt := pt\<rparr>)"
    have eq: "create_space p2p b st = Some (Inr (), st')"
      using False run by (simp add: create_space_def address_space_new_def bindE_def on_pt_def ret_def st'_def)
    have nb: "bt_get (spaces st) b = None"
      using False by (simp add: bt_contains_def)
    have root: "root_of st' b' = (if b' = b then Some c else root_of st b')" for b'
      by (simp add: root_of_def st'_def)
    have roots: "roots st' = insert c (roots st)"
    proof -
      have "root_of st b = None" using nb by (simp add: root_of_def)
      then show ?thesis
        unfolding roots_def root by (auto split: if_splits) (metis option.distinct(1))
    qed
    have data: "data_frames st' b' = data_frames st b'" for b'
      using nb by (simp add: data_frames_def st'_def)
    have pt': "am_pt st' = pt" by (simp add: st'_def)
    have t_b: "manager_translate E p2p st' b v = None" for v
      using nr(3) [OF ix_ok_indices] by (simp add: manager_translate_def st'_def translate_lookup)
    have t_o: "manager_translate E p2p st' b' v = manager_translate E p2p st b' v" if "b' \<noteq> b" for b' v
    proof (cases "bt_get (spaces st) b'")
      case None
      then show ?thesis using that by (simp add: manager_translate_def st'_def)
    next
      case (Some s)
      have "lookup E p2p (mem pt) (root (bs_space s)) (indices v) =
          lookup E p2p (mem (am_pt st)) (root (bs_space s)) (indices v)"
        using zg(2) root_of_in_roots [OF Some] ix_ok_indices unfolding same_lookup_def by blast
      then show ?thesis
        using that Some by (simp add: manager_translate_def st'_def translate_lookup)
    qed
    have fresh: "c \<notin> roots st"
    proof
      assume "c \<in> roots st"
      moreover have "path_ok 3 []" by (simp add: path_ok_def)
      ultimately have "c \<in> tables E p2p (roots st) (mem (am_pt st))"
        unfolding tables_def by force
      with wf ok(2) show False by (auto simp: pt_wf_def)
    qed
    have uniq: "b1 = b2" if "root_of st' b1 = Some r" "root_of st' b2 = Some r" for b1 b2 r
      using inv that fresh by (auto simp: root am_inv_def roots_def split: if_splits)
    have "am_inv E p2p lim X st'"
      unfolding am_inv_def roots data pt' nr(2)
    proof (intro conjI allI impI)
      show "pt_wf E p2p lim (insert c (roots st)) pt" by (rule nr(1))
      show "b1 = b2" if "root_of st' b1 = Some r" "root_of st' b2 = Some r" for b1 b2 r
        using uniq that .
      show "frame_containing pa \<in> data_frames st b' \<union> X" if "manager_translate E p2p st' b' v = Some pa" for b' v pa
        using inv that t_b t_o [of b' v] unfolding am_inv_def by (cases "b' = b") auto
    qed (use inv ok in \<open>auto simp: am_inv_def\<close>)
    then show ?thesis
      unfolding eq using t_b t_o nb
      by (auto simp: has_space_def bt_contains_def st'_def)
  qed
qed

end
section \<open>Mapping existing memory, teardown and stores\<close>

text \<open>
  A store by the code of a boundary: the hardware translates the address and writes the slot it
  lies in. This is the environment of the manager, not one of its operations.
\<close>

definition user_store :: "encoder \<Rightarrow> ptr_map \<Rightarrow> boundary_id \<Rightarrow> u64 \<Rightarrow> u64 \<Rightarrow> am_state \<Rightarrow> am_state" where
  "user_store E p2p b virt v st =
     (case manager_translate E p2p st b virt of
        None \<Rightarrow> st
      | Some pa \<Rightarrow>
          st\<lparr>am_pt := store p2p (am_pt st) (frame_containing pa) (unat pa mod FRAME_SIZE div 8) v\<rparr>)"

context paged_memory
begin

lemma map_existing_inv:
  assumes inv: "am_inv E p2p lim X st" and phys: "take_bit 12 phys = 0" "unat phys div FRAME_SIZE + count \<le> lim"
    and X: "range_frames phys count \<subseteq> X"
  shows "\<exists>r st'. map_existing E p2p b virt phys count perms st = Some (r, st') \<and> am_inv E p2p lim X st'"
proof (cases "bt_get (spaces st) b")
  case None
  then show ?thesis
    using inv by (simp add: map_existing_def throw_def)
next
  case (Some s)
  have wf: "pt_wf E p2p lim (roots st) (am_pt st)"
    using inv by (simp add: am_inv_def)
  from map_range_from_spec [OF wf root_of_in_roots [OF Some] phys, of virt perms 0]
  obtain r pt where run: "map_range E p2p (bs_space s) virt phys count perms (am_pt st) = Some (r, pt)"
    and ext: "extends E p2p lim (roots st) (root (bs_space s)) (am_pt st) pt"
    and range: "in_range E p2p (bs_space s) phys count (mem (am_pt st)) (mem pt)"
    unfolding map_range_def by blast
  have "am_inv E p2p lim X (st\<lparr>am_pt := pt\<rparr>)"
    using inv
  proof (rule am_inv_grow [where N = "\<lambda>_. {}"])
    show "frame_containing pa \<in> data_frames (st\<lparr>am_pt := pt\<rparr>) b' \<union> X"
      if t: "manager_translate E p2p (st\<lparr>am_pt := pt\<rparr>) b' v = Some pa" for b' v pa
    proof -
      from manager_translate_Some [OF t] obtain s' where s': "bt_get (spaces st) b' = Some s'" by auto
      have "manager_translate E p2p st b' v = Some pa \<or> frame_containing pa \<in> X"
      proof (cases "b' = b")
        case True
        then show ?thesis
          using range t Some X unfolding in_range_def by (auto simp: manager_translate_def)
      next
        case False
        then have "root (bs_space s') \<noteq> root (bs_space s)"
          using inv Some s' by (auto simp: am_inv_def root_of_def)
        then have "lookup E p2p (mem pt) (root (bs_space s')) (indices v) =
            lookup E p2p (mem (am_pt st)) (root (bs_space s')) (indices v)"
          using ext root_of_in_roots [OF s'] ix_ok_indices by (simp add: extends_def)
        then show ?thesis
          using t s' by (simp add: manager_translate_lookup)
      qed
      then show ?thesis
        using inv unfolding am_inv_def am_pt_update_simps by blast
    qed
  qed (use ext in \<open>auto simp: extends_def\<close>)
  with run Some show ?thesis
    by (auto simp: map_existing_def on_pt_def)
qed

lemma frame_ok_inject: "frame_ok lim f \<Longrightarrow> frame_ok lim g \<Longrightarrow> frame_index f = frame_index g \<Longrightarrow> f = g"
  by (metis frame_ok_def)

lemma destroy_space_inv:
  assumes inv: "am_inv E p2p lim X st" and s: "bt_get (spaces st) b = Some s"
  shows "\<exists>st'. destroy_space b st = Some (Inr (), st') \<and> am_inv E p2p lim X st' \<and> \<not> has_space st' b \<and>
    free_set (fa (am_pt st')) = free_set (fa (am_pt st)) \<union> frame_index ` set (mapped_frames s) \<and>
    (\<forall>b' virt. b' \<noteq> b \<longrightarrow> manager_translate E p2p st' b' virt = manager_translate E p2p st b' virt)"
proof -
  let ?F = "frame_index ` set (mapped_frames s)"
  have df: "data_frames st b = set (mapped_frames s)"
    using s by (simp add: data_frames_def)
  have fi: "fa_inv (fa (am_pt st))"
    using inv by (simp add: am_inv_def pt_wf_def)
  have below: "{i \<in> ?F. i < frame_count (fa (am_pt st))} = ?F"
    using inv df unfolding am_inv_def by blast
  obtain a where a: "free_all (mapped_frames s) (fa (am_pt st)) = Some a" "fa_inv a"
    "frame_count a = frame_count (fa (am_pt st))" "free_set a = free_set (fa (am_pt st)) \<union> ?F"
    using free_all_inv [OF fi, of "mapped_frames s"] unfolding below by metis
  define st' where "st' = \<lparr>am_pt = (am_pt st)\<lparr>fa := a\<rparr>, spaces = bt_remove b (spaces st)\<rparr>"
  have get: "bt_get (spaces st') b' = (if b' = b then None else bt_get (spaces st) b')" for b'
    by (simp add: st'_def btree_simps)
  have pt': "am_pt st' = (am_pt st)\<lparr>fa := a\<rparr>"
    by (simp add: st'_def)
  have sub: "roots st' \<subseteq> roots st"
    by (auto simp: roots_def root_of_def get split: if_splits)
  have tabs: "tables E p2p (roots st') (mem (am_pt st)) \<subseteq> tables E p2p (roots st) (mem (am_pt st))"
    by (rule tables_mono [OF sub])
  have data: "data_frames st' b' = (if b' = b then {} else data_frames st b')" for b'
    by (simp add: data_frames_def get)
  have trans: "manager_translate E p2p st' b' v = (if b' = b then None else manager_translate E p2p st b' v)" for b' v
    by (simp add: manager_translate_def get pt' split: option.split)
  have notF: "frame_index f \<notin> ?F" if "frame_ok lim f" "f \<notin> data_frames st b" for f
    using inv that df frame_ok_inject [of f] unfolding am_inv_def by (metis imageE)
  have tab_ok: "frame_ok lim t" "t \<notin> data_frames st b" "frame_index t \<notin> free_set (fa (am_pt st))"
    if "t \<in> tables E p2p (roots st) (mem (am_pt st))" for t
  proof -
    have "pt_wf E p2p lim (roots st) (am_pt st)"
      using inv by (simp add: am_inv_def)
    then show "frame_ok lim t" "frame_index t \<notin> free_set (fa (am_pt st))"
      using that by (simp_all add: pt_wf_def)
    show "t \<notin> data_frames st b"
      using inv that by (auto simp: am_inv_def)
  qed
  have "am_inv E p2p lim X st'"
    unfolding am_inv_def data pt' trans
  proof (intro conjI allI impI ballI)
    show "pt_wf E p2p lim (roots st') ((am_pt st)\<lparr>fa := a\<rparr>)"
    proof (rule pt_wf_release [OF _ a(2,3)])
      show "pt_wf E p2p lim (roots st') (am_pt st)"
        using inv sub by (auto simp: am_inv_def intro: pt_wf_subset)
      show "frame_index t \<notin> free_set a" if "t \<in> tables E p2p (roots st') (mem (am_pt st))" for t
        using tab_ok [of t] notF [of t] tabs that a(4) by blast
    qed
    show "b1 = b2" if "root_of st' b1 = Some r" "root_of st' b2 = Some r" for b1 b2 r
      using inv that by (auto simp: am_inv_def root_of_def get split: if_splits)
    fix b' f
    assume f: "f \<in> (if b' = b then {} else data_frames st b')"
    then have "b' \<noteq> b" "f \<in> data_frames st b'" by (auto split: if_splits)
    moreover from this have "f \<notin> data_frames st b"
      using inv unfolding am_inv_def by blast
    ultimately show "frame_ok lim f" "frame_index f < frame_count (fa ((am_pt st)\<lparr>fa := a\<rparr>))"
      "frame_index f \<notin> free_set (fa ((am_pt st)\<lparr>fa := a\<rparr>))"
      "f \<notin> tables E p2p (roots st') (mem ((am_pt st)\<lparr>fa := a\<rparr>))"
      using inv notF [of f] tabs a(3,4) unfolding am_inv_def by auto
  next
    fix f assume "f \<in> X"
    then show "frame_ok lim f" "frame_index f \<notin> free_set (fa ((am_pt st)\<lparr>fa := a\<rparr>))"
      "f \<notin> tables E p2p (roots st') (mem ((am_pt st)\<lparr>fa := a\<rparr>))"
      "\<And>b'. f \<notin> (if b' = b then {} else data_frames st b')"
      using inv notF [of f] tabs a(4) unfolding am_inv_def by auto
  qed (use inv in \<open>auto simp: am_inv_def split: if_splits\<close>)
  moreover have "destroy_space b st = Some (Inr (), st')"
    using s a(1) by (simp add: destroy_space_def ret_def st'_def)
  ultimately show ?thesis
    using trans a(4) get by (auto simp: has_space_def bt_contains_def pt')
qed

text \<open>A store into a frame that is no table leaves every walk alone.\<close>

lemma data_store:
  fixes v :: u64
  assumes wf: "pt_wf E p2p lim R st" and f: "frame_ok lim f" "f \<notin> tables E p2p R (mem st)" and j: "j < ENTRIES"
  defines "st' \<equiv> store p2p st f j v"
  shows "pt_wf E p2p lim R st'" and "same_lookup E p2p R (mem st) (mem st')"
    and "tables E p2p R (mem st') = tables E p2p R (mem st)"
proof -
  have read: "read_entry p2p (mem st') t i = read_entry p2p (mem st) t i"
    if "r \<in> R" "path_ok 3 p" "walk E p2p (mem st) 0 p r = Some t" "i < ENTRIES" for r p t i
  proof -
    have "t \<noteq> f"
      using f(2) that unfolding tables_def by blast
    then show ?thesis
      using read_write [OF f(1) wf_table(1) [OF wf that(1-3)] j that(4)] by (simp add: st'_def store_def)
  qed
  have walks: "walk E p2p (mem st') 0 p r = walk E p2p (mem st) 0 p r" if "r \<in> R" "path_ok 3 p" for r p
  proof (rule walk_cong)
    fix k t
    assume "k < length p" "walk E p2p (mem st) 0 (take k p) r = Some t"
    then show "descend E (read_entry p2p (mem st') t (p ! k)) (0 + k) =
        descend E (read_entry p2p (mem st) t (p ! k)) (0 + k)"
      using read [OF that(1) path_ok_take [OF that(2)]] that(2) by (simp add: path_ok_def)
  qed
  show "tables E p2p R (mem st') = tables E p2p R (mem st)"
    by (rule tables_eqI) (rule walks)
  show "pt_wf E p2p lim R st'"
    using wf
  proof (rule pt_wf_sameI)
    show "read_entry p2p (mem st') t i = read_entry p2p (mem st) t i \<or>
        \<not> is_block_leaf E (read_entry p2p (mem st') t i) (length p)"
      if "r \<in> R" "path_ok 1 p" "i < ENTRIES" "walk E p2p (mem st) 0 p r = Some t" for r p t i
      using read [OF that(1) path_ok_mono [OF that(2), of 3] that(4,3)] by simp
  qed (use wf walks in \<open>auto simp: st'_def pt_wf_def\<close>)
  show "same_lookup E p2p R (mem st) (mem st')"
    unfolding same_lookup_def
  proof (intro ballI allI impI)
    fix r ix
    assume r: "r \<in> R" and ix: "ix_ok ix"
    show "lookup E p2p (mem st') r ix = lookup E p2p (mem st) r ix"
      by (rule lookup_eqI [OF ix])
        (simp_all add: walks [OF r ix_ok_take [OF ix]] read [OF r ix_ok_take [OF ix]] ix_ok_nth [OF ix])
  qed
qed

lemma slot_index_less: "unat (pa :: u64) mod FRAME_SIZE div 8 < ENTRIES"
proof -
  have "unat pa mod 4096 < 4096" by simp
  then show ?thesis
    by (simp add: FRAME_SIZE_def ENTRIES_def INDEX_BITS_def)
qed

lemma user_store_inv:
  assumes inv: "am_inv E p2p lim X st"
  shows "am_inv E p2p lim X (user_store E p2p b virt v st)"
    and "manager_translate E p2p (user_store E p2p b virt v st) = manager_translate E p2p st"
proof -
  have "am_inv E p2p lim X (user_store E p2p b virt v st) \<and>
    manager_translate E p2p (user_store E p2p b virt v st) = manager_translate E p2p st"
  proof (cases "manager_translate E p2p st b virt")
    case None
    then show ?thesis using inv by (simp add: user_store_def)
  next
    case (Some pa)
    let ?f = "frame_containing pa" and ?j = "unat pa mod FRAME_SIZE div 8"
    define pt where "pt = store p2p (am_pt st) ?f ?j v"
    have "?f \<in> data_frames st b \<union> X"
      using inv Some by (simp add: am_inv_def)
    then have f: "frame_ok lim ?f" "?f \<notin> tables E p2p (roots st) (mem (am_pt st))"
      using inv unfolding am_inv_def by blast+
    have wf: "pt_wf E p2p lim (roots st) (am_pt st)"
      using inv by (simp add: am_inv_def)
    note ds = data_store [OF wf f slot_index_less [of pa], where v = v, folded pt_def]
    have fa: "fa pt = fa (am_pt st)" by (simp add: pt_def)
    have trans: "manager_translate E p2p (st\<lparr>am_pt := pt\<rparr>) b' w = manager_translate E p2p st b' w" for b' w
    proof (cases "bt_get (spaces st) b'")
      case (Some s)
      then show ?thesis
        using ds(2) root_of_in_roots [OF Some] ix_ok_indices
        by (simp add: manager_translate_lookup same_lookup_def)
    qed (simp add: manager_translate_def)
    have "am_inv E p2p lim X (st\<lparr>am_pt := pt\<rparr>)"
      using inv ds(1,3) unfolding am_inv_def by (simp add: trans fa)
    moreover have "user_store E p2p b virt v st = st\<lparr>am_pt := pt\<rparr>"
      using Some by (simp add: user_store_def pt_def)
    ultimately show ?thesis
      using trans by (simp add: fun_eq_iff)
  qed
  then show "am_inv E p2p lim X (user_store E p2p b virt v st)"
    "manager_translate E p2p (user_store E p2p b virt v st) = manager_translate E p2p st"
    by simp_all
qed

end

section \<open>Reachable states\<close>

text \<open>
  The states the manager can reach from \<open>st0\<close>: any sequence of its operations, successful or
  not, interleaved with stores by the boundaries. \<open>map_existing\<close> is called on aligned physical
  ranges inside \<open>X\<close>.
\<close>

inductive am_reach :: "encoder \<Rightarrow> ptr_map \<Rightarrow> nat \<Rightarrow> phys_frame set \<Rightarrow> am_state \<Rightarrow> am_state \<Rightarrow> bool"
  for E p2p lim X st0 where
  reach_start: "am_reach E p2p lim X st0 st0"
| reach_create: "am_reach E p2p lim X st0 st \<Longrightarrow> create_space p2p b st = Some (r, st') \<Longrightarrow>
    am_reach E p2p lim X st0 st'"
| reach_map_new: "am_reach E p2p lim X st0 st \<Longrightarrow> map_new_pages E p2p b virt count perms st = Some (r, st') \<Longrightarrow>
    am_reach E p2p lim X st0 st'"
| reach_map_existing: "am_reach E p2p lim X st0 st \<Longrightarrow> take_bit 12 phys = 0 \<Longrightarrow>
    unat phys div FRAME_SIZE + count \<le> lim \<Longrightarrow> range_frames phys count \<subseteq> X \<Longrightarrow>
    map_existing E p2p b virt phys count perms st = Some (r, st') \<Longrightarrow> am_reach E p2p lim X st0 st'"
| reach_destroy: "am_reach E p2p lim X st0 st \<Longrightarrow> destroy_space b st = Some (r, st') \<Longrightarrow>
    am_reach E p2p lim X st0 st'"
| reach_store: "am_reach E p2p lim X st0 st \<Longrightarrow> am_reach E p2p lim X st0 (user_store E p2p b virt v st)"

context paged_memory
begin

lemma map_new_pages_inv:
  assumes "am_inv E p2p lim X st"
  shows "\<exists>r st'. map_new_pages E p2p b virt count perms st = Some (r, st') \<and> am_inv E p2p lim X st'"
  using assms map_new_loop_spec [OF assms]
  by (cases "bt_get (spaces st) b") (force simp: map_new_pages_def throw_def)+

lemma destroy_unknown: "bt_get (spaces st) b = None \<Longrightarrow> destroy_space b st = Some (Inl UnknownContainer, st)"
  by (simp add: destroy_space_def throw_def)

lemma am_reach_inv:
  assumes "am_reach E p2p lim X st0 st" "am_inv E p2p lim X st0"
  shows "am_inv E p2p lim X st"
  using assms
proof (induction rule: am_reach.induct)
  case reach_start
  then show ?case .
next
  case (reach_create st b r st')
  then show ?case
    using create_space_inv [of X st b] by auto
next
  case (reach_map_new st b virt count perms r st')
  then show ?case
    using map_new_pages_inv [of X st b virt count perms] by auto
next
  case (reach_map_existing st phys count b virt perms r st')
  then show ?case
    using map_existing_inv [of X st phys count b virt perms] by auto
next
  case (reach_destroy st b r st')
  then show ?case
    using destroy_space_inv [of X st b] destroy_unknown [of st b] by (cases "bt_get (spaces st) b") auto
next
  case (reach_store st b virt v)
  then show ?case
    using user_store_inv(1) by blast
qed

lemma am_inv_new:
  assumes "fa_inv (fa pt)" "frame_count (fa pt) \<le> lim"
    "\<And>f. f \<in> X \<Longrightarrow> frame_ok lim f \<and> frame_index f \<notin> free_set (fa pt)"
  shows "am_inv E p2p lim X (manager_new pt)"
  using assms
  by (simp add: am_inv_def manager_new_def pt_wf_def roots_def root_of_def tables_def data_frames_def
      manager_translate_def)

end

end
