(* ===== verification/Paging_Properties.thy ===== *)
theory Paging_Properties
  imports Address_Space
begin

unbundle bit_operations_syntax

text \<open>
  What the page tables and the address space manager guarantee: the three hardware encoders meet
  the contract of the portable code, \<open>map\<close> and \<open>map_range\<close> change exactly the translations they
  are asked to, and boundaries stay isolated over every sequence of manager operations and user
  stores. The witnesses run on an x86-64 memory of sixteen frames, two of them reserved.
\<close>

section \<open>A small memory\<close>

definition demo_fa :: "nat \<Rightarrow> alloc_state" where
  "demo_fa n = \<lparr>bitmap = [NOT (mask 16) OR mask n], frame_count = 16, allocated = n, usable = 14, next_hint = n\<rparr>"

definition demo_pt :: pt_state where
  "demo_pt = \<lparr>mem = (\<lambda>_. 0), fa = demo_fa 2\<rparr>"

lemma demo_fa_init:
  "from_regions [\<lparr>base = 0x2000, region_length = 0xE000, kind = Usable\<rparr>] 0x2000 = Some (demo_fa 2)"
  by (simp add: frame_eval demo_fa_def mask_eq_exp_minus_1)

lemma demo_fa_inv: "fa_inv (demo_fa 2)"
  using from_regions_inv [OF demo_fa_init] by (simp add: demo_fa_def)

lemma demo_pt_fa: "fa_inv (fa demo_pt)" "frame_count (fa demo_pt) \<le> 2 ^ 40"
  using demo_fa_inv by (simp_all add: demo_pt_def) (simp add: demo_fa_def)

lemma demo_allocate:
  assumes "n < 16"
  shows "allocate (demo_fa n) = Some (Inr (frame_from_index n), demo_fa (Suc n))"
proof -
  have "mask_bit n OR (NOT (mask 16) OR mask n) = (NOT (mask 16) OR mask (Suc n) :: u64)"
    by (rule bit_eqI) (auto simp: bitmap_simps bit_or_iff bit_not_iff bit_mask_iff less_Suc_eq)
  then show ?thesis
    using assms
    by (simp add: allocate_def demo_fa_def upt_rec [of n] bit_test_def idx_def bitmap_simps bit_or_iff
        bit_not_iff bit_mask_iff bit_mark_def idx_update_def Let_def or.commute)
qed

lemma demo_allocate_zeroed:
  "n < 16 \<Longrightarrow> allocate_zeroed identity_map \<lparr>mem = m, fa = demo_fa n\<rparr> =
     Some (Inr (frame_from_index n), \<lparr>mem = zero_frame (of_nat n * 0x1000) m, fa = demo_fa (Suc n)\<rparr>)"
  by (simp add: allocate_zeroed_def demo_allocate frame_from_index_def identity_map_def FRAME_SIZE_def)

lemma x86_eval:
  "encode_table x86_encoder c = frame_addr c AND X86_ADDR_MASK OR 7"
  "encode_leaf x86_encoder c p = frame_addr c AND X86_ADDR_MASK OR 1 OR x86_flags p"
  "is_present x86_encoder e \<longleftrightarrow> e AND 1 \<noteq> 0"
  "is_block_leaf x86_encoder e l \<longleftrightarrow> e AND 1 \<noteq> 0 \<and> e AND 128 \<noteq> 0"
  "entry_frame x86_encoder e = frame_containing (e AND X86_ADDR_MASK)"
  by (simp_all add: x86_encoder_def)

lemmas demo_eval =
  demo_pt_def demo_allocate_zeroed map_page_def LEVELS_def bindE_def Let_def write_entry_def read_entry_def
  zero_frame_def entry_ptr_def identity_map_def FRAME_SIZE_def ret_def frame_from_index_def
  x86_eval X86_ADDR_MASK_def x86_flags_def user_rw_def frame_containing_def indices_eq

definition demo_run :: "unit am_action" where
  "demo_run =
     bindE (create_space identity_map (BoundaryId 1)) (\<lambda>_.
     bindE (create_space identity_map (BoundaryId 2)) (\<lambda>_.
     bindE (map_new_pages x86_encoder identity_map (BoundaryId 1) 0x400000 1 user_rw) (\<lambda>_.
       map_new_pages x86_encoder identity_map (BoundaryId 2) 0x400000 1 user_rw)))"


text \<open>The run succeeds: both boundaries have their own page at the same virtual address.\<close>

lemma demo_run_ok:
  "\<exists>st. demo_run (manager_new demo_pt) = Some (Inr (), st) \<and>
    manager_translate x86_encoder identity_map st (BoundaryId 1) 0x400008 = Some 0x4008 \<and>
    manager_translate x86_encoder identity_map st (BoundaryId 2) 0x400008 = Some 0x8008"
  by (simp add: demo_run_def manager_new_def create_space_def address_space_new_def map_new_pages_def
      on_pt_def insert_space_def push_frame_def bt_contains_def bt_get_def less_boundary_id_def
      manager_translate_def translate_def demo_eval)

section \<open>Page tables\<close>

text \<open>
  C5. The x86-64, AArch64 and Sv48 encoders meet the contract the portable page-table code
  relies on, for all frames below 2^52, 2^48 and 2^56 bytes: a zero entry is absent, table, leaf
  and block entries give back the frame they were made from, and blocks are told from tables.
\<close>

theorem encoders_meet_contract:
  "page_table_encoder x86_encoder (2 ^ 40) \<and>
   page_table_encoder aarch64_encoder (2 ^ 36) \<and>
   page_table_encoder sv48_encoder (2 ^ 44)"
  using x86.page_table_encoder_axioms aarch64.page_table_encoder_axioms sv48.page_table_encoder_axioms
  by simp

text \<open>An address space with an empty root table in the small memory.\<close>

definition demo_space :: pt_state where
  "demo_space = \<lparr>mem = zero_frame 0x2000 (\<lambda>_. 0), fa = demo_fa 3\<rparr>"

lemma demo_pt_wf: "pt_wf x86_encoder identity_map (2 ^ 40) {} demo_pt"
  using demo_fa_inv by (simp add: pt_wf_def tables_def demo_pt_def demo_fa_def)

lemma demo_space_wf: "pt_wf x86_encoder identity_map (2 ^ 40) {PhysFrame 0x2000} demo_space"
proof -
  have "allocate_zeroed identity_map demo_pt = Some (Inr (PhysFrame 0x2000), demo_space)"
    by (simp add: demo_pt_def demo_space_def demo_allocate_zeroed frame_from_index_def FRAME_SIZE_def)
  from x86_mem.new_root(1) [OF demo_pt_wf this] show ?thesis .
qed


text \<open>
  C7. \<open>map_range\<close> of \<open>count\<close> pages from an aligned physical address never panics. Translations that
  existed stay as they are, no other address space changes, and every new translation leads into
  the given physical range. On success all \<open>count\<close> pages are mapped, offset by offset, whichever
  mixture of 2 MiB blocks and 4 KiB pages the loop chose.
\<close>

theorem map_range_correct:
  assumes "paged_memory E lim p2p" "pt_wf E p2p lim R st" "root space \<in> R"
    and "take_bit 12 phys = 0" "unat phys div FRAME_SIZE + count \<le> lim"
  shows "case map_range E p2p space virt phys count perms st of
      None \<Rightarrow> False
    | Some (res, st') \<Rightarrow>
        pt_wf E p2p lim R st' \<and>
        (\<forall>sp v. root sp \<in> R \<longrightarrow> root sp \<noteq> root space \<or> translate E p2p (mem st) sp v \<noteq> None \<longrightarrow>
           translate E p2p (mem st') sp v = translate E p2p (mem st) sp v) \<and>
        (\<forall>v pa. translate E p2p (mem st) space v = None \<longrightarrow> translate E p2p (mem st') space v = Some pa \<longrightarrow>
           frame_containing pa \<in> range_frames phys count) \<and>
        (res = Inr () \<longrightarrow> (\<forall>j < count. \<forall>x. unat x < 2 ^ 12 \<longrightarrow>
           translate E p2p (mem st') space (virt + of_nat j * of_nat FRAME_SIZE + x) =
           Some (phys + of_nat j * of_nat FRAME_SIZE + x)))"
proof -
  obtain res st' where run: "map_range E p2p space virt phys count perms st = Some (res, st')"
    and ext: "extends E p2p lim R (root space) st st'"
    and new: "in_range E p2p space phys count (mem st) (mem st')"
    and ok: "\<And>j. res = Inr () \<Longrightarrow> j < count \<Longrightarrow> page_mapped E p2p space virt phys (mem st') j"
    using paged_memory.map_range_from_spec [OF assms, of virt perms 0] by (auto simp: map_range_def)
  have "translate E p2p (mem st') sp v = translate E p2p (mem st) sp v"
    if "root sp \<in> R" "root sp \<noteq> root space \<or> translate E p2p (mem st) sp v \<noteq> None" for sp v
    using ext that ix_ok_indices [of v] by (simp add: extends_def translate_lookup)
  moreover have "frame_containing pa \<in> range_frames phys count"
    if "translate E p2p (mem st) space v = None" "translate E p2p (mem st') space v = Some pa" for v pa
    using new that unfolding in_range_def by force
  moreover have "pt_wf E p2p lim R st'"
    using ext by (simp add: extends_def pt_grow_def)
  ultimately show ?thesis
    using run ok by (auto simp: page_mapped_def)
qed

theorem map_range_correct_witness:
  "\<exists>st'. map_range x86_encoder identity_map \<lparr>root = PhysFrame 0x2000\<rparr> 0x400000 0x200000 513 user_rw
      demo_space = Some (Inr (), st') \<and>
    translate x86_encoder identity_map (mem st') \<lparr>root = PhysFrame 0x2000\<rparr> 0x5FF008 = Some 0x3FF008 \<and>
    translate x86_encoder identity_map (mem st') \<lparr>root = PhysFrame 0x2000\<rparr> 0x600008 = Some 0x400008"
proof -
  have "map_option fst (map_range x86_encoder identity_map \<lparr>root = PhysFrame 0x2000\<rparr> 0x400000 0x200000 513 user_rw
      demo_space) = Some (Inr ())"
    by (simp add: demo_eval demo_space_def map_range_def map_range_from.simps map_block_2m_def BLOCK_2M_def
        ENTRIES_def INDEX_BITS_def)
  then obtain st' where run: "map_range x86_encoder identity_map \<lparr>root = PhysFrame 0x2000\<rparr> 0x400000 0x200000 513 user_rw
      demo_space = Some (Inr (), st')"
    by auto
  have mapped: "translate x86_encoder identity_map (mem st') \<lparr>root = PhysFrame 0x2000\<rparr>
      (0x400000 + of_nat j * of_nat FRAME_SIZE + x) = Some (0x200000 + of_nat j * of_nat FRAME_SIZE + x)"
    if "j < 513" "unat x < 2 ^ 12" for j and x :: u64
    using map_range_correct [OF x86_mem.paged_memory_axioms demo_space_wf,
        where space = "\<lparr>root = PhysFrame 0x2000\<rparr>" and phys = "0x200000" and count = 513 and virt = "0x400000" and perms = user_rw]
      run that by (simp add: FRAME_SIZE_def)
  show ?thesis
    using run mapped [of 511 8] mapped [of 512 8] by (simp add: FRAME_SIZE_def)
qed

section \<open>Address spaces of boundaries\<close>

text \<open>
  C8. Isolation. Start from an empty manager over a well-formed allocator and let any sequence of
  \<open>create_space\<close>, \<open>map_new_pages\<close>, \<open>map_existing\<close> (into the frames \<open>X\<close>, which are not free) and
  \<open>destroy_space\<close> run, successful or not, interleaved with stores by the boundaries themselves.
  Then no address a boundary can translate lies in a page table or in a free frame, and a frame
  that two boundaries can both reach was handed out explicitly through \<open>X\<close>.
\<close>

theorem boundaries_isolated:
  assumes "paged_memory E lim p2p" "fa_inv (fa pt)" "frame_count (fa pt) \<le> lim"
    and "\<forall>f \<in> X. frame_ok lim f \<and> frame_index f \<notin> free_set (fa pt)"
    and "am_reach E p2p lim X (manager_new pt) st"
    and "manager_translate E p2p st b virt = Some pa"
  shows "frame_containing pa \<notin> tables E p2p (roots st) (mem (am_pt st)) \<and>
    frame_index (frame_containing pa) \<notin> free_set (fa (am_pt st)) \<and>
    (\<forall>b' virt' pa'. b' \<noteq> b \<longrightarrow> manager_translate E p2p st b' virt' = Some pa' \<longrightarrow>
       frame_containing pa' = frame_containing pa \<longrightarrow> frame_containing pa \<in> X)"
proof -
  have inv: "am_inv E p2p lim X st"
    using paged_memory.am_reach_inv [OF assms(1,5)] paged_memory.am_inv_new [OF assms(1-3)] assms(4) by blast
  have own: "frame_containing pa \<in> data_frames st b \<union> X" if "manager_translate E p2p st b virt = Some pa" for b virt pa
    using inv that by (simp add: am_inv_def)
  have f: "frame_containing pa \<in> data_frames st b \<union> X"
    by (rule own) fact
  then have "frame_containing pa \<notin> tables E p2p (roots st) (mem (am_pt st))"
    and "frame_index (frame_containing pa) \<notin> free_set (fa (am_pt st))"
    using inv unfolding am_inv_def by blast+
  moreover have "frame_containing pa \<in> X"
    if "b' \<noteq> b" "manager_translate E p2p st b' virt' = Some pa'" "frame_containing pa' = frame_containing pa"
    for b' virt' pa'
  proof -
    have "data_frames st b' \<inter> data_frames st b = {}"
      using inv that(1) by (simp add: am_inv_def)
    then show ?thesis
      using own [OF that(2)] f that(3) by auto
  qed
  ultimately show ?thesis by blast
qed

lemma demo_run_reach:
  assumes "demo_run st0 = Some (Inr (), st)"
  shows "am_reach x86_encoder identity_map (2 ^ 40) X st0 st"
  using assms unfolding demo_run_def
  by (elim bindE_cases) (simp_all only: sum.distinct,
      rule reach_map_new [OF reach_map_new [OF reach_create [OF reach_create [OF reach_start]]]])

theorem boundaries_isolated_witness:
  "\<exists>st. am_reach x86_encoder identity_map (2 ^ 40) {} (manager_new demo_pt) st \<and>
     manager_translate x86_encoder identity_map st (BoundaryId 1) 0x400008 = Some 0x4008 \<and>
     (\<forall>virt' pa'. manager_translate x86_encoder identity_map st (BoundaryId 2) virt' = Some pa' \<longrightarrow>
        frame_containing pa' \<noteq> frame_containing 0x4008)"
proof -
  obtain st where st: "demo_run (manager_new demo_pt) = Some (Inr (), st)"
    "manager_translate x86_encoder identity_map st (BoundaryId 1) 0x400008 = Some 0x4008"
    using demo_run_ok by blast
  note reach = demo_run_reach [OF st(1), of "{}"]
  have "frame_containing pa' \<noteq> frame_containing 0x4008"
    if "manager_translate x86_encoder identity_map st (BoundaryId 2) virt' = Some pa'" for virt' pa'
  proof -
    have "\<forall>f \<in> {}. frame_ok (2 ^ 40) f \<and> frame_index f \<notin> free_set (fa demo_pt)" by simp
    from boundaries_isolated [OF x86_mem.paged_memory_axioms demo_pt_fa this reach st(2)]
    show ?thesis
      using that by (auto dest!: spec [of _ "BoundaryId 2"])
  qed
  then show ?thesis
    using reach st(2) by blast
qed

lemma manager_translate_frame:
  assumes "am_inv E p2p lim X st" "bt_get (spaces st) b = Some s"
    "loop_frame E p2p lim b (root (bs_space s)) st st'" "b' \<noteq> b"
  shows "manager_translate E p2p st' b' v = manager_translate E p2p st b' v"
proof (cases "bt_get (spaces st) b'")
  case None
  then show ?thesis
    using assms(3,4) by (simp add: manager_translate_def loop_frame_def)
next
  case (Some s')
  have "root (bs_space s') \<noteq> root (bs_space s)"
    using assms(1,2,4) Some by (auto simp: am_inv_def root_of_def)
  then show ?thesis
    using assms(3,4) Some root_of_in_roots [OF Some] ix_ok_indices [of v]
    by (simp add: loop_frame_def extends_def manager_translate_lookup)
qed

text \<open>
  C9. \<open>map_new_pages\<close> for a boundary with a space never panics. On success it appends \<open>count\<close>
  distinct frames, taken from the free set, to the boundary's frames; page \<open>i\<close> of the range
  translates into the \<open>i\<close>-th of them and reads as zeroes, so no data of an earlier owner shows.
  No translation of another boundary changes, successful or not.
\<close>

theorem map_new_pages_fresh:
  assumes "paged_memory E lim p2p" "am_inv E p2p lim X st" "bt_get (spaces st) b = Some s"
  shows "case map_new_pages E p2p b virt count perms st of
      None \<Rightarrow> False
    | Some (r, st') \<Rightarrow>
        am_inv E p2p lim X st' \<and>
        (\<forall>b' v. b' \<noteq> b \<longrightarrow> manager_translate E p2p st' b' v = manager_translate E p2p st b' v) \<and>
        (r = Inr () \<longrightarrow> (\<exists>s' fs. bt_get (spaces st') b = Some s' \<and> mapped_frames s' = mapped_frames s @ fs \<and>
           length fs = count \<and> distinct fs \<and> (\<forall>c \<in> set fs. frame_index c \<in> free_set (fa (am_pt st))) \<and>
           (\<forall>i < count.
              (\<forall>x. unat x < 2 ^ 12 \<longrightarrow>
                 manager_translate E p2p st' b (virt + of_nat i * of_nat FRAME_SIZE + x) =
                 Some (frame_addr (fs ! i) + x)) \<and>
              (\<forall>j < ENTRIES. read_entry p2p (mem (am_pt st')) (fs ! i) j = 0))))"
proof -
  obtain r st' s' where run: "map_new_pages E p2p b virt count perms st = Some (r, st')"
    and inv: "am_inv E p2p lim X st'" and lf: "loop_frame E p2p lim b (root (bs_space s)) st st'"
    and s': "bt_get (spaces st') b = Some s'" "bs_space s' = bs_space s"
    and res: "r = Inr () \<Longrightarrow> loop_result E p2p virt [0 ..< count] st s st' s'"
    using paged_memory.map_new_loop_spec [OF assms, of virt perms "[0 ..< count]"] assms(3)
    by (auto simp: map_new_pages_def)
  have "manager_translate E p2p st' b' v = manager_translate E p2p st b' v" if "b' \<noteq> b" for b' v
    by (rule manager_translate_frame [OF assms(2) assms(3) lf that])
  moreover have "\<exists>fs. mapped_frames s' = mapped_frames s @ fs \<and>
           length fs = count \<and> distinct fs \<and> (\<forall>c \<in> set fs. frame_index c \<in> free_set (fa (am_pt st))) \<and>
           (\<forall>i < count.
              (\<forall>x. unat x < 2 ^ 12 \<longrightarrow>
                 manager_translate E p2p st' b (virt + of_nat i * of_nat FRAME_SIZE + x) =
                 Some (frame_addr (fs ! i) + x)) \<and>
              (\<forall>j < ENTRIES. read_entry p2p (mem (am_pt st')) (fs ! i) j = 0))" if r: "r = Inr ()"
  proof -
    from res [OF r] obtain fs where fs: "mapped_frames s' = mapped_frames s @ fs" "distinct fs"
      "\<forall>c \<in> set fs. frame_index c \<in> free_set (fa (am_pt st))"
      and fresh: "list_all2 (\<lambda>i c. fresh_page E p2p (bs_space s) (mem (am_pt st'))
         (virt + of_nat i * of_nat FRAME_SIZE) c) [0 ..< count] fs"
      unfolding loop_result_def by blast
    have len: "length fs = count"
      using list_all2_lengthD [OF fresh] by simp
    have "fresh_page E p2p (bs_space s) (mem (am_pt st')) (virt + of_nat i * of_nat FRAME_SIZE) (fs ! i)"
      if "i < count" for i
      using list_all2_nthD [OF fresh, of i] that by simp
    then show ?thesis
      using fs len s' by (intro exI [of _ fs]) (auto simp: fresh_page_def manager_translate_def)
  qed
  ultimately show ?thesis
    using run inv s'(1) by auto
qed
theorem map_new_pages_fresh_witness:
  "\<exists>st st' s' c. am_inv x86_encoder identity_map (2 ^ 40) {} st \<and>
     map_new_pages x86_encoder identity_map (BoundaryId 1) 0x400000 1 user_rw st = Some (Inr (), st') \<and>
     bt_get (spaces st') (BoundaryId 1) = Some s' \<and> mapped_frames s' = [c] \<and>
     manager_translate x86_encoder identity_map st' (BoundaryId 1) 0x400008 = Some (frame_addr c + 8)"
proof -
  let ?sp = "\<lparr>bs_space = \<lparr>root = PhysFrame 0x2000\<rparr>, mapped_frames = []\<rparr>"
  define st where "st = \<lparr>am_pt = demo_space, spaces = [(BoundaryId 1, ?sp)]\<rparr>"
  have st: "create_space identity_map (BoundaryId 1) (manager_new demo_pt) = Some (Inr (), st)"
    "bt_get (spaces st) (BoundaryId 1) = Some ?sp"
    by (simp_all add: st_def manager_new_def create_space_def address_space_new_def on_pt_def insert_space_def
        bt_contains_def bt_get_def demo_pt_def demo_space_def demo_allocate_zeroed bindE_def ret_def
        frame_from_index_def FRAME_SIZE_def)
  have run: "map_option fst (map_new_pages x86_encoder identity_map (BoundaryId 1) 0x400000 1 user_rw st) = Some (Inr ())"
    by (simp add: st_def demo_space_def map_new_pages_def on_pt_def push_frame_def bt_get_def demo_eval)
  have "am_inv x86_encoder identity_map (2 ^ 40) {} st"
    using x86_mem.create_space_inv [OF x86_mem.am_inv_new [OF demo_pt_fa], of "{}" "BoundaryId 1"] st(1) by simp
  from map_new_pages_fresh [OF x86_mem.paged_memory_axioms this st(2),
      where virt = "0x400000" and count = 1 and perms = user_rw] run
  obtain st' s' fs where st': "map_new_pages x86_encoder identity_map (BoundaryId 1) 0x400000 1 user_rw st = Some (Inr (), st')"
    "bt_get (spaces st') (BoundaryId 1) = Some s'" "mapped_frames s' = fs" "length fs = 1"
    and tr: "\<forall>x. unat x < 2 ^ 12 \<longrightarrow>
      manager_translate x86_encoder identity_map st' (BoundaryId 1) (0x400000 + x) = Some (frame_addr (fs ! 0) + x)"
    by (auto split: option.splits)
  from st'(4) have "fs = [fs ! 0]"
    by (cases fs) auto
  with st' spec [OF tr, of 8] \<open>am_inv _ _ _ _ st\<close> show ?thesis
    by (intro exI [of _ st] exI [of _ st'] exI [of _ s'] exI [of _ "fs ! 0"]) simp
qed



end
