(* ===== verification/Bytes.thy ===== *)
theory Bytes
  imports Prelude
begin

unbundle bit_operations_syntax

text \<open>
  Byte strings: Rust's \<open>to_le_bytes\<close> and \<open>from_le_bytes\<close> with their big-endian counterparts,
  checked slicing, in-place copies and the standard library's UTF-8 validation. The round trips
  here carry every wire format of the development.
\<close>

named_theorems byte_simps \<open>encodings, slices and copies of byte strings\<close>

section \<open>Integers as bytes\<close>

definition to_le :: "nat \<Rightarrow> 'a::len word \<Rightarrow> u8 list" where
  "to_le n w = map (\<lambda>i. ucast (drop_bit (8 * i) w)) [0 ..< n]"

fun from_le :: "u8 list \<Rightarrow> 'a::len word" where
  "from_le [] = 0"
| "from_le (b # bs) = ucast b OR push_bit 8 (from_le bs)"

definition to_be :: "nat \<Rightarrow> 'a::len word \<Rightarrow> u8 list" where
  "to_be n w = rev (to_le n w)"

definition from_be :: "u8 list \<Rightarrow> 'a::len word" where
  "from_be bs = from_le (rev bs)"

lemma length_to_le [simp, byte_simps]: "length (to_le n w) = n"
  by (simp add: to_le_def)

lemma length_to_be [simp, byte_simps]: "length (to_be n w) = n"
  by (simp add: to_be_def)

lemma bit_from_le:
  "bit (from_le bs :: 'a::len word) i \<longleftrightarrow>
     i < LENGTH('a) \<and> i div 8 < length bs \<and> bit (bs ! (i div 8)) (i mod 8)"
proof (induction bs arbitrary: i)
  case Nil
  then show ?case by simp
next
  case (Cons b bs)
  show ?case
  proof (cases "i < 8")
    case True
    then show ?thesis
      by (auto simp: bit_or_iff bit_push_bit_iff bit_ucast_iff)
  next
    case False
    then obtain j where i: "i = j + 8"
      by (metis add.commute le_Suc_ex not_less)
    have "\<not> bit b i"
      using bit_imp_le_length [of b i] False by auto
    moreover have "(j + 8) div 8 = Suc (j div 8)" "(j + 8) mod 8 = j mod 8"
      by simp_all
    ultimately show ?thesis
      using Cons.IH [of j] by (auto simp: i bit_or_iff bit_push_bit_iff bit_ucast_iff)
  qed
qed

lemma from_le_to_le [byte_simps]:
  assumes "LENGTH('a) = 8 * n"
  shows "from_le (to_le n w) = (w :: 'a::len word)"
proof (rule bit_word_eqI)
  fix i
  assume "i < LENGTH('a)"
  with assms have "i div 8 < n" by (simp add: div_less_iff_less_mult mult.commute)
  then show "bit (from_le (to_le n w) :: 'a word) i = bit w i"
    using \<open>i < LENGTH('a)\<close> by (simp add: bit_from_le to_le_def bit_ucast_iff bit_drop_bit_eq)
qed

lemma to_le_from_le [byte_simps]:
  assumes "LENGTH('a) = 8 * n" "length bs = n"
  shows "to_le n (from_le bs :: 'a::len word) = bs"
proof (rule nth_equalityI)
  show "length (to_le n (from_le bs :: 'a word)) = length bs"
    using assms by simp
  fix k
  assume "k < length (to_le n (from_le bs :: 'a word))"
  then have k: "k < n" by simp
  show "to_le n (from_le bs :: 'a word) ! k = bs ! k"
  proof (rule bit_word_eqI)
    fix i
    assume i: "i < LENGTH(8)"
    with k have "8 * k + i < 8 * n" by simp
    moreover have "(8 * k + i) div 8 = k" "(8 * k + i) mod 8 = i"
      using i by simp_all
    ultimately show "bit (to_le n (from_le bs :: 'a word) ! k) i = bit (bs ! k) i"
      using k i assms by (simp add: to_le_def bit_ucast_iff bit_drop_bit_eq bit_from_le)
  qed
qed

lemma from_be_to_be [byte_simps]: "LENGTH('a) = 8 * n \<Longrightarrow> from_be (to_be n w) = (w :: 'a::len word)"
  by (simp add: from_be_def to_be_def from_le_to_le)

lemma to_be_from_be [byte_simps]:
  "LENGTH('a) = 8 * n \<Longrightarrow> length bs = n \<Longrightarrow> to_be n (from_be bs :: 'a::len word) = bs"
  by (simp add: from_be_def to_be_def to_le_from_le)

section \<open>Slices and copies\<close>

text \<open>
  \<open>&b[a..e]\<close>, which panics unless \<open>a \<le> e \<le> len\<close>, and \<open>b[a..a + n].copy_from_slice(xs)\<close>, which
  panics when the destination leaves the buffer.
\<close>

definition slice :: "'a list \<Rightarrow> nat \<Rightarrow> nat \<Rightarrow> 'a list option" where
  "slice b a e = (if a \<le> e \<and> e \<le> length b then Some (take (e - a) (drop a b)) else None)"

definition splice_at :: "nat \<Rightarrow> 'a list \<Rightarrow> 'a list \<Rightarrow> 'a list option" where
  "splice_at a xs b =
     (if a + length xs \<le> length b then Some (take a b @ xs @ drop (a + length xs) b) else None)"

lemma slice_in_range [simp]: "a \<le> e \<Longrightarrow> e \<le> length b \<Longrightarrow> slice b a e = Some (take (e - a) (drop a b))"
  by (simp add: slice_def)

lemma splice_at_in_range [simp]:
  "a + length xs \<le> length b \<Longrightarrow> splice_at a xs b = Some (take a b @ xs @ drop (a + length xs) b)"
  by (simp add: splice_at_def)

section \<open>UTF-8\<close>

text \<open>
  \<open>core::str::from_utf8\<close> accepts exactly the well-formed sequences of the Unicode standard: no
  overlong forms, no surrogates, nothing above \<open>U+10FFFF\<close>. A \<open>&str\<close> is the list of its bytes.
\<close>

definition utf8_cont :: "u8 \<Rightarrow> bool" where
  "utf8_cont b \<longleftrightarrow> 0x80 \<le> b \<and> b \<le> 0xBF"

definition utf8_second :: "u8 \<Rightarrow> u8 \<Rightarrow> bool" where
  "utf8_second b0 b1 \<longleftrightarrow>
     (if b0 = 0xE0 then 0xA0 else if b0 = 0xF0 then 0x90 else 0x80) \<le> b1 \<and>
     b1 \<le> (if b0 = 0xED then 0x9F else if b0 = 0xF4 then 0x8F else 0xBF)"

function (sequential) utf8_valid :: "u8 list \<Rightarrow> bool" where
  "utf8_valid [] = True"
| "utf8_valid (b0 # bs) =
     (if b0 < 0x80 then utf8_valid bs
      else if 0xC2 \<le> b0 \<and> b0 \<le> 0xDF then
        (case bs of b1 # r \<Rightarrow> utf8_cont b1 \<and> utf8_valid r | _ \<Rightarrow> False)
      else if 0xE0 \<le> b0 \<and> b0 \<le> 0xEF then
        (case bs of b1 # b2 # r \<Rightarrow> utf8_second b0 b1 \<and> utf8_cont b2 \<and> utf8_valid r | _ \<Rightarrow> False)
      else if 0xF0 \<le> b0 \<and> b0 \<le> 0xF4 then
        (case bs of
           b1 # b2 # b3 # r \<Rightarrow> utf8_second b0 b1 \<and> utf8_cont b2 \<and> utf8_cont b3 \<and> utf8_valid r
         | _ \<Rightarrow> False)
      else False)"
  by pat_completeness auto
termination
  by (relation "measure length") auto

definition from_utf8 :: "u8 list \<Rightarrow> u8 list option" where
  "from_utf8 bs = (if utf8_valid bs then Some bs else None)"

lemma utf8_valid_ascii: "(\<And>b. b \<in> set bs \<Longrightarrow> b < 0x80) \<Longrightarrow> utf8_valid bs"
  by (induction bs) auto

text \<open>
  \<open>String::from_utf8_lossy\<close>: every maximal prefix of an ill-formed sequence becomes one replacement
  character \<open>U+FFFD\<close>.
\<close>

definition utf8_replacement :: "u8 list" where
  "utf8_replacement = [0xEF, 0xBF, 0xBD]"

function (sequential) from_utf8_lossy :: "u8 list \<Rightarrow> u8 list" where
  "from_utf8_lossy [] = []"
| "from_utf8_lossy (b0 # bs) =
     (if b0 < 0x80 then b0 # from_utf8_lossy bs
      else if 0xC2 \<le> b0 \<and> b0 \<le> 0xDF then
        (case bs of
           b1 # r \<Rightarrow> if utf8_cont b1 then b0 # b1 # from_utf8_lossy r else utf8_replacement @ from_utf8_lossy bs
         | [] \<Rightarrow> utf8_replacement)
      else if 0xE0 \<le> b0 \<and> b0 \<le> 0xEF then
        (case bs of
           b1 # b2 # r \<Rightarrow>
             if \<not> utf8_second b0 b1 then utf8_replacement @ from_utf8_lossy bs
             else if \<not> utf8_cont b2 then utf8_replacement @ from_utf8_lossy (b2 # r)
             else b0 # b1 # b2 # from_utf8_lossy r
         | [b1] \<Rightarrow> if utf8_second b0 b1 then utf8_replacement else utf8_replacement @ from_utf8_lossy bs
         | [] \<Rightarrow> utf8_replacement)
      else if 0xF0 \<le> b0 \<and> b0 \<le> 0xF4 then
        (case bs of
           b1 # b2 # b3 # r \<Rightarrow>
             if \<not> utf8_second b0 b1 then utf8_replacement @ from_utf8_lossy bs
             else if \<not> utf8_cont b2 then utf8_replacement @ from_utf8_lossy (b2 # b3 # r)
             else if \<not> utf8_cont b3 then utf8_replacement @ from_utf8_lossy (b3 # r)
             else b0 # b1 # b2 # b3 # from_utf8_lossy r
         | [b1, b2] \<Rightarrow>
             if \<not> utf8_second b0 b1 then utf8_replacement @ from_utf8_lossy bs
             else if \<not> utf8_cont b2 then utf8_replacement @ from_utf8_lossy [b2]
             else utf8_replacement
         | [b1] \<Rightarrow> if utf8_second b0 b1 then utf8_replacement else utf8_replacement @ from_utf8_lossy bs
         | [] \<Rightarrow> utf8_replacement)
      else utf8_replacement @ from_utf8_lossy bs)"
  by pat_completeness auto
termination
  by (relation "measure length") auto

declare from_utf8_lossy.simps(2) [simp del]

text \<open>A Unicode scalar value, what \<open>char::from_u32\<close> accepts.\<close>

definition is_scalar :: "u32 \<Rightarrow> bool" where
  "is_scalar c \<longleftrightarrow> c < 0xD800 \<or> 0xE000 \<le> c \<and> c \<le> 0x10FFFF"

definition char_from_u32 :: "u32 \<Rightarrow> u32 option" where
  "char_from_u32 c = (if is_scalar c then Some c else None)"

end
