(* ===== verification/Serialization.thy ===== *)
theory Serialization
  imports Bytes Shared_Types
begin

unbundle bit_operations_syntax

text \<open>
  The bounds-checked byte cursors of \<open>shared/src/utils/serialization.rs\<close>. A writer is its buffer
  and position, a reader likewise. Writing a sequence of fields and reading it back is the
  identity; every failing primitive leaves the cursor where it was.
\<close>

section \<open>Writer\<close>

record byte_writer =
  w_buf :: "u8 list"
  w_pos :: nat

type_synonym writer_action = "(byte_writer, serialization_error, unit) action"

definition writer_new :: "u8 list \<Rightarrow> byte_writer" where
  "writer_new buf = \<lparr>w_buf = buf, w_pos = 0\<rparr>"

definition writer_remaining :: "byte_writer \<Rightarrow> nat" where
  "writer_remaining w = length (w_buf w) - w_pos w"

definition writer_ensure :: "nat \<Rightarrow> writer_action" where
  "writer_ensure need w =
     (if writer_remaining w < need then throw (BufferTooSmall need (writer_remaining w)) w else ret () w)"

definition put_u8 :: "u8 \<Rightarrow> writer_action" where
  "put_u8 v = bindE (writer_ensure 1) (\<lambda>_ w.
     case idx_update (w_buf w) (w_pos w) (\<lambda>_. v) of
       None \<Rightarrow> None
     | Some b \<Rightarrow> ret () (w\<lparr>w_buf := b, w_pos := w_pos w + 1\<rparr>))"

definition put_bytes :: "u8 list \<Rightarrow> writer_action" where
  "put_bytes bytes = bindE (writer_ensure (length bytes)) (\<lambda>_ w.
     case splice_at (w_pos w) bytes (w_buf w) of
       None \<Rightarrow> None
     | Some b \<Rightarrow> ret () (w\<lparr>w_buf := b, w_pos := w_pos w + length bytes\<rparr>))"

definition put_u16 :: "u16 \<Rightarrow> writer_action" where
  "put_u16 v = put_bytes (to_le 2 v)"

definition put_u32 :: "u32 \<Rightarrow> writer_action" where
  "put_u32 v = put_bytes (to_le 4 v)"

definition put_u64 :: "u64 \<Rightarrow> writer_action" where
  "put_u64 v = put_bytes (to_le 8 v)"

definition put_length_prefixed :: "u8 list \<Rightarrow> writer_action" where
  "put_length_prefixed bytes =
     (if length bytes < 2 ^ 32 then
        bindE (put_u32 (of_nat (length bytes))) (\<lambda>_. put_bytes bytes)
      else throw (InvalidValue ''length prefix''))"

definition written :: "byte_writer \<Rightarrow> u8 list option" where
  "written w = slice (w_buf w) 0 (w_pos w)"

section \<open>Reader\<close>

record byte_reader =
  r_buf :: "u8 list"
  r_pos :: nat

type_synonym 'a reader_action = "(byte_reader, serialization_error, 'a) action"

definition reader_new :: "u8 list \<Rightarrow> byte_reader" where
  "reader_new buf = \<lparr>r_buf = buf, r_pos = 0\<rparr>"

definition reader_remaining :: "byte_reader \<Rightarrow> nat" where
  "reader_remaining r = length (r_buf r) - r_pos r"

definition reader_ensure :: "nat \<Rightarrow> unit reader_action" where
  "reader_ensure need r = (if reader_remaining r < need then throw UnexpectedEnd r else ret () r)"

definition get_u8 :: "u8 reader_action" where
  "get_u8 = bindE (reader_ensure 1) (\<lambda>_ r.
     case idx (r_buf r) (r_pos r) of
       None \<Rightarrow> None
     | Some v \<Rightarrow> ret v (r\<lparr>r_pos := r_pos r + 1\<rparr>))"

definition get_slice :: "nat \<Rightarrow> u8 list reader_action" where
  "get_slice len = bindE (reader_ensure len) (\<lambda>_ r.
     case slice (r_buf r) (r_pos r) (r_pos r + len) of
       None \<Rightarrow> None
     | Some s \<Rightarrow> ret s (r\<lparr>r_pos := r_pos r + len\<rparr>))"

text \<open>\<open>get_into\<close> fills a caller's array of \<open>len\<close> bytes: the array is the result.\<close>

definition get_into :: "nat \<Rightarrow> u8 list reader_action" where
  "get_into len = bindE (reader_ensure len) (\<lambda>_ r.
     case slice (r_buf r) (r_pos r) (r_pos r + len) of
       None \<Rightarrow> None
     | Some s \<Rightarrow> ret s (r\<lparr>r_pos := r_pos r + len\<rparr>))"

definition get_u16 :: "u16 reader_action" where
  "get_u16 = bindE (get_into 2) (\<lambda>b. ret (from_le b))"

definition get_u32 :: "u32 reader_action" where
  "get_u32 = bindE (get_into 4) (\<lambda>b. ret (from_le b))"

definition get_u64 :: "u64 reader_action" where
  "get_u64 = bindE (get_into 8) (\<lambda>b. ret (from_le b))"

definition get_length_prefixed :: "u8 list reader_action" where
  "get_length_prefixed = bindE get_u32 (\<lambda>len. get_slice (unat len))"

section \<open>What a primitive does\<close>

definition writer_wf :: "byte_writer \<Rightarrow> bool" where
  "writer_wf w \<longleftrightarrow> w_pos w \<le> length (w_buf w)"

definition reader_wf :: "byte_reader \<Rightarrow> bool" where
  "reader_wf r \<longleftrightarrow> r_pos r \<le> length (r_buf r)"

text \<open>Appending \<open>bytes\<close> at the cursor.\<close>

definition emit :: "u8 list \<Rightarrow> byte_writer \<Rightarrow> byte_writer" where
  "emit bytes w = \<lparr>w_buf = take (w_pos w) (w_buf w) @ bytes @ drop (w_pos w + length bytes) (w_buf w),
     w_pos = w_pos w + length bytes\<rparr>"

named_theorems cursor_simps \<open>running a cursor primitive\<close>

lemma put_bytes_run [cursor_simps]:
  "writer_wf w \<Longrightarrow> put_bytes bytes w =
     Some (if length bytes \<le> writer_remaining w then (Inr (), emit bytes w)
           else (Inl (BufferTooSmall (length bytes) (writer_remaining w)), w))"
  by (auto simp: put_bytes_def bindE_def writer_ensure_def ret_def throw_def writer_remaining_def
      writer_wf_def emit_def)

lemma put_u8_eq_put_bytes: "writer_wf w \<Longrightarrow> put_u8 v w = put_bytes [v] w"
  by (auto simp: put_u8_def put_bytes_def bindE_def writer_ensure_def ret_def throw_def
      writer_remaining_def writer_wf_def upd_conv_take_nth_drop)

lemma writer_wf_new [simp]: "writer_wf (writer_new buf)"
  by (simp add: writer_new_def writer_wf_def)

lemma emit_wf: "writer_wf w \<Longrightarrow> length bytes \<le> writer_remaining w \<Longrightarrow> writer_wf (emit bytes w)"
  by (auto simp: writer_wf_def emit_def writer_remaining_def)

lemma emit_remaining:
  "writer_wf w \<Longrightarrow> length bytes \<le> writer_remaining w \<Longrightarrow>
   writer_remaining (emit bytes w) = writer_remaining w - length bytes"
  by (auto simp: writer_wf_def emit_def writer_remaining_def)

lemma emit_emit: "writer_wf w \<Longrightarrow> length (xs @ ys) \<le> writer_remaining w \<Longrightarrow> emit ys (emit xs w) = emit (xs @ ys) w"
  by (auto simp: writer_wf_def emit_def writer_remaining_def min_def ac_simps)

lemma emit_Nil: "writer_wf w \<Longrightarrow> emit [] w = w"
  by (simp add: emit_def writer_wf_def)

lemma get_into_eq_slice: "get_into len = get_slice len"
  by (simp add: get_into_def get_slice_def)

lemma get_slice_run [cursor_simps]:
  "reader_wf r \<Longrightarrow> get_slice len r =
     Some (if len \<le> reader_remaining r
           then (Inr (take len (drop (r_pos r) (r_buf r))), r\<lparr>r_pos := r_pos r + len\<rparr>)
           else (Inl UnexpectedEnd, r))"
  by (auto simp: get_slice_def bindE_def reader_ensure_def ret_def throw_def reader_remaining_def
      reader_wf_def)

lemma get_u8_run [cursor_simps]:
  "reader_wf r \<Longrightarrow> get_u8 r =
     Some (if 1 \<le> reader_remaining r then (Inr (r_buf r ! r_pos r), r\<lparr>r_pos := r_pos r + 1\<rparr>)
           else (Inl UnexpectedEnd, r))"
  by (auto simp: get_u8_def bindE_def reader_ensure_def ret_def throw_def reader_remaining_def
      reader_wf_def)

section \<open>Sequences of fields\<close>

text \<open>
  The calls a client makes, as data: what is written field by field, and the shape by which it is
  read back.
\<close>

datatype field = FU8 u8 | FU16 u16 | FU32 u32 | FU64 u64 | FBytes "u8 list" | FPrefixed "u8 list"

datatype shape = SU8 | SU16 | SU32 | SU64 | SBytes nat | SPrefixed

fun shape_of :: "field \<Rightarrow> shape" where
  "shape_of (FU8 _) = SU8"
| "shape_of (FU16 _) = SU16"
| "shape_of (FU32 _) = SU32"
| "shape_of (FU64 _) = SU64"
| "shape_of (FBytes b) = SBytes (length b)"
| "shape_of (FPrefixed _) = SPrefixed"

fun put_field :: "field \<Rightarrow> writer_action" where
  "put_field (FU8 v) = put_u8 v"
| "put_field (FU16 v) = put_u16 v"
| "put_field (FU32 v) = put_u32 v"
| "put_field (FU64 v) = put_u64 v"
| "put_field (FBytes b) = put_bytes b"
| "put_field (FPrefixed b) = put_length_prefixed b"

fun get_field :: "shape \<Rightarrow> field reader_action" where
  "get_field SU8 = bindE get_u8 (\<lambda>v. ret (FU8 v))"
| "get_field SU16 = bindE get_u16 (\<lambda>v. ret (FU16 v))"
| "get_field SU32 = bindE get_u32 (\<lambda>v. ret (FU32 v))"
| "get_field SU64 = bindE get_u64 (\<lambda>v. ret (FU64 v))"
| "get_field (SBytes n) = bindE (get_slice n) (\<lambda>v. ret (FBytes v))"
| "get_field SPrefixed = bindE get_length_prefixed (\<lambda>v. ret (FPrefixed v))"

fun put_fields :: "field list \<Rightarrow> writer_action" where
  "put_fields [] = ret ()"
| "put_fields (f # fs) = bindE (put_field f) (\<lambda>_. put_fields fs)"

fun get_fields :: "shape list \<Rightarrow> field list reader_action" where
  "get_fields [] = ret []"
| "get_fields (s # ss) = bindE (get_field s) (\<lambda>v. bindE (get_fields ss) (\<lambda>vs. ret (v # vs)))"

fun field_bytes :: "field \<Rightarrow> u8 list" where
  "field_bytes (FU8 v) = [v]"
| "field_bytes (FU16 v) = to_le 2 v"
| "field_bytes (FU32 v) = to_le 4 v"
| "field_bytes (FU64 v) = to_le 8 v"
| "field_bytes (FBytes b) = b"
| "field_bytes (FPrefixed b) = to_le 4 (of_nat (length b) :: u32) @ b"

fun field_ok :: "field \<Rightarrow> bool" where
  "field_ok (FPrefixed b) \<longleftrightarrow> length b < 2 ^ 32"
| "field_ok _ \<longleftrightarrow> True"

lemma put_field_run:
  assumes w: "writer_wf w" and ok: "field_ok f" and room: "length (field_bytes f) \<le> writer_remaining w"
  shows "put_field f w = Some (Inr (), emit (field_bytes f) w)"
proof (cases f)
  case (FPrefixed b)
  let ?p = "to_le 4 (of_nat (length b) :: u32)"
  have "writer_wf (emit ?p w)" "writer_remaining (emit ?p w) = writer_remaining w - 4"
    using emit_wf [of w ?p] emit_remaining [of w ?p] w room by (simp_all add: FPrefixed)
  then show ?thesis
    using w ok room emit_emit [of w ?p b]
    by (simp add: FPrefixed put_length_prefixed_def put_u32_def bindE_def put_bytes_run)
qed (use w room in \<open>simp_all add: put_u8_eq_put_bytes put_u16_def put_u32_def put_u64_def put_bytes_run\<close>)

lemma put_fields_run:
  assumes "writer_wf w" "list_all field_ok fs" "length (concat (map field_bytes fs)) \<le> writer_remaining w"
  shows "put_fields fs w = Some (Inr (), emit (concat (map field_bytes fs)) w)"
  using assms
proof (induction fs arbitrary: w)
  case Nil
  then show ?case by (simp add: ret_def emit_Nil)
next
  case (Cons f fs)
  then have "put_field f w = Some (Inr (), emit (field_bytes f) w)"
    by (intro put_field_run) auto
  moreover have "put_fields fs (emit (field_bytes f) w) =
      Some (Inr (), emit (concat (map field_bytes fs)) (emit (field_bytes f) w))"
    using Cons.prems by (intro Cons.IH) (auto simp: emit_wf emit_remaining)
  ultimately show ?case
    using Cons.prems emit_emit [of w "field_bytes f" "concat (map field_bytes fs)"] by (simp add: bindE_def)
qed

lemma get_field_run:
  assumes r: "reader_wf r" and ok: "field_ok f" and here: "drop (r_pos r) (r_buf r) = field_bytes f @ rest"
  shows "get_field (shape_of f) r = Some (Inr f, r\<lparr>r_pos := r_pos r + length (field_bytes f)\<rparr>)"
proof -
  have len: "length (field_bytes f) \<le> reader_remaining r"
    using arg_cong [OF here, of length] by (simp add: reader_remaining_def)
  note run = get_into_eq_slice get_slice_run bindE_def ret_def from_le_to_le
  show ?thesis
  proof (cases f)
    case (FU8 v)
    then have "r_buf r ! r_pos r = v"
      using here nth_drop [of "r_pos r" "r_buf r" 0] r by (simp add: reader_wf_def)
    then show ?thesis
      using r len by (simp add: FU8 get_u8_run bindE_def ret_def)
  next
    case (FPrefixed b)
    let ?p = "to_le 4 (of_nat (length b) :: u32)" and ?r = "r\<lparr>r_pos := r_pos r + 4\<rparr>"
    have n: "unat (of_nat (length b) :: u32) = length b"
      using ok by (simp add: FPrefixed unsigned_of_nat take_bit_nat_eq_self)
    have "get_u32 r = Some (Inr (of_nat (length b)), ?r)"
      using r len here by (simp add: FPrefixed get_u32_def run)
    moreover have "reader_wf ?r" "length b \<le> reader_remaining ?r"
      using r len by (auto simp: FPrefixed reader_wf_def reader_remaining_def)
    moreover have "drop 4 (drop (r_pos r) (r_buf r)) = b @ rest"
      unfolding here by (simp add: FPrefixed)
    then have "drop (r_pos r + 4) (r_buf r) = b @ rest"
      by (simp add: add.commute)
    ultimately show ?thesis
      by (simp add: FPrefixed get_length_prefixed_def bindE_def ret_def get_slice_run n add.assoc)
  qed (use r len here in \<open>simp_all add: get_u16_def get_u32_def get_u64_def run\<close>)
qed

lemma get_fields_run:
  assumes "reader_wf r" "list_all field_ok fs" "drop (r_pos r) (r_buf r) = concat (map field_bytes fs) @ rest"
  shows "get_fields (map shape_of fs) r =
    Some (Inr fs, r\<lparr>r_pos := r_pos r + length (concat (map field_bytes fs))\<rparr>)"
  using assms
proof (induction fs arbitrary: r)
  case Nil
  then show ?case by (simp add: ret_def)
next
  case (Cons f fs)
  let ?r = "r\<lparr>r_pos := r_pos r + length (field_bytes f)\<rparr>"
  have "get_field (shape_of f) r = Some (Inr f, ?r)"
    using Cons.prems by (intro get_field_run) auto
  moreover have "length (field_bytes f) \<le> length (r_buf r) - r_pos r"
    using arg_cong [OF Cons.prems(3), of length] by simp
  then have "reader_wf ?r"
    using Cons.prems(1) by (simp add: reader_wf_def)
  moreover have "drop (length (field_bytes f)) (drop (r_pos r) (r_buf r)) = concat (map field_bytes fs) @ rest"
    unfolding Cons.prems(3) by simp
  then have "drop (r_pos ?r) (r_buf ?r) = concat (map field_bytes fs) @ rest"
    by (simp add: add.commute)
  ultimately show ?case
    using Cons.IH [of ?r] Cons.prems(2) by (simp add: bindE_def ret_def add.assoc)
qed
section \<open>Reading untrusted input\<close>

text \<open>A step of a reader that consumes exactly the bytes of the field it returns, or fails.\<close>

definition consumes :: "byte_reader \<Rightarrow> (serialization_error + 'a) \<times> byte_reader \<Rightarrow> ('a \<Rightarrow> u8 list) \<Rightarrow> bool" where
  "consumes r out enc \<longleftrightarrow> (case out of (res, r') \<Rightarrow>
     r_buf r' = r_buf r \<and> reader_wf r' \<and> r_pos r \<le> r_pos r' \<and>
     (case res of
        Inl e \<Rightarrow> e = UnexpectedEnd
      | Inr f \<Rightarrow> r_pos r' = r_pos r + length (enc f) \<and>
          take (length (enc f)) (drop (r_pos r) (r_buf r)) = enc f))"

lemma consumes_bind:
  assumes "\<exists>out. m r = Some out \<and> consumes r out e1"
    and "\<And>v r'. m r = Some (Inr v, r') \<Longrightarrow> reader_wf r' \<Longrightarrow> \<exists>out. k v r' = Some out \<and> consumes r' out (e2 v)"
    and "\<And>v x. k_enc v x = e1 v @ e2 v x"
    and "\<And>v r' x r''. m r = Some (Inr v, r') \<Longrightarrow> k v r' = Some (Inr x, r'') \<Longrightarrow> enc x = k_enc v x"
  shows "\<exists>out. bindE m k r = Some out \<and> consumes r out enc"
proof -
  obtain res r' where m: "m r = Some (res, r')" and c: "consumes r (res, r') e1"
    using assms(1) by (metis surj_pair)
  show ?thesis
  proof (cases res)
    case (Inl e)
    then show ?thesis
      using m c by (auto simp: bindE_def consumes_def)
  next
    case (Inr v)
    have wf: "reader_wf r'"
      using c by (simp add: consumes_def)
    obtain res2 r2 where k: "k v r' = Some (res2, r2)" "consumes r' (res2, r2) (e2 v)"
      using assms(2) [of v r'] m Inr wf by (metis surj_pair)
    have "consumes r (res2, r2) enc"
    proof (cases res2)
      case (Inl e)
      then show ?thesis
        using c k(2) by (auto simp: consumes_def)
    next
      case r2: (Inr x)
      have "enc x = e1 v @ e2 v x"
        using assms(3,4) m k(1) Inr r2 by simp
      moreover have "take (length (e1 v) + length (e2 v x)) (drop (r_pos r) (r_buf r)) = e1 v @ e2 v x"
        using c k(2) Inr r2 by (simp add: consumes_def take_add add.commute)
      ultimately show ?thesis
        using c k(2) Inr r2 by (simp add: consumes_def)
    qed
    then show ?thesis
      using m k(1) Inr by (simp add: bindE_def)
  qed
qed
lemma consumes_map:
  assumes "\<exists>out. m r = Some out \<and> consumes r out e1" and "\<And>v. enc (c v) = e1 v"
  shows "\<exists>out. bindE m (\<lambda>v. ret (c v)) r = Some out \<and> consumes r out enc"
proof -
  obtain res r' where m: "m r = Some (res, r')" "consumes r (res, r') e1"
    using assms(1) by (metis surj_pair)
  then show ?thesis
    by (cases res) (simp_all add: bindE_def ret_def consumes_def assms(2))
qed

lemma get_slice_consumes: "reader_wf r \<Longrightarrow> \<exists>out. get_slice n r = Some out \<and> consumes r out (\<lambda>v. v)"
  by (auto simp: get_slice_run consumes_def reader_wf_def reader_remaining_def)

lemma get_field_consumes: "reader_wf r \<Longrightarrow> \<exists>out. get_field s r = Some out \<and> consumes r out field_bytes"
proof (cases s)
  case SPrefixed
  assume r: "reader_wf r"
  have u32: "\<exists>out. get_u32 r' = Some out \<and> consumes r' out (to_le 4)" if "reader_wf r'" for r'
    using that by (auto simp: get_u32_def get_into_eq_slice get_slice_run bindE_def ret_def consumes_def
        reader_wf_def reader_remaining_def to_le_from_le)
  have pref: "\<exists>out. get_length_prefixed r = Some out \<and> consumes r out (\<lambda>b. to_le 4 (of_nat (length b) :: u32) @ b)"
    unfolding get_length_prefixed_def
  proof (rule consumes_bind [where k_enc = "\<lambda>v x. to_le 4 v @ x"])
    show "\<exists>out. get_u32 r = Some out \<and> consumes r out (to_le 4)"
      using r by (rule u32)
    show "\<exists>out. get_slice (unat v) r' = Some out \<and> consumes r' out (\<lambda>x. x)" if "reader_wf r'" for v :: u32 and r'
      using that by (rule get_slice_consumes)
    show "to_le 4 (of_nat (length x) :: u32) @ x = to_le 4 v @ x"
      if "get_u32 r = Some (Inr v, r')" "get_slice (unat v) r' = Some (Inr x, r'')" for v r' x r''
    proof -
      have "reader_wf r'"
        using u32 [OF r] that(1) by (auto simp: consumes_def)
      then have "length x = unat v"
        using that(2) by (auto simp: get_slice_run reader_wf_def reader_remaining_def split: if_splits)
      then show ?thesis by simp
    qed
  qed simp
  then show ?thesis
    unfolding SPrefixed get_field.simps by (rule consumes_map) simp
next
  case SU8
  assume "reader_wf r"
  moreover have "take (Suc 0) (drop k xs) = [xs ! k]" if "k < length xs" for k and xs :: "u8 list"
    using that by (simp add: take_Suc_conv_app_nth)
  ultimately show ?thesis
    by (auto simp: SU8 get_u8_run bindE_def ret_def consumes_def reader_wf_def reader_remaining_def)
qed (auto simp: get_u16_def get_u32_def get_u64_def get_into_eq_slice get_slice_run bindE_def
    ret_def consumes_def reader_wf_def reader_remaining_def to_le_from_le)

lemma get_fields_consumes:
  "reader_wf r \<Longrightarrow> \<exists>out. get_fields ss r = Some out \<and> consumes r out (\<lambda>fs. concat (map field_bytes fs))"
proof (induction ss arbitrary: r)
  case Nil
  then show ?case by (auto simp: ret_def consumes_def)
next
  case (Cons s ss)
  show ?case
    unfolding get_fields.simps
  proof (rule consumes_bind [where k_enc = "\<lambda>v x. field_bytes v @ concat (map field_bytes (tl x))"])
    show "\<exists>out. get_field s r = Some out \<and> consumes r out field_bytes"
      using Cons.prems by (rule get_field_consumes)
    show "\<exists>out. bindE (get_fields ss) (\<lambda>vs. ret (v # vs)) r' = Some out \<and>
        consumes r' out (\<lambda>x. concat (map field_bytes (tl x)))" if "reader_wf r'" for v r'
      using Cons.IH [OF that] by (rule consumes_map) simp
    show "concat (map field_bytes x) = field_bytes v @ concat (map field_bytes (tl x))"
      if "bindE (get_fields ss) (\<lambda>vs. ret (v # vs)) r' = Some (Inr x, r'')" for v r' x r''
      using that by (auto simp: bindE_def ret_def split: option.splits prod.splits sum.splits)
  qed simp
qed

section \<open>Properties\<close>

text \<open>
  C16. Writing any sequence of fields (length prefixes below \<open>2^32\<close>) into a buffer with room for them
  succeeds, and reading the written bytes back by shape returns exactly the fields and consumes
  exactly those bytes.
\<close>

theorem fields_roundtrip:
  assumes "list_all field_ok fs" "length (concat (map field_bytes fs)) \<le> length buf"
  shows "\<exists>w bs. put_fields fs (writer_new buf) = Some (Inr (), w) \<and> written w = Some bs \<and>
    bs = concat (map field_bytes fs) \<and>
    get_fields (map shape_of fs) (reader_new bs) = Some (Inr fs, \<lparr>r_buf = bs, r_pos = length bs\<rparr>)"
proof -
  let ?bs = "concat (map field_bytes fs)"
  have "put_fields fs (writer_new buf) = Some (Inr (), emit ?bs (writer_new buf))"
    using assms by (intro put_fields_run) (simp_all, simp add: writer_new_def writer_remaining_def)
  moreover have "written (emit ?bs (writer_new buf)) = Some ?bs"
    by (simp add: written_def emit_def writer_new_def slice_def)
  moreover have "get_fields (map shape_of fs) (reader_new ?bs) = Some (Inr fs, \<lparr>r_buf = ?bs, r_pos = length ?bs\<rparr>)"
    using get_fields_run [of "reader_new ?bs" fs "[]"] assms(1) by (simp add: reader_new_def reader_wf_def)
  ultimately show ?thesis by blast
qed

theorem fields_roundtrip_witness:
  "\<exists>w bs. put_fields [FU16 0x1234, FPrefixed [1, 2, 3], FU8 9] (writer_new (replicate 16 0)) = Some (Inr (), w) \<and>
    written w = Some bs \<and>
    get_fields [SU16, SPrefixed, SU8] (reader_new bs) =
      Some (Inr [FU16 0x1234, FPrefixed [1, 2, 3], FU8 9], \<lparr>r_buf = bs, r_pos = 10\<rparr>)"
  using fields_roundtrip [of "[FU16 0x1234, FPrefixed [1, 2, 3], FU8 9]" "replicate 16 0"] by auto

text \<open>
  C17. On arbitrary input no sequence of reads panics or leaves the buffer. The only error is
  \<open>UnexpectedEnd\<close>; a successful read consumed exactly the canonical encoding of what it returned.
\<close>

theorem reads_total_and_canonical:
  "case get_fields ss (reader_new bs) of
     None \<Rightarrow> False
   | Some (res, r) \<Rightarrow> r_buf r = bs \<and> r_pos r \<le> length bs \<and>
       (case res of
          Inl e \<Rightarrow> e = UnexpectedEnd
        | Inr fs \<Rightarrow> concat (map field_bytes fs) = take (r_pos r) bs)"
proof -
  have "reader_wf (reader_new bs)"
    by (simp add: reader_new_def reader_wf_def)
  from get_fields_consumes [OF this, of ss] obtain res r
    where run: "get_fields ss (reader_new bs) = Some (res, r)"
      and c: "consumes (reader_new bs) (res, r) (\<lambda>fs. concat (map field_bytes fs))"
    by (metis surj_pair)
  from c show ?thesis
    unfolding run by (cases res) (auto simp: consumes_def reader_wf_def reader_new_def)
qed

text \<open>
  The outcomes of \<open>put_length_prefixed\<close>. A payload of \<open>2^32\<close> bytes or more is refused before
  anything is written, as is any payload when fewer than four bytes are free. When the prefix
  fits but the payload does not, the call fails and the prefix stays written: the cursor has
  moved by four.
\<close>

theorem put_length_prefixed_outcome:
  assumes "writer_wf w"
  shows "put_length_prefixed bytes w = Some (
    if 2 ^ 32 \<le> length bytes then (Inl (InvalidValue ''length prefix''), w)
    else if writer_remaining w < 4 then (Inl (BufferTooSmall 4 (writer_remaining w)), w)
    else if writer_remaining w < 4 + length bytes then
      (Inl (BufferTooSmall (length bytes) (writer_remaining w - 4)), emit (to_le 4 (of_nat (length bytes) :: u32)) w)
    else (Inr (), emit (to_le 4 (of_nat (length bytes) :: u32) @ bytes) w))"
proof -
  let ?p = "to_le 4 (of_nat (length bytes) :: u32)"
  have "writer_wf (emit ?p w)" "writer_remaining (emit ?p w) = writer_remaining w - 4" if "4 \<le> writer_remaining w"
    using emit_wf [of w ?p] emit_remaining [of w ?p] assms that by simp_all
  then show ?thesis
    using assms emit_emit [of w ?p bytes]
    by (auto simp: put_length_prefixed_def put_u32_def bindE_def put_bytes_run throw_def)
qed

theorem put_length_prefixed_outcome_witness:
  "put_length_prefixed [1, 2, 3] (writer_new [0, 0, 0, 0, 0, 0]) =
     Some (Inl (BufferTooSmall 3 2), \<lparr>w_buf = [3, 0, 0, 0, 0, 0], w_pos = 4\<rparr>)"
  using put_length_prefixed_outcome [of "writer_new [0, 0, 0, 0, 0, 0]" "[1, 2, 3]"]
  by (simp add: writer_new_def writer_remaining_def emit_def to_le_def writer_wf_def upt_rec)

end
