(* ===== verification/Selector.thy ===== *)
theory Selector
  imports Bytes Shared_Types "HOL-Library.Multiset"
begin

unbundle bit_operations_syntax

text \<open>
  The scheduling entropy source (\<open>cibos-kernel/src/entropy.rs\<close>) and the weighted selector
  (\<open>selector.rs\<close>). SHA-256 comes from an external crate and is a parameter \<open>H\<close> from byte strings to
  32-byte digests. Rejection sampling is a loop that need not end for an arbitrary \<open>H\<close>: \<open>None\<close>
  means that the call does not return.
\<close>

section \<open>The hash-counter generator\<close>

type_synonym hash = "u8 list \<Rightarrow> u8 list"

definition digest32 :: "hash \<Rightarrow> bool" where
  "digest32 H \<longleftrightarrow> (\<forall>x. length (H x) = 32)"

record csprng =
  key :: "u8 list"
  counter :: u64
  block :: "u8 list"
  block_pos :: nat

definition refill :: "hash \<Rightarrow> csprng \<Rightarrow> csprng" where
  "refill H rng =
     rng\<lparr>block := H (key rng @ to_le 8 (counter rng)), counter := counter rng + 1, block_pos := 0\<rparr>"

definition from_seed :: "hash \<Rightarrow> u8 list \<Rightarrow> csprng" where
  "from_seed H seed = refill H \<lparr>key = seed, counter = 0, block = replicate 32 0, block_pos = 32\<rparr>"

definition next_u8 :: "hash \<Rightarrow> csprng \<Rightarrow> u8 \<times> csprng" where
  "next_u8 H rng =
     (let rng = (if 32 \<le> block_pos rng then refill H rng else rng) in
      (block rng ! block_pos rng, rng\<lparr>block_pos := block_pos rng + 1\<rparr>))"

primrec fill_bytes :: "hash \<Rightarrow> nat \<Rightarrow> csprng \<Rightarrow> u8 list \<times> csprng" where
  "fill_bytes H 0 rng = ([], rng)"
| "fill_bytes H (Suc n) rng =
     (let (b, rng) = next_u8 H rng; (bs, rng) = fill_bytes H n rng in (b # bs, rng))"

definition next_u64 :: "hash \<Rightarrow> csprng \<Rightarrow> u64 \<times> csprng" where
  "next_u64 H rng = (let (bs, rng) = fill_bytes H 8 rng in (from_le bs, rng))"

definition rejection_zone :: "u64 \<Rightarrow> u64" where
  "rejection_zone bound = - 1 - (- 1) mod bound"

partial_function (option) reject_loop :: "hash \<Rightarrow> u64 \<Rightarrow> u64 \<Rightarrow> csprng \<Rightarrow> (u64 \<times> csprng) option" where
  "reject_loop H zone bound rng =
     (let (v, rng) = next_u64 H rng in
      if v < zone then Some (v mod bound, rng) else reject_loop H zone bound rng)"

text \<open>The \<open>assert!(bound > 0)\<close> is the first case: no value is returned there either.\<close>

definition next_bounded :: "hash \<Rightarrow> u64 \<Rightarrow> csprng \<Rightarrow> (u64 \<times> csprng) option" where
  "next_bounded H bound rng = (if bound = 0 then None else reject_loop H (rejection_zone bound) bound rng)"

section \<open>Weighted selection\<close>

record weighted_lane =
  wl_lane :: lane_id
  wl_weight :: u32

fun pick :: "u64 \<Rightarrow> nat \<Rightarrow> (lane_id \<times> u64) list \<Rightarrow> nat" where
  "pick ticket i [] = 0"
| "pick ticket i ((_, w) # pool) = (if ticket < w then i else pick (ticket - w) (i + 1) pool)"

text \<open>\<open>Vec::swap_remove\<close>: the last element takes the place of the removed one; an index out of
  range panics.\<close>

definition swap_remove :: "nat \<Rightarrow> 'a list \<Rightarrow> ('a \<times> 'a list) option" where
  "swap_remove i xs = (if i < length xs then Some (xs ! i, butlast (xs[i := last xs])) else None)"

primrec sample :: "hash \<Rightarrow> nat \<Rightarrow> (lane_id \<times> u64) list \<Rightarrow> csprng \<Rightarrow> (lane_id list \<times> csprng) option" where
  "sample H 0 pool rng = Some ([], rng)"
| "sample H (Suc n) pool rng =
     (if pool = [] then Some ([], rng)
      else
        case next_bounded H (sum_list (map snd pool)) rng of
          None \<Rightarrow> None
        | Some (ticket, rng) \<Rightarrow>
            (case swap_remove (pick ticket 0 pool) pool of
               None \<Rightarrow> None
             | Some ((lane, _), pool) \<Rightarrow>
                 map_option (\<lambda>(chosen, rng). (lane # chosen, rng)) (sample H n pool rng)))"

definition select :: "hash \<Rightarrow> weighted_lane list \<Rightarrow> nat \<Rightarrow> csprng \<Rightarrow> (lane_id list \<times> csprng) option" where
  "select H ready contexts rng =
     (if contexts = 0 \<or> ready = [] then Some ([], rng)
      else if length ready \<le> contexts then Some (map wl_lane ready, rng)
      else sample H contexts (map (\<lambda>w. (wl_lane w, ucast (max (wl_weight w) 1))) ready) rng)"

section \<open>The stream\<close>

definition rng_wf :: "csprng \<Rightarrow> bool" where
  "rng_wf rng \<longleftrightarrow> length (block rng) = 32 \<and> block_pos rng \<le> 32"

text \<open>The state after \<open>k\<close> draws of 64 bits, and the \<open>k\<close>-th of them.\<close>

primrec after :: "hash \<Rightarrow> nat \<Rightarrow> csprng \<Rightarrow> csprng" where
  "after H 0 rng = rng"
| "after H (Suc k) rng = after H k (snd (next_u64 H rng))"

definition draw :: "hash \<Rightarrow> nat \<Rightarrow> csprng \<Rightarrow> u64" where
  "draw H k rng = fst (next_u64 H (after H k rng))"

lemma after_add: "after H (k + n) rng = after H n (after H k rng)"
  by (induction k arbitrary: rng) simp_all

lemma draw_Suc: "draw H (Suc k) rng = draw H k (snd (next_u64 H rng))"
  by (simp add: draw_def)

lemma reject_loop_returns:
  assumes "draw H k rng < zone" "\<And>j. j < k \<Longrightarrow> zone \<le> draw H j rng"
  shows "reject_loop H zone bound rng = Some (draw H k rng mod bound, after H (Suc k) rng)"
  using assms
proof (induction k arbitrary: rng)
  case 0
  then show ?case
    by (subst reject_loop.simps) (simp add: draw_def case_prod_beta)
next
  case (Suc k)
  have "zone \<le> fst (next_u64 H rng)"
    using Suc.prems(2) [of 0] by (simp add: draw_def)
  then have "reject_loop H zone bound rng = reject_loop H zone bound (snd (next_u64 H rng))"
    by (subst reject_loop.simps) (simp add: case_prod_beta leD)
  also have "\<dots> = Some (draw H k (snd (next_u64 H rng)) mod bound, after H (Suc k) (snd (next_u64 H rng)))"
    using Suc.prems(1) Suc.prems(2) [of "Suc _"] by (intro Suc.IH) (simp_all add: draw_Suc)
  finally show ?case
    by (simp add: draw_Suc)
qed

lemma reject_loop_Some:
  assumes "reject_loop H zone bound rng = Some out"
  shows "\<exists>k. draw H k rng < zone \<and> out = (draw H k rng mod bound, after H (Suc k) rng)"
proof (rule reject_loop.raw_induct [OF _ assms])
  fix loop H zone bound rng and out :: "u64 \<times> csprng"
  assume IH: "\<And>H zone bound rng out. loop H zone bound rng = Some out \<Longrightarrow>
      \<exists>k. draw H k rng < zone \<and> out = (draw H k rng mod bound, after H (Suc k) rng)"
    and run: "(let (v, rng) = next_u64 H rng in
      if v < zone then Some (v mod bound, rng) else loop H zone bound rng) = Some out"
  show "\<exists>k. draw H k rng < zone \<and> out = (draw H k rng mod bound, after H (Suc k) rng)"
  proof (cases "fst (next_u64 H rng) < zone")
    case True
    with run show ?thesis
      by (intro exI [of _ 0]) (simp add: draw_def case_prod_beta)
  next
    case False
    with run have "loop H zone bound (snd (next_u64 H rng)) = Some out"
      by (simp add: case_prod_beta)
    from IH [OF this] obtain k where "draw H k (snd (next_u64 H rng)) < zone"
      "out = (draw H k (snd (next_u64 H rng)) mod bound, after H (Suc k) (snd (next_u64 H rng)))"
      by blast
    then show ?thesis
      by (intro exI [of _ "Suc k"]) (simp add: draw_Suc)
  qed
qed
section \<open>Rejection sampling\<close>

lemma unat_zone:
  assumes "bound \<noteq> 0"
  shows "unat (rejection_zone bound) = (2 ^ 64 - 1) div unat bound * unat bound"
proof -
  have m: "unat (- 1 :: u64) = 2 ^ 64 - 1"
    by (simp add: unsigned_minus_1_eq_mask mask_eq_exp_minus_1)
  have "(- 1) mod bound \<le> (- 1 :: u64)"
    by simp
  then have "unat (rejection_zone bound) = unat (- 1 :: u64) - unat ((- 1) mod bound)"
    unfolding rejection_zone_def by (rule unat_sub)
  also have "\<dots> = (2 ^ 64 - 1) - (2 ^ 64 - 1) mod unat bound"
    by (simp only: unat_mod_distrib m)
  finally show ?thesis
    by (simp only: minus_mod_eq_div_mult)
qed

lemma zone_half: "bound \<noteq> 0 \<Longrightarrow> (2 ^ 63 :: u64) \<le> rejection_zone bound"
proof -
  assume b: "bound \<noteq> 0"
  let ?b = "unat bound" and ?z = "(2 ^ 64 - 1 :: nat) div unat bound * unat bound"
  have pos: "0 < ?b"
    using b by (simp add: unat_gt_0)
  have "?b \<le> 2 ^ 64 - 1"
    using unat_u64_less [of bound] by simp
  then have "0 < (2 ^ 64 - 1) div ?b"
    using pos by (simp only: div_greater_zero_iff)
  then have "1 * ?b \<le> ?z"
    by (intro mult_le_mono1) simp
  moreover have "N < N div ?b * ?b + ?b" for N :: nat
    using mod_less_divisor [OF pos, of N] div_mult_mod_eq [of N ?b] by linarith
  then have "2 ^ 64 - 1 < ?z + ?b" .
  moreover have "2 ^ 63 \<le> z" if "1 * b \<le> z" "2 ^ 64 - 1 < z + b" for b z :: nat
    using that by simp
  ultimately have "2 ^ 63 \<le> ?z"
    by blast
  then show ?thesis
    by (simp add: word_le_nat_alt unat_zone [OF b])
qed

lemma card_residue: "0 < b \<Longrightarrow> r < b \<Longrightarrow> card {n. n < q * b \<and> n mod b = r} = (q :: nat)"
proof -
  assume b: "0 < b" "r < b"
  have "{n. n < q * b \<and> n mod b = r} = (\<lambda>k. k * b + r) ` {..< q}"
  proof (intro equalityI subsetI)
    fix n
    assume "n \<in> {n. n < q * b \<and> n mod b = r}"
    then have "n = n div b * b + r" "n div b < q"
      using b(1) by (auto simp: div_less_iff_less_mult intro: div_mult_mod_eq [symmetric])
    then show "n \<in> (\<lambda>k. k * b + r) ` {..< q}" by auto
  next
    fix n
    assume "n \<in> (\<lambda>k. k * b + r) ` {..< q}"
    then obtain k where "n = k * b + r" "k < q" by auto
    moreover from this have "k * b + r < Suc k * b" "Suc k * b \<le> q * b"
      using b(2) by (simp, intro mult_le_mono1 Suc_leI)
    ultimately show "n \<in> {n. n < q * b \<and> n mod b = r}"
      using b(2) by auto
  qed
  moreover have "inj_on (\<lambda>k. k * b + r) {..< q}"
    using b(1) by (auto intro: inj_onI)
  ultimately show ?thesis
    by (simp add: card_image)
qed

lemma card_zone:
  assumes b: "bound \<noteq> 0" and r: "r < bound"
  shows "card {v. v < rejection_zone bound \<and> v mod bound = r} = (2 ^ 64 - 1) div unat bound"
proof -
  let ?V = "{v. v < rejection_zone bound \<and> v mod bound = r}"
  have "unat ` ?V = {n. n < (2 ^ 64 - 1) div unat bound * unat bound \<and> n mod unat bound = unat r}" (is "_ = ?N")
  proof (intro equalityI subsetI)
    fix n
    assume "n \<in> unat ` ?V"
    then obtain v where v: "n = unat v" "v < rejection_zone bound" "v mod bound = r" by auto
    then have "unat v < unat (rejection_zone bound)" "unat v mod unat bound = unat r"
      by (simp_all only: word_less_nat_alt unat_mod_distrib [symmetric])
    then show "n \<in> ?N"
      by (simp only: v(1) unat_zone [OF b] mem_Collect_eq)
  next
    fix n
    assume n: "n \<in> ?N"
    have "(2 ^ 64 - 1) div unat bound * unat bound < (2 ^ 64 :: nat)"
      by (rule le_less_trans [OF div_times_less_eq_dividend]) simp
    moreover have "n < (2 ^ 64 - 1) div unat bound * unat bound"
      using n by (simp only: mem_Collect_eq)
    ultimately have u: "unat (of_nat n :: u64) = n"
      by (intro unat_of_nat_u64) (rule less_trans)
    have "(of_nat n :: u64) \<in> ?V"
      using n by (simp only: mem_Collect_eq word_less_nat_alt word_unat_eq_iff unat_mod_distrib u unat_zone [OF b])
    with u show "n \<in> unat ` ?V"
      by (intro image_eqI) simp_all
  qed
  moreover have "card (unat ` ?V) = card ?V"
    by (rule card_image) (simp add: inj_on_def word_unat_eq_iff)
  ultimately have "card ?V = card ?N"
    by (simp only:)
  also have "\<dots> = (2 ^ 64 - 1) div unat bound"
    by (rule card_residue) (use b r in \<open>simp_all add: unat_gt_0 word_less_nat_alt\<close>)
  finally show ?thesis .
qed
lemma mod_less_word: "(b :: u64) \<noteq> 0 \<Longrightarrow> a mod b < b"
  by (simp add: word_less_nat_alt unat_mod_distrib unat_gt_0)

text \<open>A stream that keeps producing values in the lower half never gets stuck.\<close>

definition live_stream :: "hash \<Rightarrow> csprng \<Rightarrow> bool" where
  "live_stream H rng \<longleftrightarrow> (\<forall>n. \<exists>k \<ge> n. draw H k rng < 2 ^ 63)"

lemma draw_after: "draw H k (after H n rng) = draw H (n + k) rng"
  by (simp add: draw_def after_add)

lemma live_stream_after: "live_stream H rng \<Longrightarrow> live_stream H (after H n rng)"
  unfolding live_stream_def draw_after
proof
  fix m
  assume "\<forall>m. \<exists>k \<ge> m. draw H k rng < 2 ^ 63"
  then obtain k where "n + m \<le> k" "draw H k rng < 2 ^ 63" by blast
  then show "\<exists>k \<ge> m. draw H (n + k) rng < 2 ^ 63"
    by (intro exI [of _ "k - n"]) simp
qed

lemma next_bounded_Some:
  assumes "next_bounded H bound rng = Some (v, rng')"
  shows "v < bound" and "live_stream H rng \<Longrightarrow> live_stream H rng'"
proof -
  have b: "bound \<noteq> 0"
    using assms by (auto simp: next_bounded_def)
  with assms have "reject_loop H (rejection_zone bound) bound rng = Some (v, rng')"
    by (simp add: next_bounded_def)
  from reject_loop_Some [OF this] obtain k where k: "v = draw H k rng mod bound" "rng' = after H (Suc k) rng"
    by blast
  show "v < bound"
    unfolding k by (rule mod_less_word [OF b])
  show "live_stream H rng'" if "live_stream H rng"
    unfolding k by (rule live_stream_after [OF that])
qed

lemma reject_loop_returns_iff: "reject_loop H zone bound rng \<noteq> None \<longleftrightarrow> (\<exists>k. draw H k rng < zone)"
proof
  assume "reject_loop H zone bound rng \<noteq> None"
  then obtain out where "reject_loop H zone bound rng = Some out" by blast
  from reject_loop_Some [OF this] show "\<exists>k. draw H k rng < zone" by blast
next
  assume ex: "\<exists>k. draw H k rng < zone"
  define k where "k = (LEAST k. draw H k rng < zone)"
  have k: "draw H k rng < zone"
    unfolding k_def by (rule LeastI_ex [OF ex])
  have "zone \<le> draw H j rng" if "j < k" for j
    using not_less_Least [OF that [unfolded k_def]] by (simp add: not_less)
  from reject_loop_returns [OF k this] show "reject_loop H zone bound rng \<noteq> None" by simp
qed

lemma next_bounded_live:
  assumes "live_stream H rng" "bound \<noteq> 0"
  shows "\<exists>v rng'. next_bounded H bound rng = Some (v, rng')"
proof -
  obtain k where "draw H k rng < 2 ^ 63"
    using assms(1) unfolding live_stream_def by blast
  then have "draw H k rng < rejection_zone bound"
    using zone_half [OF assms(2)] by (rule less_le_trans)
  then have "\<exists>k. draw H k rng < rejection_zone bound" ..
  then have "reject_loop H (rejection_zone bound) bound rng \<noteq> None"
    by (simp only: reject_loop_returns_iff)
  then show ?thesis
    using assms(2) by (simp add: next_bounded_def)
qed

section \<open>Tickets\<close>

abbreviation weights :: "(lane_id \<times> u64) list \<Rightarrow> nat list" where
  "weights pool \<equiv> map (\<lambda>p. unat (snd p)) pool"

lemma pick_bounds:
  "unat ticket < sum_list (weights pool) \<Longrightarrow> i \<le> pick ticket i pool \<and> pick ticket i pool < i + length pool"
proof (induction pool arbitrary: ticket i)
  case Nil
  then show ?case by simp
next
  case (Cons lw pool)
  obtain l w where lw: "lw = (l, w)" by (cases lw)
  show ?case
  proof (cases "ticket < w")
    case False
    then have "unat (ticket - w) < sum_list (weights pool)"
      using Cons.prems by (simp add: lw unat_sub word_le_nat_alt not_less)
    from Cons.IH [OF this, of "i + 1"] False show ?thesis
      by (simp add: lw)
  qed (simp add: lw)
qed

text \<open>Lane \<open>j\<close> owns the tickets from the sum of the weights before it up to and excluding its own.\<close>

lemma pick_iff:
  assumes "unat ticket < sum_list (weights pool)" "j < length pool"
  shows "pick ticket i pool = i + j \<longleftrightarrow>
    sum_list (take j (weights pool)) \<le> unat ticket \<and> unat ticket < sum_list (take (Suc j) (weights pool))"
  using assms
proof (induction pool arbitrary: ticket i j)
  case Nil
  then show ?case by simp
next
  case (Cons lw pool)
  obtain l w where lw: "lw = (l, w)" by (cases lw)
  show ?case
  proof (cases "ticket < w")
    case True
    then show ?thesis
      using Cons.prems by (cases j) (auto simp: lw word_less_nat_alt)
  next
    case False
    then have sub: "unat (ticket - w) = unat ticket - unat w" and ge: "unat w \<le> unat ticket"
      by (simp_all add: unat_sub word_le_nat_alt not_less)
    have ge_i: "i + 1 \<le> pick (ticket - w) (i + 1) pool" if "pool \<noteq> []"
    proof -
      have "unat (ticket - w) < sum_list (weights pool)"
        using Cons.prems(1) ge by (simp add: lw sub)
      then show ?thesis
        using pick_bounds by blast
    qed
    show ?thesis
    proof (cases j)
      case 0
      have "pool \<noteq> []"
        using Cons.prems(1) ge by (auto simp: lw)
      with ge_i ge show ?thesis
        using False by (simp add: lw 0)
    next
      case (Suc j')
      have "pick (ticket - w) (i + 1) pool = (i + 1) + j' \<longleftrightarrow>
          sum_list (take j' (weights pool)) \<le> unat (ticket - w) \<and>
          unat (ticket - w) < sum_list (take (Suc j') (weights pool))"
        using Cons.prems ge by (intro Cons.IH) (auto simp: lw sub Suc)
      then show ?thesis
        using False ge by (auto simp: lw Suc sub)
    qed
  qed
qed
section \<open>Sampling without replacement\<close>

definition pool_ok :: "(lane_id \<times> u64) list \<Rightarrow> bool" where
  "pool_ok pool \<longleftrightarrow> length pool < 2 ^ 32 \<and> (\<forall>p \<in> set pool. 0 < unat (snd p) \<and> unat (snd p) < 2 ^ 32)"

lemma sum_list_bound: "(\<And>w. w \<in> set ws \<Longrightarrow> w \<le> m) \<Longrightarrow> sum_list ws \<le> length ws * (m :: nat)"
  by (induction ws) (auto simp: add_le_mono)

lemma unat_sum_list: "sum_list (map unat ws) < 2 ^ 64 \<Longrightarrow> unat (sum_list ws) = sum_list (map unat ws)" for ws :: "u64 list"
proof (induction ws)
  case Nil
  then show ?case by simp
next
  case (Cons w ws)
  then have "unat (sum_list ws) = sum_list (map unat ws)" "unat w + sum_list (map unat ws) < 2 ^ 64"
    by simp_all
  then show ?case
    by (simp only: sum_list.Cons list.map unat_word_ariths(1)) simp
qed

lemma pool_total:
  assumes "pool_ok pool"
  shows "unat (sum_list (map snd pool)) = sum_list (weights pool)"
proof -
  have "sum_list (weights pool) \<le> length (weights pool) * (2 ^ 32 - 1)"
    using assms by (intro sum_list_bound) (auto simp: pool_ok_def)
  also have "\<dots> \<le> (2 ^ 32 - 1) * (2 ^ 32 - 1)"
    using assms by (intro mult_le_mono1) (simp add: pool_ok_def)
  also have "\<dots> < 2 ^ 64"
    by simp
  finally have "sum_list (map unat (map snd pool)) < 2 ^ 64"
    by (simp add: comp_def)
  from unat_sum_list [OF this] show ?thesis
    by (simp add: comp_def)
qed

lemma pool_total_pos: "pool_ok pool \<Longrightarrow> pool \<noteq> [] \<Longrightarrow> 0 < sum_list (weights pool)"
  by (cases pool) (auto simp: pool_ok_def)

lemma swap_remove_mset:
  assumes "i < length xs"
  shows "mset (butlast (xs[i := last xs])) = mset xs - {#xs ! i#}"
proof -
  let ?ys = "xs[i := last xs]"
  have ne: "?ys \<noteq> []" "xs \<noteq> []"
    using assms by auto
  have "last ?ys = last xs"
    using assms ne by (simp add: last_conv_nth nth_list_update)
  then have "mset ?ys = add_mset (last xs) (mset (butlast ?ys))"
    using append_butlast_last_id [OF ne(1)] mset_append [of "butlast ?ys" "[last ?ys]"] by simp
  then show ?thesis
    using mset_update [OF assms, of "last xs"] by simp
qed

lemma pool_ok_swap_remove:
  assumes "pool_ok pool" "i < length pool"
  shows "pool_ok (butlast (pool[i := last pool]))"
proof -
  have "set (butlast (pool[i := last pool])) \<subseteq> set pool"
    using swap_remove_mset [OF assms(2)] by (metis diff_subset_eq_self set_mset_mono set_mset_mset)
  then show ?thesis
    using assms(1) unfolding pool_ok_def by auto
qed

lemma sample_step:
  assumes ok: "pool_ok pool" "pool \<noteq> []" and t: "next_bounded H (sum_list (map snd pool)) rng = Some (ticket, rng')"
  shows "pick ticket 0 pool < length pool"
proof -
  have "unat ticket < unat (sum_list (map snd pool))"
    using next_bounded_Some(1) [OF t] by (simp only: word_less_nat_alt)
  then show ?thesis
    using pick_bounds [of ticket pool 0] by (simp add: pool_total [OF ok(1)])
qed

lemma sample_Some:
  assumes "pool_ok pool" "sample H n pool rng = Some (chosen, rng')"
  shows "mset chosen \<subseteq># mset (map fst pool) \<and> length chosen = min n (length pool)"
  using assms
proof (induction n arbitrary: pool rng chosen)
  case 0
  then show ?case by simp
next
  case (Suc n)
  show ?case
  proof (cases "pool = []")
    case True
    then show ?thesis using Suc.prems by simp
  next
    case False
    from Suc.prems(2) False obtain ticket rng1 lw pool' cs where
      t: "next_bounded H (sum_list (map snd pool)) rng = Some (ticket, rng1)" and
      sw: "swap_remove (pick ticket 0 pool) pool = Some (lw, pool')" and
      rest: "sample H n pool' rng1 = Some (cs, rng')" and chosen: "chosen = fst lw # cs"
      by (auto split: option.splits prod.splits)
    let ?i = "pick ticket 0 pool"
    have i: "?i < length pool"
      by (rule sample_step [OF Suc.prems(1) False t])
    then have lw: "lw = pool ! ?i" "pool' = butlast (pool[?i := last pool])"
      using sw by (auto simp: swap_remove_def)
    have ok': "pool_ok pool'"
      unfolding lw by (rule pool_ok_swap_remove [OF Suc.prems(1) i])
    have m: "mset pool = add_mset lw (mset pool')"
      unfolding lw using swap_remove_mset [OF i] i by simp
    have "mset chosen \<subseteq># mset (map fst pool)"
      using Suc.IH [OF ok' rest] arg_cong [OF m, of "image_mset fst"] by (simp add: chosen)
    moreover have "length pool = Suc (length pool')"
      using arg_cong [OF m, of size] by simp
    ultimately show ?thesis
      using Suc.IH [OF ok' rest] by (simp add: chosen)
  qed
qed

lemma sample_live:
  assumes "pool_ok pool" "live_stream H rng"
  shows "sample H n pool rng \<noteq> None"
  using assms
proof (induction n arbitrary: pool rng)
  case 0
  then show ?case by simp
next
  case (Suc n)
  show ?case
  proof (cases "pool = []")
    case True
    then show ?thesis by simp
  next
    case False
    have "sum_list (map snd pool) \<noteq> 0"
      using pool_total [OF Suc.prems(1)] pool_total_pos [OF Suc.prems(1) False]
      by (metis less_numeral_extra(3) unat_0)
    from next_bounded_live [OF Suc.prems(2) this] obtain ticket rng1
      where t: "next_bounded H (sum_list (map snd pool)) rng = Some (ticket, rng1)" by blast
    have i: "pick ticket 0 pool < length pool"
      by (rule sample_step [OF Suc.prems(1) False t])
    have "sample H n (butlast (pool[pick ticket 0 pool := last pool])) rng1 \<noteq> None"
      by (rule Suc.IH [OF pool_ok_swap_remove [OF Suc.prems(1) i] next_bounded_Some(2) [OF t Suc.prems(2)]])
    then show ?thesis
      using False t i by (auto simp: swap_remove_def split: prod.splits)
  qed
qed

lemma sample_keeps_live:
  assumes "sample H n pool rng = Some (chosen, rng')" "live_stream H rng"
  shows "live_stream H rng'"
  using assms
proof (induction n arbitrary: pool rng chosen)
  case (Suc n)
  show ?case
  proof (cases "pool = []")
    case False
    with Suc.prems(1) obtain ticket rng1 pool' cs where
      t: "next_bounded H (sum_list (map snd pool)) rng = Some (ticket, rng1)" and
      rest: "sample H n pool' rng1 = Some (cs, rng')"
      by (auto split: option.splits prod.splits)
    show ?thesis
      by (rule Suc.IH [OF rest next_bounded_Some(2) [OF t Suc.prems(2)]])
  qed (use Suc.prems in simp)
qed simp

lemma select_keeps_live:
  "select H ready contexts rng = Some (chosen, rng') \<Longrightarrow> live_stream H rng \<Longrightarrow> live_stream H rng'"
  by (auto simp: select_def split: if_splits intro: sample_keeps_live)

lemma pool_ok_ready:
  "length ready < 2 ^ 32 \<Longrightarrow> pool_ok (map (\<lambda>w. (wl_lane w, ucast (max (wl_weight w) 1))) ready)" for ready :: "weighted_lane list"
  unfolding pool_ok_def
proof (intro conjI ballI)
  fix p :: "lane_id \<times> u64"
  assume "p \<in> set (map (\<lambda>w. (wl_lane w, ucast (max (wl_weight w) 1))) ready)"
  then obtain w :: weighted_lane where p: "snd p = (ucast (max (wl_weight w) 1 :: u32) :: u64)" by auto
  have lt: "unat (max (wl_weight w) 1) < 2 ^ 32"
    using unsigned_less [of "max (wl_weight w) 1"] by simp
  then have u: "unat (snd p) = unat (max (wl_weight w) 1)"
    by (simp add: p unsigned_ucast_eq take_bit_nat_eq_self)
  have "(1 :: u32) \<le> max (wl_weight w) 1" by simp
  then have "1 \<le> unat (max (wl_weight w) 1)"
    by (simp only: word_le_nat_alt unat_1)
  then show "0 < unat (snd p)"
    by (simp only: u)
  show "unat (snd p) < 2 ^ 32"
    using lt by (simp only: u)
qed simp
lemma select_spec:
  assumes "distinct (map wl_lane ready)" "length ready < 2 ^ 32" "live_stream H rng"
  shows "\<exists>chosen rng'. select H ready contexts rng = Some (chosen, rng') \<and>
    distinct chosen \<and> set chosen \<subseteq> set (map wl_lane ready) \<and> length chosen = min contexts (length ready) \<and>
    (length ready \<le> contexts \<longrightarrow> chosen = map wl_lane ready)"
proof (cases "contexts < length ready \<and> contexts \<noteq> 0")
  case False
  then show ?thesis
    using assms(1) by (auto simp: select_def)
next
  case True
  let ?pool = "map (\<lambda>w. (wl_lane w, ucast (max (wl_weight w) 1) :: u64)) ready"
  obtain chosen rng' where s: "sample H contexts ?pool rng = Some (chosen, rng')"
    using sample_live [OF pool_ok_ready [OF assms(2)] assms(3)] by fast
  have "mset chosen \<subseteq># mset (map wl_lane ready)" "length chosen = min contexts (length ready)"
    using sample_Some [OF pool_ok_ready [OF assms(2)] s] by (simp_all add: comp_def)
  moreover from this(1) obtain rest where "mset (map wl_lane ready) = mset (chosen @ rest)"
    by (metis ex_mset mset_append mset_subset_eq_exists_conv)
  then have "distinct chosen" "set chosen \<subseteq> set (map wl_lane ready)"
    using assms(1) mset_eq_imp_distinct_iff mset_eq_setD by (fastforce, fastforce)
  ultimately show ?thesis
    using True s by (auto simp: select_def)
qed

section \<open>Properties\<close>



text \<open>
  C20. A lane is drawn in proportion to its weight: of the tickets below the total, exactly as many
  select lane \<open>j\<close> as its weight says.
\<close>

theorem tickets_proportional:
  assumes "pool_ok pool" "j < length pool"
  shows "card {ticket. ticket < sum_list (map snd pool) \<and> pick ticket 0 pool = j} = unat (snd (pool ! j))"
proof -
  let ?T = "{ticket. ticket < sum_list (map snd pool) \<and> pick ticket 0 pool = j}"
  let ?a = "sum_list (take j (weights pool))"
  have Suc: "sum_list (take (Suc j) (weights pool)) = ?a + unat (snd (pool ! j))"
    using assms(2) by (simp add: take_Suc_conv_app_nth)
  have le: "sum_list (take k (weights pool)) \<le> sum_list (weights pool)" for k
    using sum_list_append [of "take k (weights pool)" "drop k (weights pool)"] by (simp only: append_take_drop_id)
  have less: "ticket < sum_list (map snd pool) \<longleftrightarrow> unat ticket < sum_list (weights pool)" for ticket
    by (simp only: word_less_nat_alt pool_total [OF assms(1)])
  have pick: "pick ticket 0 pool = j \<longleftrightarrow> ?a \<le> unat ticket \<and> unat ticket < ?a + unat (snd (pool ! j))"
    if "unat ticket < sum_list (weights pool)" for ticket
    using pick_iff [OF that assms(2), of 0] by (simp only: Suc add_0)
  have total: "sum_list (weights pool) < 2 ^ 64"
    using pool_total [OF assms(1)] unat_u64_less by metis
  have "unat ` ?T = {?a ..< ?a + unat (snd (pool ! j))}"
  proof (intro equalityI subsetI)
    fix n
    assume "n \<in> unat ` ?T"
    then show "n \<in> {?a ..< ?a + unat (snd (pool ! j))}"
      using less pick by (auto simp only: image_iff mem_Collect_eq atLeastLessThan_iff)
  next
    fix n
    assume n: "n \<in> {?a ..< ?a + unat (snd (pool ! j))}"
    then have lt: "n < sum_list (weights pool)"
      using le [of "Suc j"] by (simp only: Suc atLeastLessThan_iff) linarith
    then have u: "unat (of_nat n :: u64) = n"
      using total by (intro unat_of_nat_u64) simp
    have "(of_nat n :: u64) \<in> ?T"
      using n lt pick [of "of_nat n"] by (simp only: less u mem_Collect_eq atLeastLessThan_iff)
    then show "n \<in> unat ` ?T"
      using u by (intro image_eqI) simp_all
  qed
  moreover have "card (unat ` ?T) = card ?T"
    by (rule card_image) (simp add: inj_on_def word_unat_eq_iff)
  ultimately show ?thesis by simp
qed

theorem tickets_proportional_witness:
  "card {ticket. ticket < 5 \<and> pick ticket 0 [(LaneId 1, 2), (LaneId 2, 3)] = 1} = 3"
  using tickets_proportional [of "[(LaneId 1, 2), (LaneId 2, 3)]" 1] by (simp add: pool_ok_def)

text \<open>
  C21. \<open>select\<close> over fewer than \<open>2^32\<close> distinct ready lanes, on a stream that keeps yielding values in
  the lower half, returns: it chooses \<open>min contexts (number of lanes)\<close> of them, all different, and
  all of them, in order, when there is no competition.
\<close>

theorem select_correct:
  assumes "distinct (map wl_lane ready)" "length ready < 2 ^ 32" "live_stream H rng"
  shows "\<exists>chosen rng'. select H ready contexts rng = Some (chosen, rng') \<and>
    distinct chosen \<and> set chosen \<subseteq> set (map wl_lane ready) \<and> length chosen = min contexts (length ready) \<and>
    (length ready \<le> contexts \<longrightarrow> chosen = map wl_lane ready)"
  by (rule select_spec [OF assms])
text \<open>A constant digest gives the constant stream, which is live.\<close>

definition zero_hash :: hash where
  "zero_hash x = replicate 32 0"

definition zero_rng :: "csprng \<Rightarrow> bool" where
  "zero_rng rng \<longleftrightarrow> block rng = replicate 32 0 \<and> block_pos rng \<le> 32"

lemma zero_rng_fill:
  assumes "zero_rng rng"
  shows "set (fst (fill_bytes zero_hash n rng)) \<subseteq> {0}" "zero_rng (snd (fill_bytes zero_hash n rng))"
proof -
  have step: "fst (next_u8 zero_hash rng) = 0 \<and> zero_rng (snd (next_u8 zero_hash rng))" if "zero_rng rng" for rng
    using that by (auto simp: next_u8_def refill_def zero_hash_def zero_rng_def Let_def)
  have "set (fst (fill_bytes zero_hash n rng)) \<subseteq> {0} \<and> zero_rng (snd (fill_bytes zero_hash n rng))"
    using assms
  proof (induction n arbitrary: rng)
    case (Suc n)
    from Suc.IH [of "snd (next_u8 zero_hash rng)"] step [OF Suc.prems] show ?case
      by (simp add: case_prod_beta)
  qed simp
  then show "set (fst (fill_bytes zero_hash n rng)) \<subseteq> {0}" "zero_rng (snd (fill_bytes zero_hash n rng))"
    by simp_all
qed

lemma from_le_zeros: "set bs \<subseteq> {0} \<Longrightarrow> from_le bs = 0"
  by (induction bs) auto

lemma zero_hash_live: "zero_rng rng \<Longrightarrow> live_stream zero_hash rng"
proof -
  assume z: "zero_rng rng"
  have "zero_rng (after zero_hash k rng)" for k
    using z by (induction k arbitrary: rng) (simp_all add: next_u64_def zero_rng_fill(2) case_prod_beta)
  then have "draw zero_hash k rng = 0" for k
    using zero_rng_fill(1) [of "after zero_hash k rng" 8] by (simp add: draw_def next_u64_def case_prod_beta from_le_zeros)
  then show ?thesis
    by (auto simp: live_stream_def)
qed

lemma from_seed_zero: "zero_rng (from_seed zero_hash seed)"
  by (simp add: from_seed_def refill_def zero_hash_def zero_rng_def)

theorem select_correct_witness:
  "\<exists>chosen rng'. select zero_hash [\<lparr>wl_lane = LaneId 1, wl_weight = 4\<rparr>, \<lparr>wl_lane = LaneId 2, wl_weight = 0\<rparr>,
      \<lparr>wl_lane = LaneId 3, wl_weight = 1\<rparr>] 2 (from_seed zero_hash (replicate 32 7)) = Some (chosen, rng') \<and>
    distinct chosen \<and> length chosen = 2"
  using select_correct [of "[\<lparr>wl_lane = LaneId 1, wl_weight = 4\<rparr>, \<lparr>wl_lane = LaneId 2, wl_weight = 0\<rparr>,
      \<lparr>wl_lane = LaneId 3, wl_weight = 1\<rparr>]" zero_hash "from_seed zero_hash (replicate 32 7)" 2]
    zero_hash_live [OF from_seed_zero, of "replicate 32 7"] by auto

end
