(* ===== verification/Scheduler.thy ===== *)
theory Scheduler
  imports Selector BTree_Map
begin

text \<open>
  The scheduler (\<open>cibos-kernel/src/scheduler.rs\<close>): a queue of ready lanes, the stalled lanes with
  the resource each waits for, weight classes and overrides, the entropy source and the clock. It
  implements \<open>KernelInterface\<close> (\<open>shared/src/protocols/ipc.rs\<close>), which the runtime and the channels
  call through a table of operations; the locale \<open>kernel_interface\<close> is the contract they rely on.
  Every operation runs under the scheduler's lock and is one step.
\<close>

section \<open>The interface of the kernel\<close>

record 's kif =
  kif_register_wait :: "lane_id \<Rightarrow> wait_resource \<Rightarrow> 's \<Rightarrow> 's"
  kif_signal_ready :: "lane_id \<Rightarrow> 's \<Rightarrow> 's"
  kif_now :: "'s \<Rightarrow> monotonic"

locale kernel_interface =
  fixes K :: "'s kif"
    and runnable :: "'s \<Rightarrow> lane_id set"
    and parked :: "'s \<Rightarrow> lane_id \<Rightarrow> wait_resource option"
    and inv :: "'s \<Rightarrow> bool"
  assumes signal_runnable: "inv s \<Longrightarrow> runnable (kif_signal_ready K l s) = insert l (runnable s)"
    and signal_parked: "inv s \<Longrightarrow> parked (kif_signal_ready K l s) = (parked s)(l := None)"
    and signal_inv: "inv s \<Longrightarrow> inv (kif_signal_ready K l s)"
    and wait_runnable: "inv s \<Longrightarrow> runnable (kif_register_wait K l r s) = runnable s - {l}"
    and wait_parked: "inv s \<Longrightarrow> parked (kif_register_wait K l r s) = (parked s)(l \<mapsto> r)"
    and wait_inv: "inv s \<Longrightarrow> inv (kif_register_wait K l r s)"
    and disjoint: "inv s \<Longrightarrow> l \<in> runnable s \<Longrightarrow> parked s l = None"
begin

text \<open>A lane that was caught and released is runnable again and waits for nothing.\<close>

lemma catch_and_release:
  assumes "inv s"
  shows "l \<in> runnable (kif_signal_ready K l (kif_register_wait K l r s))"
    and "parked (kif_signal_ready K l (kif_register_wait K l r s)) l = None"
  using wait_inv [OF assms] by (simp_all add: signal_runnable signal_parked)

lemma signal_keeps_runnable: "inv s \<Longrightarrow> runnable s \<subseteq> runnable (kif_signal_ready K l s)"
  by (auto simp: signal_runnable)

lemma signal_twice:
  assumes "inv s"
  shows "runnable (kif_signal_ready K l (kif_signal_ready K l s)) = runnable (kif_signal_ready K l s)"
    and "parked (kif_signal_ready K l (kif_signal_ready K l s)) = parked (kif_signal_ready K l s)"
  using signal_inv [OF assms, of l] assms by (simp_all add: signal_runnable signal_parked)

end

section \<open>State and operations\<close>

record scheduler =
  ready :: "lane_id list"
  stalled :: "(lane_id, wait_resource) btreemap"
  classes :: "(lane_id, weight_class) btreemap"
  overrides :: "(lane_id, u32) btreemap"
  sched_rng :: csprng
  sched_now :: monotonic
  execution_contexts :: nat
  sched_profile :: cibos_profile
  sched_config :: scheduling_config

definition scheduler_new :: "hash \<Rightarrow> nat \<Rightarrow> u8 list \<Rightarrow> cibos_profile \<Rightarrow> scheduler" where
  "scheduler_new H contexts seed profile =
     \<lparr>ready = [], stalled = [], classes = [], overrides = [], sched_rng = from_seed H seed,
      sched_now = monotonic_zero, execution_contexts = max contexts 1, sched_profile = profile,
      sched_config = defaults_for profile\<rparr>"

definition supports_weight_overrides :: "scheduler \<Rightarrow> bool" where
  "supports_weight_overrides s = (sched_profile s = Compute)"

definition register_lane :: "lane_id \<Rightarrow> weight_class \<Rightarrow> scheduler \<Rightarrow> scheduler" where
  "register_lane lane class s = s\<lparr>classes := bt_insert lane class (classes s)\<rparr>"

definition notify_complete :: "lane_id \<Rightarrow> scheduler \<Rightarrow> scheduler" where
  "notify_complete lane s =
     s\<lparr>ready := filter (\<lambda>l. l \<noteq> lane) (ready s), stalled := bt_remove lane (stalled s),
       classes := bt_remove lane (classes s), overrides := bt_remove lane (overrides s)\<rparr>"

definition ready_count :: "scheduler \<Rightarrow> nat" where
  "ready_count s = length (ready s)"

definition stalled_count :: "scheduler \<Rightarrow> nat" where
  "stalled_count s = length (stalled s)"

definition is_idle :: "scheduler \<Rightarrow> bool" where
  "is_idle s = (ready s = [] \<and> stalled s = [])"

definition has_ready :: "scheduler \<Rightarrow> bool" where
  "has_ready s = (ready s \<noteq> [])"

definition weight_for :: "scheduler \<Rightarrow> lane_id \<Rightarrow> u32" where
  "weight_for s lane =
     (case (if supports_weight_overrides s then bt_get (overrides s) lane else None) of
        Some w \<Rightarrow> max w 1
      | None \<Rightarrow>
          (case (case bt_get (classes s) lane of None \<Rightarrow> User | Some c \<Rightarrow> c) of
             System \<Rightarrow> system_weight (sched_config s)
           | User \<Rightarrow> user_weight (sched_config s)
           | Background \<Rightarrow> background_weight (sched_config s)))"

definition take_dispatch_batch :: "hash \<Rightarrow> scheduler \<Rightarrow> (lane_id list \<times> scheduler) option" where
  "take_dispatch_batch H s =
     (let weighted = map (\<lambda>lane. \<lparr>wl_lane = lane, wl_weight = weight_for s lane\<rparr>) (ready s) in
      map_option
        (\<lambda>(chosen, rng).
           (chosen, s\<lparr>ready := filter (\<lambda>l. l \<notin> set chosen) (ready s), sched_rng := rng\<rparr>))
        (select H weighted (execution_contexts s) (sched_rng s)))"

text \<open>The body of the two loops that release matured timers, and of \<open>signal_ready\<close>.\<close>

definition release_lane :: "lane_id \<Rightarrow> scheduler \<Rightarrow> scheduler" where
  "release_lane lane s =
     s\<lparr>stalled := bt_remove lane (stalled s),
       ready := (if lane \<in> set (ready s) then ready s else ready s @ [lane])\<rparr>"

definition matured :: "scheduler \<Rightarrow> lane_id list" where
  "matured s =
     map fst (filter (\<lambda>(lane, resource). case resource of
         Timer deadline \<Rightarrow> reached (sched_now s) deadline
       | _ \<Rightarrow> False) (bt_entries (stalled s)))"

definition advance_clock :: "duration \<Rightarrow> scheduler \<Rightarrow> scheduler" where
  "advance_clock delta s =
     (let s = s\<lparr>sched_now := monotonic_saturating_add (sched_now s) delta\<rparr> in
      fold release_lane (matured s) s)"

definition timer_deadlines :: "scheduler \<Rightarrow> monotonic list" where
  "timer_deadlines s =
     List.map_filter (\<lambda>(_, resource). case resource of Timer deadline \<Rightarrow> Some deadline | _ \<Rightarrow> None)
       (bt_entries (stalled s))"

definition advance_to_next_timer :: "scheduler \<Rightarrow> bool \<times> scheduler" where
  "advance_to_next_timer s =
     (case timer_deadlines s of
        [] \<Rightarrow> (False, s)
      | d # ds \<Rightarrow>
          let deadline = Min (set (d # ds));
              s = (if \<not> reached (sched_now s) deadline then s\<lparr>sched_now := deadline\<rparr> else s)
          in (True, fold release_lane (matured s) s))"

definition register_wait :: "lane_id \<Rightarrow> wait_resource \<Rightarrow> scheduler \<Rightarrow> scheduler" where
  "register_wait lane resource s =
     s\<lparr>ready := filter (\<lambda>l. l \<noteq> lane) (ready s), stalled := bt_insert lane resource (stalled s)\<rparr>"

definition signal_ready :: "lane_id \<Rightarrow> scheduler \<Rightarrow> scheduler" where
  "signal_ready lane s = release_lane lane s"

definition set_lane_weight :: "lane_id \<Rightarrow> u32 \<Rightarrow> scheduler \<Rightarrow> bool \<times> scheduler" where
  "set_lane_weight lane weight s =
     (if \<not> supports_weight_overrides s then (False, s)
      else (True, s\<lparr>overrides := bt_insert lane (max weight 1) (overrides s)\<rparr>))"

definition update_lane_weight :: "lane_id \<Rightarrow> u32 \<Rightarrow> scheduler \<Rightarrow> bool \<times> scheduler" where
  "update_lane_weight lane weight s = set_lane_weight lane weight s"

definition scheduler_kif :: "scheduler kif" where
  "scheduler_kif = \<lparr>kif_register_wait = register_wait, kif_signal_ready = signal_ready, kif_now = sched_now\<rparr>"

section \<open>Well-formedness\<close>

definition config_wf :: "scheduling_config \<Rightarrow> bool" where
  "config_wf c \<longleftrightarrow> 1 \<le> system_weight c \<and> 1 \<le> user_weight c \<and> 1 \<le> background_weight c"

definition sched_wf :: "scheduler \<Rightarrow> bool" where
  "sched_wf s \<longleftrightarrow>
     distinct (ready s) \<and> bt_wf (stalled s) \<and> bt_wf (classes s) \<and> bt_wf (overrides s) \<and>
     (\<forall>l \<in> set (ready s). bt_get (stalled s) l = None) \<and>
     1 \<le> execution_contexts s \<and> config_wf (sched_config s)"

lemma config_wf_defaults: "config_wf (defaults_for p)"
  by (cases p) (simp_all add: config_wf_def)

lemma scheduler_new_wf: "sched_wf (scheduler_new H n seed p)"
  by (simp add: sched_wf_def scheduler_new_def config_wf_defaults)

lemma weight_for_pos: "sched_wf s \<Longrightarrow> 1 \<le> weight_for s lane"
  by (auto simp: weight_for_def sched_wf_def config_wf_def split: option.splits weight_class.splits)

lemma register_lane_wf: "sched_wf s \<Longrightarrow> sched_wf (register_lane l c s)"
  by (simp add: register_lane_def sched_wf_def)

lemma notify_complete_wf: "sched_wf s \<Longrightarrow> sched_wf (notify_complete l s)"
  by (simp add: notify_complete_def sched_wf_def btree_simps)

lemma release_lane_wf: "sched_wf s \<Longrightarrow> sched_wf (release_lane l s)"
  by (auto simp: release_lane_def sched_wf_def btree_simps)

lemma register_wait_wf: "sched_wf s \<Longrightarrow> sched_wf (register_wait l r s)"
  by (simp add: register_wait_def sched_wf_def btree_simps)

lemma set_lane_weight_wf: "sched_wf s \<Longrightarrow> sched_wf (snd (set_lane_weight l w s))"
  by (auto simp: set_lane_weight_def sched_wf_def)

interpretation sched: kernel_interface scheduler_kif "\<lambda>s. set (ready s)" "\<lambda>s. bt_get (stalled s)" sched_wf
proof
  fix s l r
  assume wf: "sched_wf s"
  show "set (ready (kif_signal_ready scheduler_kif l s)) = insert l (set (ready s))"
    by (auto simp: scheduler_kif_def signal_ready_def release_lane_def)
  show "bt_get (stalled (kif_signal_ready scheduler_kif l s)) = (bt_get (stalled s))(l := None)"
    by (auto simp: scheduler_kif_def signal_ready_def release_lane_def btree_simps)
  show "set (ready (kif_register_wait scheduler_kif l r s)) = set (ready s) - {l}"
    by (auto simp: scheduler_kif_def register_wait_def)
  show "bt_get (stalled (kif_register_wait scheduler_kif l r s)) = (bt_get (stalled s))(l \<mapsto> r)"
    by (auto simp: scheduler_kif_def register_wait_def btree_simps)
  show "sched_wf (kif_signal_ready scheduler_kif l s)" "sched_wf (kif_register_wait scheduler_kif l r s)"
    using wf by (simp_all add: scheduler_kif_def signal_ready_def release_lane_wf register_wait_wf)
qed (simp add: sched_wf_def)
section \<open>Releasing lanes\<close>

lemma set_ready_release_lanes: "set (ready (fold release_lane ls s)) = set (ready s) \<union> set ls"
  by (induction ls arbitrary: s) (auto simp: release_lane_def)

lemma stalled_release_lanes:
  "bt_get (stalled (fold release_lane ls s)) l = (if l \<in> set ls then None else bt_get (stalled s) l)"
  by (induction ls arbitrary: s) (auto simp: release_lane_def btree_simps)

lemma now_release_lanes: "sched_now (fold release_lane ls s) = sched_now s"
  by (induction ls arbitrary: s) (simp_all add: release_lane_def)

lemma wf_release_lanes: "sched_wf s \<Longrightarrow> sched_wf (fold release_lane ls s)"
  by (induction ls arbitrary: s) (simp_all add: release_lane_wf)

lemma ready_release_lanes: "\<exists>new. ready (fold release_lane ls s) = ready s @ new"
proof (induction ls arbitrary: s)
  case Nil
  then show ?case by simp
next
  case (Cons l ls)
  obtain new where "ready (fold release_lane ls (release_lane l s)) = ready (release_lane l s) @ new"
    using Cons.IH by blast
  moreover obtain new' where "ready (release_lane l s) = ready s @ new'"
    by (cases "l \<in> set (ready s)") (simp_all add: release_lane_def)
  ultimately show ?case by simp
qed

lemmas release_lanes = set_ready_release_lanes stalled_release_lanes now_release_lanes

lemma set_matured:
  assumes "sched_wf s"
  shows "set (matured s) = {l. \<exists>d. bt_get (stalled s) l = Some (Timer d) \<and> d \<le> sched_now s}"
proof -
  have "bt_wf (stalled s)"
    using assms by (simp add: sched_wf_def)
  note look = bt.entries_lookup [OF this]
  have "l \<in> set (matured s) \<longleftrightarrow> (\<exists>d. (l, Timer d) \<in> set (bt_entries (stalled s)) \<and> d \<le> sched_now s)" for l
    by (force simp: matured_def reached_iff_le split: wait_resource.splits)
  then show ?thesis
    by (auto simp: look)
qed

lemma set_timer_deadlines:
  assumes "sched_wf s"
  shows "set (timer_deadlines s) = {d. \<exists>l. bt_get (stalled s) l = Some (Timer d)}"
proof -
  have "bt_wf (stalled s)"
    using assms by (simp add: sched_wf_def)
  note look = bt.entries_lookup [OF this]
  have "d \<in> set (timer_deadlines s) \<longleftrightarrow> (\<exists>l. (l, Timer d) \<in> set (bt_entries (stalled s)))" for d
    by (force simp: timer_deadlines_def List.map_filter_def split: wait_resource.splits)
  then show ?thesis
    by (auto simp: look)
qed

text \<open>What releasing everything that has matured does at a given clock.\<close>

definition released :: "scheduler \<Rightarrow> scheduler \<Rightarrow> bool" where
  "released s s' \<longleftrightarrow> sched_wf s' \<and> sched_now s \<le> sched_now s' \<and>
     (\<forall>l. bt_get (stalled s') l =
        (case bt_get (stalled s) l of
           Some (Timer d) \<Rightarrow> if d \<le> sched_now s' then None else Some (Timer d)
         | w \<Rightarrow> w)) \<and>
     (\<forall>l. l \<in> set (ready s') \<longleftrightarrow> l \<in> set (ready s) \<or>
        (\<exists>d. bt_get (stalled s) l = Some (Timer d) \<and> d \<le> sched_now s')) \<and>
     (\<exists>new. ready s' = ready s @ new)"

lemma released_at:
  assumes wf: "sched_wf s" and t: "sched_now s \<le> t"
  defines "s1 \<equiv> s\<lparr>sched_now := t\<rparr>"
  shows "released s (fold release_lane (matured s1) s1)"
proof -
  have wf1: "sched_wf s1"
    using wf by (simp add: sched_wf_def s1_def)
  have m: "set (matured s1) = {l. \<exists>d. bt_get (stalled s) l = Some (Timer d) \<and> d \<le> t}"
    using set_matured [OF wf1] by (simp add: s1_def)
  have r1: "ready s1 = ready s" "stalled s1 = stalled s" "sched_now s1 = t"
    by (simp_all add: s1_def)
  show ?thesis
    unfolding released_def release_lanes m
    using wf1 t wf_release_lanes [of s1 "matured s1"] ready_release_lanes [of "matured s1" s1]
    by (auto simp: r1 split: option.splits wait_resource.splits)
qed

lemma advance_clock_released: "sched_wf s \<Longrightarrow> released s (advance_clock delta s)"
  using released_at [OF _ monotonic_saturating_add_ge] by (simp add: advance_clock_def Let_def)

lemma advance_to_next_timer_released:
  assumes wf: "sched_wf s" and run: "advance_to_next_timer s = (True, s')"
  shows "released s s'" and "\<exists>l d. bt_get (stalled s) l = Some (Timer d) \<and> d \<le> sched_now s'"
proof -
  obtain d ds where dl: "timer_deadlines s = d # ds"
    using run by (cases "timer_deadlines s") (auto simp: advance_to_next_timer_def)
  define m where "m = Min (insert d (set ds))"
  define t where "t = max (sched_now s) m"
  have "m \<in> set (timer_deadlines s)"
    using Min_in [of "insert d (set ds)"] by (simp add: m_def dl)
  then obtain l where l: "bt_get (stalled s) l = Some (Timer m)"
    using set_timer_deadlines [OF wf] by blast
  have "(if \<not> reached (sched_now s) m then s\<lparr>sched_now := m\<rparr> else s) = s\<lparr>sched_now := t\<rparr>"
    by (auto simp: t_def reached_iff_le max_def not_le)
  then have s': "s' = fold release_lane (matured (s\<lparr>sched_now := t\<rparr>)) (s\<lparr>sched_now := t\<rparr>)"
    using run by (simp add: advance_to_next_timer_def dl Let_def m_def [symmetric] cong: if_cong)
  show "released s s'"
    unfolding s' by (rule released_at [OF wf]) (simp add: t_def)
  have "sched_now s' = t"
    by (simp add: s' now_release_lanes)
  then show "\<exists>l d. bt_get (stalled s) l = Some (Timer d) \<and> d \<le> sched_now s'"
    using l by (intro exI [of _ l] exI [of _ m]) (simp add: t_def)
qed

lemma advance_to_next_timer_False:
  assumes "sched_wf s"
  shows "fst (advance_to_next_timer s) \<longleftrightarrow> (\<exists>l d. bt_get (stalled s) l = Some (Timer d))"
    and "\<not> fst (advance_to_next_timer s) \<Longrightarrow> snd (advance_to_next_timer s) = s"
  using set_timer_deadlines [OF assms]
  by (cases "timer_deadlines s"; fastforce simp: advance_to_next_timer_def Let_def)+
section \<open>Dispatch\<close>

lemma take_dispatch_batch_spec:
  assumes wf: "sched_wf s" and len: "length (ready s) < 2 ^ 32" and live: "live_stream H (sched_rng s)"
  shows "\<exists>chosen s'. take_dispatch_batch H s = Some (chosen, s') \<and> sched_wf s' \<and>
    distinct chosen \<and> set chosen \<subseteq> set (ready s) \<and> length chosen = min (execution_contexts s) (length (ready s)) \<and>
    ready s' = filter (\<lambda>l. l \<notin> set chosen) (ready s) \<and> stalled s' = stalled s \<and> sched_now s' = sched_now s \<and>
    execution_contexts s' = execution_contexts s \<and> live_stream H (sched_rng s')"
proof -
  let ?w = "map (\<lambda>lane. \<lparr>wl_lane = lane, wl_weight = weight_for s lane\<rparr>) (ready s)"
  have w: "map wl_lane ?w = ready s"
    by (simp add: comp_def)
  obtain chosen rng where "select H ?w (execution_contexts s) (sched_rng s) = Some (chosen, rng)"
    "distinct chosen" "set chosen \<subseteq> set (ready s)" "length chosen = min (execution_contexts s) (length (ready s))"
    using select_spec [of ?w H "sched_rng s" "execution_contexts s"] wf len live
    unfolding w by (auto simp: sched_wf_def)
  then show ?thesis
    using wf select_keeps_live [OF _ live] by (auto simp: take_dispatch_batch_def sched_wf_def Let_def)
qed

section \<open>Steps of the scheduler\<close>

text \<open>
  Every public operation as a labelled step; a \<open>Dispatch\<close> carries the batch it returned.
\<close>

datatype sched_op =
    RegisterLane lane_id weight_class | Complete lane_id | Dispatch "lane_id list" | Advance duration
  | NextTimer bool | Wait lane_id wait_resource | Signal lane_id | Weight lane_id u32

inductive sched_step :: "hash \<Rightarrow> scheduler \<Rightarrow> sched_op \<Rightarrow> scheduler \<Rightarrow> bool" for H where
  step_register: "sched_step H s (RegisterLane l c) (register_lane l c s)"
| step_complete: "sched_step H s (Complete l) (notify_complete l s)"
| step_dispatch: "take_dispatch_batch H s = Some (batch, s') \<Longrightarrow> sched_step H s (Dispatch batch) s'"
| step_advance: "sched_step H s (Advance d) (advance_clock d s)"
| step_next_timer: "advance_to_next_timer s = (b, s') \<Longrightarrow> sched_step H s (NextTimer b) s'"
| step_wait: "sched_step H s (Wait l r) (register_wait l r s)"
| step_signal: "sched_step H s (Signal l) (signal_ready l s)"
| step_weight: "set_lane_weight l w s = (b, s') \<Longrightarrow> sched_step H s (Weight l w) s'"

inductive sched_reach :: "hash \<Rightarrow> scheduler \<Rightarrow> scheduler \<Rightarrow> bool" for H s0 where
  sched_start: "sched_reach H s0 s0"
| sched_more: "sched_reach H s0 s \<Longrightarrow> sched_step H s op s' \<Longrightarrow> sched_reach H s0 s'"

definition tracked :: "lane_id \<Rightarrow> scheduler \<Rightarrow> bool" where
  "tracked l s \<longleftrightarrow> l \<in> set (ready s) \<or> bt_get (stalled s) l \<noteq> None"

lemma advance_to_next_timer_wf:
  "sched_wf s \<Longrightarrow> advance_to_next_timer s = (b, s') \<Longrightarrow> released s s' \<or> s' = s"
  using advance_to_next_timer_released(1) [of s s'] advance_to_next_timer_False(2) [of s] by (cases b) auto

lemma released_wf: "released s s' \<Longrightarrow> sched_wf s'"
  by (simp add: released_def)

lemma released_tracked: "released s s' \<Longrightarrow> tracked l s \<Longrightarrow> tracked l s'"
  by (auto simp: released_def tracked_def split: option.splits wait_resource.splits)

lemma take_dispatch_batch_frame:
  assumes "take_dispatch_batch H s = Some (batch, s')"
  shows "ready s' = filter (\<lambda>l. l \<notin> set batch) (ready s)" "stalled s' = stalled s"
    and "sched_wf s \<Longrightarrow> sched_wf s'"
  using assms by (auto simp: take_dispatch_batch_def sched_wf_def Let_def)

lemma sched_step_wf: "sched_step H s op s' \<Longrightarrow> sched_wf s \<Longrightarrow> sched_wf s'"
proof (induction rule: sched_step.induct)
  case (step_next_timer s b s')
  then show ?case
    using advance_to_next_timer_wf [of s b s'] released_wf by auto
next
  case (step_weight l w s b s')
  then show ?case
    using set_lane_weight_wf [of s l w] by simp
qed (simp_all add: register_lane_wf notify_complete_wf take_dispatch_batch_frame(3) register_wait_wf
    signal_ready_def release_lane_wf released_wf [OF advance_clock_released])

lemma sched_reach_wf: "sched_reach H s0 s \<Longrightarrow> sched_wf s0 \<Longrightarrow> sched_wf s"
  by (induction rule: sched_reach.induct) (auto intro: sched_step_wf)

section \<open>Properties\<close>

text \<open>
  C22. In every state the scheduler can reach, whatever the order of registrations, waits, signals,
  dispatches and clock changes, a lane is queued at most once, never both ready and stalled, and
  every lane competes with weight at least one.
\<close>

theorem scheduler_lists_consistent:
  assumes "sched_reach H (scheduler_new H contexts seed profile) s"
  shows "distinct (ready s) \<and> (\<forall>l. \<not> (l \<in> set (ready s) \<and> bt_get (stalled s) l \<noteq> None)) \<and>
    (\<forall>l. 1 \<le> weight_for s l) \<and> 1 \<le> execution_contexts s"
  using sched_reach_wf [OF assms scheduler_new_wf] weight_for_pos by (auto simp: sched_wf_def)

theorem scheduler_lists_consistent_witness:
  "\<exists>s. sched_reach zero_hash (scheduler_new zero_hash 2 (replicate 32 0) Balanced) s \<and>
     ready s = [LaneId 1] \<and> bt_get (stalled s) (LaneId 2) = Some (Memory 8) \<and> distinct (ready s)"
proof -
  let ?init = "scheduler_new zero_hash 2 (replicate 32 0) Balanced"
  let ?s = "register_wait (LaneId 2) (Memory 8) (signal_ready (LaneId 1) ?init)"
  have "sched_reach zero_hash ?init ?s"
    by (rule sched_more [OF sched_more [OF sched_start step_signal] step_wait])
  moreover have "ready ?s = [LaneId 1]" "bt_get (stalled ?s) (LaneId 2) = Some (Memory 8)"
    by (simp_all add: scheduler_new_def register_wait_def signal_ready_def release_lane_def btree_simps)
  ultimately show ?thesis
    using scheduler_lists_consistent [of zero_hash 2 "replicate 32 0" Balanced ?s] by blast
qed

text \<open>
  C23. No lane is lost: a step keeps every lane that is ready or stalled in one of the two lists,
  unless it is the step that completes that lane or hands it out in a dispatch batch.
\<close>

theorem no_lane_lost:
  assumes "sched_step H s op s'" "sched_wf s" "tracked l s"
  shows "tracked l s' \<or> op = Complete l \<or> (\<exists>batch. op = Dispatch batch \<and> l \<in> set batch)"
  using assms
proof (induction rule: sched_step.induct)
  case (step_dispatch s batch s')
  then show ?case
    using take_dispatch_batch_frame [OF step_dispatch(1)] by (auto simp: tracked_def)
next
  case (step_next_timer s b s')
  then show ?case
    using advance_to_next_timer_wf [of s b s'] released_tracked [of s s' l] by auto
next
  case (step_advance s d)
  then show ?case
    using released_tracked [OF advance_clock_released] by blast
qed (auto simp: tracked_def register_lane_def notify_complete_def register_wait_def signal_ready_def
    release_lane_def set_lane_weight_def btree_simps split: if_splits)

theorem no_lane_lost_witness:
  "tracked (LaneId 1) (advance_clock 5 (register_wait (LaneId 1) (Timer (Monotonic 3))
     (scheduler_new zero_hash 2 (replicate 32 0) Balanced)))"
proof -
  let ?s = "register_wait (LaneId 1) (Timer (Monotonic 3)) (scheduler_new zero_hash 2 (replicate 32 0) Balanced)"
  have "tracked (LaneId 1) ?s" "sched_wf ?s"
    by (simp_all add: tracked_def register_wait_def btree_simps scheduler_new_wf register_wait_wf [unfolded register_wait_def])
  then show ?thesis
    using no_lane_lost [OF step_advance [of zero_hash ?s 5], of "LaneId 1"] by simp
qed

text \<open>
  C24. Timers fire. After \<open>advance_clock\<close> or a successful \<open>advance_to_next_timer\<close> no stalled lane has a
  deadline the clock has reached, every lane whose deadline was reached is ready, lanes waiting
  for something else stay stalled, ready lanes keep their place, and the clock never moves back.
  \<open>advance_to_next_timer\<close> reports success exactly when some lane waits for a timer, and then at
  least one lane becomes ready.
\<close>

theorem timers_fire:
  assumes "sched_wf s"
  shows "released s (advance_clock delta s) \<and>
    (case advance_to_next_timer s of (b, s') \<Rightarrow>
       (b \<longleftrightarrow> (\<exists>l d. bt_get (stalled s) l = Some (Timer d))) \<and>
       (if b then released s s' \<and> has_ready s' else s' = s))"
proof -
  obtain b s' where run: "advance_to_next_timer s = (b, s')" by fastforce
  have "has_ready s'" if "b"
  proof -
    from run that have "advance_to_next_timer s = (True, s')" by simp
    note rel = advance_to_next_timer_released [OF assms this]
    from rel(2) obtain l d where "bt_get (stalled s) l = Some (Timer d)" "d \<le> sched_now s'"
      by blast
    then have "l \<in> set (ready s')"
      using rel(1) unfolding released_def by blast
    then show ?thesis
      by (auto simp: has_ready_def)
  qed
  then show ?thesis
    using advance_clock_released [OF assms] advance_to_next_timer_False [OF assms]
      advance_to_next_timer_released(1) [OF assms] run by auto
qed

theorem timers_fire_witness:
  "has_ready (snd (advance_to_next_timer (register_wait (LaneId 1) (Timer (Monotonic 3))
     (scheduler_new zero_hash 2 (replicate 32 0) Balanced))))"
proof -
  let ?s = "register_wait (LaneId 1) (Timer (Monotonic 3)) (scheduler_new zero_hash 2 (replicate 32 0) Balanced)"
  have wf: "sched_wf ?s"
    by (rule register_wait_wf [OF scheduler_new_wf])
  have "bt_get (stalled ?s) (LaneId 1) = Some (Timer (Monotonic 3))"
    by (simp add: register_wait_def btree_simps)
  then have ex: "\<exists>l d. bt_get (stalled ?s) l = Some (Timer d)" by blast
  obtain b s' where run: "advance_to_next_timer ?s = (b, s')" by fastforce
  from timers_fire [OF wf, of 0] ex show ?thesis
    unfolding run prod.case by (simp split: if_splits)
qed

text \<open>
  A dispatch on a live entropy stream returns and makes progress: it takes
  \<open>min contexts ready\<close> different lanes, all of them ready, removes exactly those from the ready
  queue, keeps the order of the rest and leaves the stalled lanes alone.
\<close>

theorem dispatch_progress:
  assumes "sched_wf s" "length (ready s) < 2 ^ 32" "live_stream H (sched_rng s)"
  shows "\<exists>chosen s'. take_dispatch_batch H s = Some (chosen, s') \<and> sched_wf s' \<and>
    distinct chosen \<and> set chosen \<subseteq> set (ready s) \<and> length chosen = min (execution_contexts s) (length (ready s)) \<and>
    (has_ready s \<longrightarrow> chosen \<noteq> []) \<and>
    ready s' = filter (\<lambda>l. l \<notin> set chosen) (ready s) \<and> stalled s' = stalled s"
proof -
  obtain chosen s' where run: "take_dispatch_batch H s = Some (chosen, s')" and
    r: "sched_wf s'" "distinct chosen" "set chosen \<subseteq> set (ready s)"
      "ready s' = filter (\<lambda>l. l \<notin> set chosen) (ready s)" "stalled s' = stalled s"
    and len: "length chosen = min (execution_contexts s) (length (ready s))"
    using take_dispatch_batch_spec [OF assms] by blast
  have "chosen \<noteq> []" if "has_ready s"
  proof
    assume "chosen = []"
    with len assms(1) that show False
      by (simp add: has_ready_def sched_wf_def min_def split: if_splits)
  qed
  then show ?thesis
    using run r len by (intro exI [of _ chosen] exI [of _ s']) simp
qed

theorem dispatch_progress_witness:
  "\<exists>chosen s'. take_dispatch_batch zero_hash (signal_ready (LaneId 2) (signal_ready (LaneId 1)
      (scheduler_new zero_hash 1 (replicate 32 0) Performance))) = Some (chosen, s') \<and> length chosen = 1"
proof -
  let ?s = "signal_ready (LaneId 2) (signal_ready (LaneId 1) (scheduler_new zero_hash 1 (replicate 32 0) Performance))"
  have "sched_wf ?s"
    by (simp add: signal_ready_def release_lane_wf scheduler_new_wf)
  moreover have "live_stream zero_hash (sched_rng ?s)"
    using zero_hash_live [OF from_seed_zero] by (simp add: signal_ready_def release_lane_def scheduler_new_def)
  moreover have "length (ready ?s) = 2" "execution_contexts ?s = 1"
    by (simp_all add: signal_ready_def release_lane_def scheduler_new_def)
  ultimately show ?thesis
    using dispatch_progress [of ?s zero_hash] by auto
qed

end
