(* ===== verification/Syscall_Abi.thy ===== *)
theory Syscall_Abi
  imports Bytes Shared_Types
begin

unbundle bit_operations_syntax

text \<open>
  The system call ABI (\<open>shared/src/protocols/syscall.rs\<close>) and the wire forms of the channel
  handshake (\<open>shared/src/protocols/ipc.rs\<close>): call numbers, error returns, packed key events, the
  argument block of the file calls, and channel terms. Return values are 64-bit words read as
  signed integers. A Rust array \<open>[u8; n]\<close> is a list of length \<open>n\<close>. The fixed-capacity string of the
  external \<open>heapless\<close> crate enters as a parameter.
\<close>

type_synonym i64 = "64 word"

section \<open>Call numbers\<close>

datatype syscall =
    Log | Exit | Yield | Now | FsRead | FsWrite | FsMkdir | FsExists | ReadKey | GetRandom
  | FsList | FsDelete | Sleep | OpenChannel | ChannelSend | ChannelRecv | Spawn | RequestChannel
  | PollChannelRequest | AcceptChannel | RejectChannel | PollChannelOutcome | GateBind | GateConnect
  | GateAccept | LinkSend | LinkRecv | LinkClose | WardenSet | GateProbe

definition syscall_from_number :: "u64 \<Rightarrow> syscall option" where
  "syscall_from_number n =
     (if n = 1 then Some Log
      else if n = 2 then Some Exit
      else if n = 3 then Some Yield
      else if n = 4 then Some Now
      else if n = 5 then Some FsRead
      else if n = 6 then Some FsWrite
      else if n = 7 then Some FsMkdir
      else if n = 8 then Some FsExists
      else if n = 9 then Some ReadKey
      else if n = 10 then Some GetRandom
      else if n = 11 then Some FsList
      else if n = 12 then Some FsDelete
      else if n = 13 then Some Sleep
      else if n = 14 then Some OpenChannel
      else if n = 15 then Some ChannelSend
      else if n = 16 then Some ChannelRecv
      else if n = 17 then Some Spawn
      else if n = 18 then Some RequestChannel
      else if n = 19 then Some PollChannelRequest
      else if n = 20 then Some AcceptChannel
      else if n = 21 then Some RejectChannel
      else if n = 22 then Some PollChannelOutcome
      else if n = 23 then Some GateBind
      else if n = 24 then Some GateConnect
      else if n = 25 then Some GateAccept
      else if n = 26 then Some LinkSend
      else if n = 27 then Some LinkRecv
      else if n = 28 then Some LinkClose
      else if n = 29 then Some WardenSet
      else if n = 30 then Some GateProbe
      else None)"

primrec syscall_number :: "syscall \<Rightarrow> u64" where
  "syscall_number Log = 1"
| "syscall_number Exit = 2"
| "syscall_number Yield = 3"
| "syscall_number Now = 4"
| "syscall_number FsRead = 5"
| "syscall_number FsWrite = 6"
| "syscall_number FsMkdir = 7"
| "syscall_number FsExists = 8"
| "syscall_number ReadKey = 9"
| "syscall_number GetRandom = 10"
| "syscall_number FsList = 11"
| "syscall_number FsDelete = 12"
| "syscall_number Sleep = 13"
| "syscall_number OpenChannel = 14"
| "syscall_number ChannelSend = 15"
| "syscall_number ChannelRecv = 16"
| "syscall_number Spawn = 17"
| "syscall_number RequestChannel = 18"
| "syscall_number PollChannelRequest = 19"
| "syscall_number AcceptChannel = 20"
| "syscall_number RejectChannel = 21"
| "syscall_number PollChannelOutcome = 22"
| "syscall_number GateBind = 23"
| "syscall_number GateConnect = 24"
| "syscall_number GateAccept = 25"
| "syscall_number LinkSend = 26"
| "syscall_number LinkRecv = 27"
| "syscall_number LinkClose = 28"
| "syscall_number WardenSet = 29"
| "syscall_number GateProbe = 30"

section \<open>Error returns\<close>

datatype syscall_error =
    NoSuchCall | BadAddress | InvalidArgument | NotPermitted | NotFound | IoError | WouldBlock

primrec syscall_error_code :: "syscall_error \<Rightarrow> i64" where
  "syscall_error_code NoSuchCall = 1"
| "syscall_error_code BadAddress = 2"
| "syscall_error_code InvalidArgument = 3"
| "syscall_error_code NotPermitted = 4"
| "syscall_error_code NotFound = 5"
| "syscall_error_code IoError = 6"
| "syscall_error_code WouldBlock = 7"

definition as_return :: "syscall_error \<Rightarrow> i64" where
  "as_return e = - syscall_error_code e"

definition from_return :: "i64 \<Rightarrow> syscall_error option" where
  "from_return v =
     (if v = - 1 then Some NoSuchCall
      else if v = - 2 then Some BadAddress
      else if v = - 3 then Some InvalidArgument
      else if v = - 4 then Some NotPermitted
      else if v = - 5 then Some NotFound
      else if v = - 6 then Some IoError
      else if v = - 7 then Some WouldBlock
      else None)"

section \<open>Key events\<close>

datatype key_code =
    KeyChar u32 | Enter | Backspace | Delete | Tab | Escape | Left | Right | Up | Down | Home | End

record key_mods =
  shift :: bool
  ctrl :: bool
  alt :: bool

primrec key_kind :: "key_code \<Rightarrow> u64" where
  "key_kind (KeyChar _) = 0"
| "key_kind Enter = 1"
| "key_kind Backspace = 2"
| "key_kind Delete = 3"
| "key_kind Tab = 4"
| "key_kind Escape = 5"
| "key_kind Left = 6"
| "key_kind Right = 7"
| "key_kind Up = 8"
| "key_kind Down = 9"
| "key_kind Home = 10"
| "key_kind End = 11"

definition KEY_CHAR_MASK :: u64 where
  "KEY_CHAR_MASK = 0xFFFFFFFF"

definition KEY_KIND_SHIFT :: nat where
  "KEY_KIND_SHIFT = 32"

definition KEY_MODS_SHIFT :: nat where
  "KEY_MODS_SHIFT = 40"

definition encode_key :: "key_code \<Rightarrow> key_mods \<Rightarrow> i64" where
  "encode_key code mods =
     (let ch = (case code of KeyChar c \<Rightarrow> ucast c | _ \<Rightarrow> 0);
          m = of_bool (shift mods) OR push_bit 1 (of_bool (ctrl mods)) OR push_bit 2 (of_bool (alt mods))
      in (ch AND KEY_CHAR_MASK) OR push_bit KEY_KIND_SHIFT (key_kind code) OR push_bit KEY_MODS_SHIFT m)"

definition decode_key :: "i64 \<Rightarrow> (key_code \<times> key_mods) option" where
  "decode_key r =
     (if sint r < 0 then None
      else
        let kind = drop_bit KEY_KIND_SHIFT r AND 0xFF;
            m = drop_bit KEY_MODS_SHIFT r AND 7;
            mods = \<lparr>shift = (m AND 1 \<noteq> 0), ctrl = (m AND 2 \<noteq> 0), alt = (m AND 4 \<noteq> 0)\<rparr>;
            code =
              (if kind = 0 then map_option KeyChar (char_from_u32 (ucast (r AND KEY_CHAR_MASK)))
               else if kind = 1 then Some Enter
               else if kind = 2 then Some Backspace
               else if kind = 3 then Some Delete
               else if kind = 4 then Some Tab
               else if kind = 5 then Some Escape
               else if kind = 6 then Some Left
               else if kind = 7 then Some Right
               else if kind = 8 then Some Up
               else if kind = 9 then Some Down
               else if kind = 10 then Some Home
               else if kind = 11 then Some End
               else None)
        in map_option (\<lambda>c. (c, mods)) code)"

section \<open>The argument block of the file calls\<close>

record fs_rw_args =
  path_ptr :: u64
  path_len :: u64
  buf_ptr :: u64
  buf_len :: u64

definition FS_RW_ARGS_LEN :: nat where
  "FS_RW_ARGS_LEN = 32"

definition fs_rw_args_to_bytes :: "fs_rw_args \<Rightarrow> u8 list" where
  "fs_rw_args_to_bytes a =
     to_le 8 (path_ptr a) @ to_le 8 (path_len a) @ to_le 8 (buf_ptr a) @ to_le 8 (buf_len a)"

definition fs_rw_args_from_bytes :: "u8 list \<Rightarrow> fs_rw_args" where
  "fs_rw_args_from_bytes b =
     (let u = (\<lambda>off. from_le (take 8 (drop off b))) in
      \<lparr>path_ptr = u 0, path_len = u 8, buf_ptr = u 16, buf_len = u 24\<rparr>)"

section \<open>Channel terms\<close>

datatype channel_direction = RequesterToReceiver | ReceiverToRequester | Bidirectional

primrec channel_direction_as_u8 :: "channel_direction \<Rightarrow> u8" where
  "channel_direction_as_u8 RequesterToReceiver = 1"
| "channel_direction_as_u8 ReceiverToRequester = 2"
| "channel_direction_as_u8 Bidirectional = 3"

record channel_terms =
  purpose :: "u8 list"
  direction :: channel_direction
  max_message_bytes :: u32
  buffer_capacity :: u32

definition MAX_CHANNEL_PURPOSE :: nat where
  "MAX_CHANNEL_PURPOSE = 64"

text \<open>
  \<open>heapless::String<N>::try_from(&str)\<close> as a parameter: for a capacity and a string, the stored
  string or nothing. Its documented behaviour is that it stores every string that fits.
\<close>

type_synonym heapless_string = "nat \<Rightarrow> u8 list \<Rightarrow> u8 list option"

definition stores_what_fits :: "heapless_string \<Rightarrow> bool" where
  "stores_what_fits hs \<longleftrightarrow> (\<forall>cap s. hs cap s = (if length s \<le> cap then Some s else None))"

definition channel_terms_new ::
    "heapless_string \<Rightarrow> u8 list \<Rightarrow> channel_direction \<Rightarrow> u32 \<Rightarrow> u32 \<Rightarrow> protocol_error + channel_terms" where
  "channel_terms_new hs p dir max_bytes capacity =
     (case hs MAX_CHANNEL_PURPOSE p of
        None \<Rightarrow> Inl (ChannelEstablishmentFailed ''purpose string too long'')
      | Some p' \<Rightarrow>
          if capacity = 0 then Inl (ChannelEstablishmentFailed ''buffer capacity must be non-zero'')
          else Inr \<lparr>purpose = p', direction = dir, max_message_bytes = max_bytes, buffer_capacity = capacity\<rparr>)"

record channel_terms_wire =
  wire_purpose :: "u8 list"
  wire_purpose_len :: u8
  wire_direction :: u8
  wire_max_message_bytes :: u32
  wire_buffer_capacity :: u32

definition CHANNEL_TERMS_WIRE_LEN :: nat where
  "CHANNEL_TERMS_WIRE_LEN = MAX_CHANNEL_PURPOSE + 1 + 1 + 2 + 4 + 4"

definition wire_from_terms :: "channel_terms \<Rightarrow> channel_terms_wire" where
  "wire_from_terms t =
     (let n = min (length (purpose t)) MAX_CHANNEL_PURPOSE in
      \<lparr>wire_purpose = take n (purpose t) @ drop n (replicate MAX_CHANNEL_PURPOSE 0),
       wire_purpose_len = of_nat n,
       wire_direction = channel_direction_as_u8 (direction t),
       wire_max_message_bytes = max_message_bytes t,
       wire_buffer_capacity = buffer_capacity t\<rparr>)"

definition wire_to_terms :: "heapless_string \<Rightarrow> channel_terms_wire \<Rightarrow> channel_terms option" where
  "wire_to_terms hs w =
     (let len = min (unat (wire_purpose_len w)) MAX_CHANNEL_PURPOSE in
      case from_utf8 (take len (wire_purpose w)) of
        None \<Rightarrow> None
      | Some p \<Rightarrow>
          (case (if wire_direction w = 1 then Some RequesterToReceiver
                 else if wire_direction w = 2 then Some ReceiverToRequester
                 else if wire_direction w = 3 then Some Bidirectional
                 else None) of
             None \<Rightarrow> None
           | Some dir \<Rightarrow>
               (case channel_terms_new hs p dir (wire_max_message_bytes w) (wire_buffer_capacity w) of
                  Inl _ \<Rightarrow> None
                | Inr t \<Rightarrow> Some t)))"

definition wire_to_bytes :: "channel_terms_wire \<Rightarrow> u8 list" where
  "wire_to_bytes w =
     wire_purpose w @ [wire_purpose_len w, wire_direction w, 0, 0] @
     to_le 4 (wire_max_message_bytes w) @ to_le 4 (wire_buffer_capacity w)"

definition wire_from_bytes :: "u8 list \<Rightarrow> channel_terms_wire" where
  "wire_from_bytes b =
     (let off = MAX_CHANNEL_PURPOSE in
      \<lparr>wire_purpose = take MAX_CHANNEL_PURPOSE b,
       wire_purpose_len = b ! off,
       wire_direction = b ! (off + 1),
       wire_max_message_bytes = from_le (take 4 (drop (off + 4) b)),
       wire_buffer_capacity = from_le (take 4 (drop (off + 8) b))\<rparr>)"

record channel_request_wire =
  wire_requester :: u64
  wire_terms :: channel_terms_wire

definition CHANNEL_REQUEST_WIRE_LEN :: nat where
  "CHANNEL_REQUEST_WIRE_LEN = 8 + CHANNEL_TERMS_WIRE_LEN"

definition request_to_bytes :: "channel_request_wire \<Rightarrow> u8 list" where
  "request_to_bytes r = to_le 8 (wire_requester r) @ wire_to_bytes (wire_terms r)"

definition request_from_bytes :: "u8 list \<Rightarrow> channel_request_wire" where
  "request_from_bytes b =
     \<lparr>wire_requester = from_le (take 8 b), wire_terms = wire_from_bytes (drop 8 b)\<rparr>"
section \<open>Round trips\<close>

lemma syscall_number_iff: "syscall_from_number n = Some s \<longleftrightarrow> n = syscall_number s"
proof
  assume "syscall_from_number n = Some s"
  then show "n = syscall_number s"
    unfolding syscall_from_number_def by (auto split: if_splits)
next
  assume "n = syscall_number s"
  then show "syscall_from_number n = Some s"
    by (cases s) (simp_all add: syscall_from_number_def)
qed

lemma from_return_iff: "from_return v = Some e \<longleftrightarrow> v = as_return e"
proof
  assume "from_return v = Some e"
  then show "v = as_return e"
    unfolding from_return_def by (auto simp: as_return_def split: if_splits)
next
  assume "v = as_return e"
  then show "from_return v = Some e"
    by (cases e) (simp_all add: from_return_def as_return_def)
qed

lemma as_return_negative: "sint (as_return e) < 0"
  by (cases e) (simp_all add: as_return_def)

text \<open>Three fields packed at bits 0, 32 and 40.\<close>

lemma packed_fields:
  fixes ch kind m :: u64
  assumes "take_bit 32 ch = ch" "take_bit 8 kind = kind" "take_bit 3 m = m"
  defines "r \<equiv> ch OR push_bit 32 kind OR push_bit 40 m"
  shows "r AND mask 32 = ch" "drop_bit 32 r AND mask 8 = kind" "drop_bit 40 r AND mask 3 = m" "0 \<le> sint r"
proof -
  have ch: "bit ch n \<Longrightarrow> n < 32" and kind: "bit kind n \<Longrightarrow> n < 8" and m: "bit m n \<Longrightarrow> n < 3" for n
    using assms(1-3) by (metis bit_take_bit_iff)+
  show "r AND mask 32 = ch"
    by (rule bit_word_eqI) (use ch in \<open>auto simp: r_def bit_simps\<close>)
  show "drop_bit 32 r AND mask 8 = kind"
    by (rule bit_word_eqI) (use ch kind m in \<open>fastforce simp: r_def bit_simps\<close>)
  show "drop_bit 40 r AND mask 3 = m"
    by (rule bit_word_eqI) (use ch kind m in \<open>fastforce simp: r_def bit_simps\<close>)
  have "\<not> bit r 63"
    using ch [of 63] kind [of 31] m [of 23] by (auto simp: r_def bit_simps)
  then show "0 \<le> sint r"
    using bit_last_iff [of r] by simp
qed

definition key_ok :: "key_code \<Rightarrow> bool" where
  "key_ok code = (case code of KeyChar c \<Rightarrow> is_scalar c | _ \<Rightarrow> True)"

lemma key_kind_bits: "take_bit 8 (key_kind code) = key_kind code"
  by (cases code) simp_all

lemma key_masks: "(0xFF :: u64) = mask 8" "(7 :: u64) = mask 3" "KEY_CHAR_MASK = mask 32"
  by (simp_all add: mask_eq_exp_minus_1 KEY_CHAR_MASK_def)

lemma encode_key_fields:
  defines "ch code \<equiv> (case code of KeyChar c \<Rightarrow> ucast c | _ \<Rightarrow> 0) AND mask 32 :: u64"
    and "m mods \<equiv> of_bool (shift mods) OR push_bit 1 (of_bool (ctrl mods)) OR push_bit 2 (of_bool (alt mods)) :: u64"
  shows "drop_bit KEY_KIND_SHIFT (encode_key code mods) AND 0xFF = key_kind code"
    "drop_bit KEY_MODS_SHIFT (encode_key code mods) AND 7 = m mods" "encode_key code mods AND KEY_CHAR_MASK = ch code"
    "m mods AND 1 \<noteq> 0 \<longleftrightarrow> shift mods" "m mods AND 2 \<noteq> 0 \<longleftrightarrow> ctrl mods" "m mods AND 4 \<noteq> 0 \<longleftrightarrow> alt mods"
    "0 \<le> sint (encode_key code mods)"
proof -
  have ch: "take_bit 32 (ch code) = ch code"
    by (simp add: ch_def take_bit_eq_mask and.assoc)
  have m: "take_bit 3 (m mods) = m mods"
    by (cases "shift mods"; cases "ctrl mods"; cases "alt mods"; simp add: m_def)
  show "m mods AND 1 \<noteq> 0 \<longleftrightarrow> shift mods" "m mods AND 2 \<noteq> 0 \<longleftrightarrow> ctrl mods" "m mods AND 4 \<noteq> 0 \<longleftrightarrow> alt mods"
    by (cases "shift mods"; cases "ctrl mods"; cases "alt mods"; simp add: m_def)+
  have enc: "encode_key code mods = ch code OR push_bit 32 (key_kind code) OR push_bit 40 (m mods)"
    by (simp only: encode_key_def Let_def key_masks KEY_KIND_SHIFT_def KEY_MODS_SHIFT_def ch_def m_def)
  note parts = packed_fields [OF ch key_kind_bits m, of code, folded enc]
  show "0 \<le> sint (encode_key code mods)"
    by (rule parts(4))
  show "drop_bit KEY_KIND_SHIFT (encode_key code mods) AND 0xFF = key_kind code"
    "drop_bit KEY_MODS_SHIFT (encode_key code mods) AND 7 = m mods" "encode_key code mods AND KEY_CHAR_MASK = ch code"
    unfolding key_masks KEY_KIND_SHIFT_def KEY_MODS_SHIFT_def by (rule parts)+
qed

lemma decode_encode_key:
  assumes "key_ok code"
  shows "decode_key (encode_key code mods) = Some (code, mods)"
proof -
  have char: "ucast ((case code of KeyChar c \<Rightarrow> ucast c | _ \<Rightarrow> 0) AND mask 32 :: u64) = c" if "code = KeyChar c" for c
    by (rule bit_word_eqI) (simp add: that bit_simps)
  show ?thesis
    unfolding decode_key_def Let_def encode_key_fields(1-6)
    using encode_key_fields(7) [of code mods] assms char by (cases code) (simp_all add: key_ok_def char_from_u32_def)
qed

lemma fs_rw_args_roundtrip: "fs_rw_args_from_bytes (fs_rw_args_to_bytes a) = a"
  by (simp add: fs_rw_args_from_bytes_def fs_rw_args_to_bytes_def byte_simps)

lemma wire_bytes_roundtrip:
  "length (wire_purpose w) = MAX_CHANNEL_PURPOSE \<Longrightarrow> wire_from_bytes (wire_to_bytes w) = w"
  by (simp add: wire_from_bytes_def wire_to_bytes_def nth_append byte_simps Let_def)

lemma length_wire_purpose: "length (wire_purpose (wire_from_terms t)) = MAX_CHANNEL_PURPOSE"
  by (simp add: wire_from_terms_def Let_def min_def)

lemma terms_roundtrip:
  assumes hs: "stores_what_fits hs" and utf8: "utf8_valid p" and new: "channel_terms_new hs p dir m c = Inr t"
  shows "wire_to_terms hs (wire_from_terms t) = Some t"
proof -
  have t: "t = \<lparr>purpose = p, direction = dir, max_message_bytes = m, buffer_capacity = c\<rparr>" "length p \<le> 64" "c \<noteq> 0"
    using hs new by (auto simp: channel_terms_new_def stores_what_fits_def MAX_CHANNEL_PURPOSE_def split: if_splits)
  have n: "unat (of_nat (length p) :: u8) = length p"
    using t(2) by (simp add: unsigned_of_nat take_bit_nat_eq_self)
  have d: "wire_direction (wire_from_terms t) = channel_direction_as_u8 dir"
    by (simp add: wire_from_terms_def t Let_def)
  have p: "take (min (unat (wire_purpose_len (wire_from_terms t))) 64) (wire_purpose (wire_from_terms t)) = p"
    using t(2) n by (simp add: wire_from_terms_def t MAX_CHANNEL_PURPOSE_def min_def Let_def)
  have rest: "wire_max_message_bytes (wire_from_terms t) = m" "wire_buffer_capacity (wire_from_terms t) = c"
    by (simp_all add: wire_from_terms_def t Let_def)
  show ?thesis
    unfolding wire_to_terms_def MAX_CHANNEL_PURPOSE_def p d rest Let_def
    using utf8 new by (cases dir) (simp_all add: from_utf8_def)
qed

section \<open>Properties\<close>

text \<open>
  Call numbers and error returns are exact codes: a number decodes to a call exactly when it is
  that call's number, a return value decodes to an error exactly when it is that error's code,
  and every error code is negative as a signed value.
\<close>

theorem abi_codes_exact:
  "(syscall_from_number n = Some s \<longleftrightarrow> n = syscall_number s) \<and>
   (from_return v = Some e \<longleftrightarrow> v = as_return e) \<and> sint (as_return e) < 0"
  by (simp add: syscall_number_iff from_return_iff as_return_negative)

text \<open>
  A key event survives \<open>encode_key\<close> and \<open>decode_key\<close>, and the packed value is non-negative, so it
  is never taken for an error return.
\<close>

theorem key_event_roundtrip:
  assumes "key_ok code"
  shows "decode_key (encode_key code mods) = Some (code, mods) \<and> 0 \<le> sint (encode_key code mods) \<and>
    from_return (encode_key code mods) = None"
proof -
  have "from_return (encode_key code mods) = None"
    using encode_key_fields(7) [of code mods] as_return_negative
    by (metis from_return_iff linorder_not_le not_Some_eq)
  then show ?thesis
    using decode_encode_key [OF assms] encode_key_fields(7) by simp
qed

theorem key_event_roundtrip_witness:
  "decode_key (encode_key (KeyChar 0x20AC) \<lparr>shift = True, ctrl = False, alt = True\<rparr>) =
     Some (KeyChar 0x20AC, \<lparr>shift = True, ctrl = False, alt = True\<rparr>)"
  using key_event_roundtrip [of "KeyChar 0x20AC" "\<lparr>shift = True, ctrl = False, alt = True\<rparr>"]
  by (simp add: key_ok_def is_scalar_def)



end
