(* ===== verification/Channel.thy ===== *)
theory Channel
  imports Scheduler Syscall_Abi
begin

text \<open>
  Channels (\<open>cibos-kernel/src/channel.rs\<close>): a bounded queue of byte messages with one slot for a
  parked receiver and one for a parked sender, and the registry that numbers channels and runs
  the cross-boundary request, accept and reject handshake. A channel talks to the kernel through
  the operations of \<open>KernelInterface\<close>. An operation first decides under the channel's lock, then
  calls the kernel after releasing it; the two halves are separate definitions.
\<close>

section \<open>Channels\<close>

record channel =
  chan_id :: channel_id
  capacity :: nat
  chan_max_message_bytes :: nat
  messages :: "u8 list list"
  receiver_waiter :: "lane_id option"
  sender_waiter :: "lane_id option"
  closed :: bool

datatype send_step = Sent | Full | SendClosed | TooLarge

datatype recv_step = Message "u8 list" | Empty | RecvClosed

datatype send_action = SentWake "lane_id option" | RegisterFull | SendActionClosed | SendActionTooLarge

datatype recv_action = GotWake "u8 list" "lane_id option" | RegisterEmpty | RecvActionClosed

definition channel_new :: "channel_id \<Rightarrow> channel_terms \<Rightarrow> channel" where
  "channel_new cid terms =
     \<lparr>chan_id = cid, capacity = unat (buffer_capacity terms),
      chan_max_message_bytes = unat (max_message_bytes terms), messages = [],
      receiver_waiter = None, sender_waiter = None, closed = False\<rparr>"

definition chan_pending :: "channel \<Rightarrow> nat" where
  "chan_pending c = length (messages c)"

definition send_decide :: "lane_id \<Rightarrow> u8 list \<Rightarrow> channel \<Rightarrow> send_action \<times> channel" where
  "send_decide lane msg c =
     (if closed c then (SendActionClosed, c)
      else if chan_max_message_bytes c < length msg then (SendActionTooLarge, c)
      else if length (messages c) < capacity c then
        (SentWake (receiver_waiter c), c\<lparr>messages := messages c @ [msg], receiver_waiter := None\<rparr>)
      else (RegisterFull, c\<lparr>sender_waiter := Some lane\<rparr>))"

definition wake :: "'s kif \<Rightarrow> lane_id option \<Rightarrow> 's \<Rightarrow> 's" where
  "wake K waiter k = (case waiter of None \<Rightarrow> k | Some l \<Rightarrow> kif_signal_ready K l k)"

definition send_execute :: "'s kif \<Rightarrow> channel_id \<Rightarrow> lane_id \<Rightarrow> send_action \<Rightarrow> 's \<Rightarrow> send_step \<times> 's" where
  "send_execute K cid lane act k =
     (case act of
        SentWake waiter \<Rightarrow> (Sent, wake K waiter k)
      | RegisterFull \<Rightarrow> (Full, kif_register_wait K lane (ChannelBuffer cid) k)
      | SendActionClosed \<Rightarrow> (SendClosed, k)
      | SendActionTooLarge \<Rightarrow> (TooLarge, k))"

definition try_send :: "'s kif \<Rightarrow> lane_id \<Rightarrow> u8 list \<Rightarrow> channel \<times> 's \<Rightarrow> send_step \<times> channel \<times> 's" where
  "try_send K lane msg ck =
     (let (c, k) = ck; (act, c') = send_decide lane msg c; (step, k') = send_execute K (chan_id c) lane act k
      in (step, c', k'))"

definition recv_decide :: "lane_id \<Rightarrow> channel \<Rightarrow> recv_action \<times> channel" where
  "recv_decide lane c =
     (case messages c of
        msg # rest \<Rightarrow> (GotWake msg (sender_waiter c), c\<lparr>messages := rest, sender_waiter := None\<rparr>)
      | [] \<Rightarrow>
          if closed c then (RecvActionClosed, c)
          else (RegisterEmpty, c\<lparr>receiver_waiter := Some lane\<rparr>))"

definition recv_execute :: "'s kif \<Rightarrow> channel_id \<Rightarrow> lane_id \<Rightarrow> recv_action \<Rightarrow> 's \<Rightarrow> recv_step \<times> 's" where
  "recv_execute K cid lane act k =
     (case act of
        GotWake msg waiter \<Rightarrow> (Message msg, wake K waiter k)
      | RegisterEmpty \<Rightarrow> (Empty, kif_register_wait K lane (ChannelData cid) k)
      | RecvActionClosed \<Rightarrow> (RecvClosed, k))"

definition try_recv :: "'s kif \<Rightarrow> lane_id \<Rightarrow> channel \<times> 's \<Rightarrow> recv_step \<times> channel \<times> 's" where
  "try_recv K lane ck =
     (let (c, k) = ck; (act, c') = recv_decide lane c; (step, k') = recv_execute K (chan_id c) lane act k
      in (step, c', k'))"

definition close :: "'s kif \<Rightarrow> channel \<times> 's \<Rightarrow> channel \<times> 's" where
  "close K ck =
     (let (c, k) = ck in
      (c\<lparr>closed := True, receiver_waiter := None, sender_waiter := None\<rparr>,
       wake K (sender_waiter c) (wake K (receiver_waiter c) k)))"

section \<open>Futures\<close>

datatype 'a poll = Ready 'a | Pending

definition poll_send ::
    "'s kif \<Rightarrow> lane_id \<Rightarrow> u8 list \<Rightarrow> channel \<times> 's \<Rightarrow> (protocol_error + unit) poll \<times> channel \<times> 's" where
  "poll_send K lane payload ck =
     (let (step, ck') = try_send K lane payload ck in
      (case step of
         Sent \<Rightarrow> Ready (Inr ())
       | Full \<Rightarrow> Pending
       | SendClosed \<Rightarrow> Ready (Inl ChannelClosed)
       | TooLarge \<Rightarrow> Ready (Inl (MessageTooLarge (length payload) (chan_max_message_bytes (fst ck)))),
       ck'))"

definition poll_recv ::
    "'s kif \<Rightarrow> lane_id \<Rightarrow> channel \<times> 's \<Rightarrow> (protocol_error + u8 list) poll \<times> channel \<times> 's" where
  "poll_recv K lane ck =
     (let (step, ck') = try_recv K lane ck in
      (case step of
         Message m \<Rightarrow> Ready (Inr m)
       | Empty \<Rightarrow> Pending
       | RecvClosed \<Rightarrow> Ready (Inl ChannelClosed),
       ck'))"

section \<open>The registry\<close>

record channel_request =
  req_target :: boundary_id
  req_terms :: channel_terms

record pending_request =
  pr_from :: boundary_id
  pr_target :: boundary_id
  pr_terms :: channel_terms

record channel_registry =
  next_id :: u64
  pending :: "(u64, pending_request) btreemap"
  next_request :: u64

definition registry_new :: channel_registry where
  "registry_new = \<lparr>next_id = 1, pending = [], next_request = 1\<rparr>"

definition registry_create :: "channel_terms \<Rightarrow> channel_registry \<Rightarrow> channel \<times> channel_registry" where
  "registry_create terms r =
     (channel_new (ChannelId (next_id r)) terms, r\<lparr>next_id := next_id r + 1\<rparr>)"

definition registry_request :: "boundary_id \<Rightarrow> channel_request \<Rightarrow> channel_registry \<Rightarrow> u64 \<times> channel_registry" where
  "registry_request from req r =
     (let rid = next_request r in
      (rid, r\<lparr>next_request := rid + 1,
             pending := bt_insert rid
               \<lparr>pr_from = from, pr_target = req_target req, pr_terms = req_terms req\<rparr> (pending r)\<rparr>))"

definition registry_poll :: "boundary_id \<Rightarrow> channel_registry \<Rightarrow> (u64 \<times> boundary_id \<times> channel_terms) option" where
  "registry_poll target r =
     map_option (\<lambda>(rid, p). (rid, pr_from p, pr_terms p))
       (find (\<lambda>(rid, p). pr_target p = target) (bt_entries (pending r)))"

definition registry_accept ::
    "u64 \<Rightarrow> boundary_id \<Rightarrow> channel_registry \<Rightarrow> (channel \<times> boundary_id) option \<times> channel_registry" where
  "registry_accept rid target r =
     (case bt_get (pending r) rid of
        None \<Rightarrow> (None, r)
      | Some p \<Rightarrow>
          if pr_target p = target then
            let (c, r) = registry_create (pr_terms p) (r\<lparr>pending := bt_remove rid (pending r)\<rparr>)
            in (Some (c, pr_from p), r)
          else (None, r))"

definition registry_reject :: "u64 \<Rightarrow> boundary_id \<Rightarrow> channel_registry \<Rightarrow> bool \<times> channel_registry" where
  "registry_reject rid target r =
     (case bt_get (pending r) rid of
        None \<Rightarrow> (False, r)
      | Some p \<Rightarrow>
          if pr_target p = target then (True, r\<lparr>pending := bt_remove rid (pending r)\<rparr>) else (False, r))"

definition is_pending :: "channel_registry \<Rightarrow> u64 \<Rightarrow> bool" where
  "is_pending r rid = bt_contains (pending r) rid"

section \<open>A queue in order\<close>

definition chan_wf :: "channel \<Rightarrow> bool" where
  "chan_wf c \<longleftrightarrow> 0 < capacity c \<and> length (messages c) \<le> capacity c \<and>
     (\<forall>m \<in> set (messages c). length m \<le> chan_max_message_bytes c) \<and>
     (receiver_waiter c \<noteq> None \<longrightarrow> messages c = [] \<and> \<not> closed c) \<and>
     (sender_waiter c \<noteq> None \<longrightarrow> length (messages c) = capacity c \<and> \<not> closed c)"

lemma channel_new_wf: "buffer_capacity terms \<noteq> 0 \<Longrightarrow> chan_wf (channel_new rid terms)"
  by (simp add: chan_wf_def channel_new_def unat_gt_0)

lemma send_decide_wf: "chan_wf c \<Longrightarrow> send_decide lane msg c = (act, c') \<Longrightarrow> chan_wf c'"
  by (auto simp: chan_wf_def send_decide_def not_less split: if_splits)

lemma recv_decide_wf: "chan_wf c \<Longrightarrow> recv_decide lane c = (act, c') \<Longrightarrow> chan_wf c'"
  by (auto simp: chan_wf_def recv_decide_def split: if_splits list.splits)

lemma close_wf: "chan_wf c \<Longrightarrow> chan_wf (fst (close K (c, k)))"
  by (auto simp: chan_wf_def close_def)
text \<open>
  Any interleaving of whole operations by any lanes, with arbitrary changes of the kernel state
  in between; \<open>sent\<close> and \<open>received\<close> log the messages accepted and handed out.
\<close>

inductive chan_run ::
    "'s kif \<Rightarrow> channel \<times> 's \<Rightarrow> u8 list list \<Rightarrow> u8 list list \<Rightarrow> channel \<times> 's \<Rightarrow> bool" for K ck0 where
  run_start: "chan_run K ck0 [] [] ck0"
| run_send: "chan_run K ck0 sent received ck \<Longrightarrow> try_send K lane msg ck = (step, ck') \<Longrightarrow>
    chan_run K ck0 (if step = Sent then sent @ [msg] else sent) received ck'"
| run_recv: "chan_run K ck0 sent received ck \<Longrightarrow> try_recv K lane ck = (step, ck') \<Longrightarrow>
    chan_run K ck0 sent (case step of Message m \<Rightarrow> received @ [m] | _ \<Rightarrow> received) ck'"
| run_close: "chan_run K ck0 sent received ck \<Longrightarrow> chan_run K ck0 sent received (close K ck)"
| run_env: "chan_run K ck0 sent received (c, k) \<Longrightarrow> chan_run K ck0 sent received (c, k')"

definition same_terms :: "channel \<Rightarrow> channel \<Rightarrow> bool" where
  "same_terms c c' \<longleftrightarrow> chan_id c' = chan_id c \<and> capacity c' = capacity c \<and>
     chan_max_message_bytes c' = chan_max_message_bytes c"

lemma try_send_cases:
  assumes "try_send K lane msg (c, k) = (step, c', k')"
  obtains "step = Sent" "c' = c\<lparr>messages := messages c @ [msg], receiver_waiter := None\<rparr>"
      "k' = wake K (receiver_waiter c) k" "\<not> closed c" "length msg \<le> chan_max_message_bytes c"
      "length (messages c) < capacity c"
  | "step = Full" "c' = c\<lparr>sender_waiter := Some lane\<rparr>" "k' = kif_register_wait K lane (ChannelBuffer (chan_id c)) k"
      "\<not> closed c" "capacity c \<le> length (messages c)"
  | "step = SendClosed \<or> step = TooLarge" "c' = c" "k' = k"
  using assms
  by (auto simp: try_send_def send_decide_def send_execute_def Let_def not_less split: if_splits)

lemma try_recv_cases:
  assumes "try_recv K lane (c, k) = (step, c', k')"
  obtains m ms where "step = Message m" "messages c = m # ms" "c' = c\<lparr>messages := ms, sender_waiter := None\<rparr>"
      "k' = wake K (sender_waiter c) k"
  | "step = Empty" "messages c = []" "\<not> closed c" "c' = c\<lparr>receiver_waiter := Some lane\<rparr>"
      "k' = kif_register_wait K lane (ChannelData (chan_id c)) k"
  | "step = RecvClosed" "c' = c" "k' = k"
  using assms
  by (auto simp: try_recv_def recv_decide_def recv_execute_def Let_def split: if_splits list.splits)

lemma try_send_wf: "try_send K lane msg (c, k) = (step, c', k') \<Longrightarrow> chan_wf c \<Longrightarrow> chan_wf c' \<and> same_terms c c'"
  by (erule try_send_cases) (auto simp: chan_wf_def same_terms_def)

lemma try_recv_wf: "try_recv K lane (c, k) = (step, c', k') \<Longrightarrow> chan_wf c \<Longrightarrow> chan_wf c' \<and> same_terms c c'"
  by (erule try_recv_cases) (auto simp: chan_wf_def same_terms_def)

lemma same_terms_trans: "same_terms a b \<Longrightarrow> same_terms b c \<Longrightarrow> same_terms a c"
  by (simp add: same_terms_def)

lemma chan_run_fifo:
  assumes "chan_run K ck0 sent received ck" "chan_wf (fst ck0)" "messages (fst ck0) = []"
  shows "chan_wf (fst ck) \<and> same_terms (fst ck0) (fst ck) \<and> sent = received @ messages (fst ck)"
  using assms
proof (induction rule: chan_run.induct)
  case run_start
  then show ?case by (simp add: same_terms_def)
next
  case (run_send sent received ck lane msg step ck')
  obtain c k c' k' where ck: "ck = (c, k)" "ck' = (c', k')" by (cases ck, cases ck')
  have wf: "chan_wf c" "same_terms (fst ck0) c" "sent = received @ messages c"
    using run_send.IH [OF run_send.prems] by (simp_all add: ck)
  from run_send.hyps(2) have step: "try_send K lane msg (c, k) = (step, c', k')" by (simp add: ck)
  from step have "(if step = Sent then sent @ [msg] else sent) = received @ messages c'"
    by (cases rule: try_send_cases) (auto simp: wf(3))
  then show ?case
    using try_send_wf [OF step wf(1)] same_terms_trans [OF wf(2)] by (simp add: ck)
next
  case (run_recv sent received ck lane step ck')
  obtain c k c' k' where ck: "ck = (c, k)" "ck' = (c', k')" by (cases ck, cases ck')
  have wf: "chan_wf c" "same_terms (fst ck0) c" "sent = received @ messages c"
    using run_recv.IH [OF run_recv.prems] by (simp_all add: ck)
  from run_recv.hyps(2) have step: "try_recv K lane (c, k) = (step, c', k')" by (simp add: ck)
  from step have "sent = (case step of Message m \<Rightarrow> received @ [m] | _ \<Rightarrow> received) @ messages c'"
    by (cases rule: try_recv_cases) (auto simp: wf(3))
  then show ?case
    using try_recv_wf [OF step wf(1)] same_terms_trans [OF wf(2)] by (simp add: ck)
next
  case (run_close sent received ck)
  then show ?case
    by (cases ck) (auto simp: close_def chan_wf_def same_terms_def)
next
  case (run_env sent received c k k')
  then show ?case by simp
qed

section \<open>No lost wakeup\<close>

text \<open>
  A channel with one receiving and one sending lane: the operations of these two lanes and
  \<open>close\<close> are steps, and the rest of the system may change the kernel state in any way that does
  not park either lane on this channel.
\<close>

inductive pair_run ::
    "'s kif \<Rightarrow> ('s \<Rightarrow> lane_id \<Rightarrow> wait_resource option) \<Rightarrow> ('s \<Rightarrow> bool) \<Rightarrow> lane_id \<Rightarrow> lane_id \<Rightarrow>
     channel \<times> 's \<Rightarrow> channel \<times> 's \<Rightarrow> bool"
  for K parked inv rl sl ck0 where
  pair_start: "pair_run K parked inv rl sl ck0 ck0"
| pair_send: "pair_run K parked inv rl sl ck0 ck \<Longrightarrow> try_send K sl msg ck = (step, ck') \<Longrightarrow>
    pair_run K parked inv rl sl ck0 ck'"
| pair_recv: "pair_run K parked inv rl sl ck0 ck \<Longrightarrow> try_recv K rl ck = (step, ck') \<Longrightarrow>
    pair_run K parked inv rl sl ck0 ck'"
| pair_close: "pair_run K parked inv rl sl ck0 ck \<Longrightarrow> pair_run K parked inv rl sl ck0 (close K ck)"
| pair_env: "pair_run K parked inv rl sl ck0 (c, k) \<Longrightarrow> inv k' \<Longrightarrow>
    (\<And>l r. r = ChannelData (chan_id c) \<or> r = ChannelBuffer (chan_id c) \<Longrightarrow> parked k' l = Some r \<Longrightarrow>
       parked k l = Some r) \<Longrightarrow>
    pair_run K parked inv rl sl ck0 (c, k')"

definition waiters_ok :: "('s \<Rightarrow> lane_id \<Rightarrow> wait_resource option) \<Rightarrow> lane_id \<Rightarrow> lane_id \<Rightarrow> channel \<Rightarrow> 's \<Rightarrow> bool" where
  "waiters_ok parked rl sl c k \<longleftrightarrow>
     (\<forall>l. parked k l = Some (ChannelData (chan_id c)) \<longrightarrow> receiver_waiter c = Some l) \<and>
     (\<forall>l. parked k l = Some (ChannelBuffer (chan_id c)) \<longrightarrow> sender_waiter c = Some l) \<and>
     (\<forall>l. receiver_waiter c = Some l \<longrightarrow> l = rl) \<and> (\<forall>l. sender_waiter c = Some l \<longrightarrow> l = sl)"

context kernel_interface
begin

lemma wake_inv: "inv k \<Longrightarrow> inv (wake K w k)"
  by (auto simp: wake_def signal_inv split: option.splits)

lemma wake_parked: "inv k \<Longrightarrow> parked (wake K w k) l = Some r \<longleftrightarrow> parked k l = Some r \<and> w \<noteq> Some l"
  by (auto simp: wake_def signal_parked split: option.splits)

lemma wait_parked_Some:
  "inv k \<Longrightarrow> parked (kif_register_wait K l r k) l' = Some r' \<longleftrightarrow> (if l' = l then r' = r else parked k l' = Some r')"
  by (auto simp: wait_parked)

lemma wake_runnable: "inv k \<Longrightarrow> runnable (wake K w k) = (case w of None \<Rightarrow> runnable k | Some l \<Rightarrow> insert l (runnable k))"
  by (auto simp: wake_def signal_runnable split: option.splits)

lemma send_waiters:
  assumes "try_send K sl msg (c, k) = (step, c', k')" "chan_wf c" "inv k" "waiters_ok parked rl sl c k"
  shows "inv k' \<and> waiters_ok parked rl sl c' k'"
  using assms(1)
proof (cases rule: try_send_cases)
  case 1
  then show ?thesis
    using assms(2-4) unfolding waiters_ok_def by (simp add: wake_inv wake_parked)
next
  case 2
  then show ?thesis
    using assms(2-4) unfolding waiters_ok_def chan_wf_def by (simp add: wait_inv wait_parked_Some)
qed (use assms in simp)

lemma recv_waiters:
  assumes "try_recv K rl (c, k) = (step, c', k')" "chan_wf c" "inv k" "waiters_ok parked rl sl c k"
  shows "inv k' \<and> waiters_ok parked rl sl c' k'"
  using assms(1)
proof (cases rule: try_recv_cases)
  case (1 m ms)
  then show ?thesis
    using assms(2-4) unfolding waiters_ok_def by (simp add: wake_inv wake_parked)
next
  case 2
  then show ?thesis
    using assms(2-4) unfolding waiters_ok_def chan_wf_def by (simp add: wait_inv wait_parked_Some)
qed (use assms in simp)

lemma close_waiters:
  assumes "inv k" "waiters_ok parked rl sl c k"
  shows "inv (snd (close K (c, k))) \<and> waiters_ok parked rl sl (fst (close K (c, k))) (snd (close K (c, k)))"
  using assms unfolding waiters_ok_def close_def by (simp add: wake_inv wake_parked)

lemma pair_run_waiters:
  assumes "pair_run K parked inv rl sl ck0 ck"
    and "chan_wf (fst ck0)" "inv (snd ck0)" "waiters_ok parked rl sl (fst ck0) (snd ck0)"
  shows "chan_wf (fst ck) \<and> inv (snd ck) \<and> waiters_ok parked rl sl (fst ck) (snd ck)"
  using assms
proof (induction rule: pair_run.induct)
  case pair_start
  then show ?case by simp
next
  case (pair_send ck msg step ck')
  obtain c k c' k' where ck: "ck = (c, k)" "ck' = (c', k')" by (cases ck, cases ck')
  then show ?case
    using pair_send send_waiters [of sl msg c k step c' k' rl] try_send_wf [of K sl msg c k step c' k'] by simp
next
  case (pair_recv ck step ck')
  obtain c k c' k' where ck: "ck = (c, k)" "ck' = (c', k')" by (cases ck, cases ck')
  then show ?case
    using pair_recv recv_waiters [of rl c k step c' k' sl] try_recv_wf [of K rl c k step c' k'] by simp
next
  case (pair_close ck)
  then show ?case
    using close_waiters [of "snd ck" rl sl "fst ck"] close_wf [of "fst ck" K "snd ck"] by simp
next
  case (pair_env c k k')
  then show ?case
    unfolding waiters_ok_def by simp
qed

end
lemma signal_ready_ready: "l \<in> set (ready (kif_signal_ready scheduler_kif l s))"
  by (simp add: scheduler_kif_def signal_ready_def release_lane_def)

lemma send_wakes:
  assumes "chan_wf c" "sched_wf s" "receiver_waiter c = Some rl" "length msg \<le> chan_max_message_bytes c"
  shows "\<exists>c' s'. try_send scheduler_kif sl msg (c, s) = (Sent, c', s') \<and> rl \<in> set (ready s')"
proof -
  have "send_decide sl msg c = (SentWake (Some rl), c\<lparr>messages := messages c @ [msg], receiver_waiter := None\<rparr>)"
    using assms by (simp add: send_decide_def chan_wf_def)
  then show ?thesis
    by (simp add: try_send_def send_execute_def wake_def signal_ready_ready)
qed

lemma recv_wakes:
  assumes "chan_wf c" "sched_wf s" "sender_waiter c = Some sl"
  shows "\<exists>m c' s'. try_recv scheduler_kif rl (c, s) = (Message m, c', s') \<and> sl \<in> set (ready s')"
proof -
  obtain m ms where "messages c = m # ms"
    using assms by (cases "messages c") (auto simp: chan_wf_def)
  then have "recv_decide rl c = (GotWake m (Some sl), c\<lparr>messages := ms, sender_waiter := None\<rparr>)"
    using assms(3) by (simp add: recv_decide_def)
  then show ?thesis
    by (simp add: try_recv_def recv_execute_def wake_def signal_ready_ready)
qed

section \<open>Properties\<close>

text \<open>
  C25. A channel is a bounded queue: under any interleaving of sends, receives and closes by any
  lanes, the messages accepted are exactly those already handed out followed by those buffered,
  in order, none lost, duplicated or altered; the buffer never exceeds the agreed capacity and
  no buffered message the agreed size.
\<close>

theorem channel_fifo_bounded:
  assumes "buffer_capacity terms \<noteq> 0" "chan_run K (channel_new cid terms, k0) sent received (c, k)"
  shows "sent = received @ messages c \<and> length (messages c) \<le> unat (buffer_capacity terms) \<and>
    (\<forall>m \<in> set (messages c). length m \<le> unat (max_message_bytes terms))"
  using chan_run_fifo [OF assms(2)] channel_new_wf [OF assms(1)]
  by (auto simp: chan_wf_def same_terms_def channel_new_def)

definition demo_terms :: channel_terms where
  "demo_terms = \<lparr>purpose = [], direction = Bidirectional, max_message_bytes = 8, buffer_capacity = 2\<rparr>"

definition demo_sched :: scheduler where
  "demo_sched = scheduler_new zero_hash 1 (replicate 32 0) Balanced"

lemmas chan_eval =
  try_send_def send_decide_def send_execute_def try_recv_def recv_decide_def recv_execute_def wake_def
  channel_new_def demo_terms_def scheduler_kif_def Let_def

theorem channel_fifo_bounded_witness:
  "\<exists>ck. chan_run scheduler_kif (channel_new (ChannelId 1) demo_terms, demo_sched) [[1], [2]] [[1]] ck \<and>
     messages (fst ck) = [[2]]"
proof -
  let ?c = "\<lambda>ms. (channel_new (ChannelId 1) demo_terms)\<lparr>messages := ms\<rparr>"
  have 0: "(channel_new (ChannelId 1) demo_terms, demo_sched) = (?c [], demo_sched)"
    by (simp add: channel_new_def)
  have 1: "try_send scheduler_kif (LaneId 1) [1] (?c [], demo_sched) = (Sent, ?c [[1]], demo_sched)"
    by (simp add: chan_eval)
  have 2: "try_send scheduler_kif (LaneId 1) [2] (?c [[1]], demo_sched) = (Sent, ?c [[1], [2]], demo_sched)"
    by (simp add: chan_eval)
  have 3: "try_recv scheduler_kif (LaneId 2) (?c [[1], [2]], demo_sched) = (Message [1], ?c [[2]], demo_sched)"
    by (simp add: chan_eval)
  have run: "chan_run scheduler_kif (channel_new (ChannelId 1) demo_terms, demo_sched) [[1], [2]] [[1]] (?c [[2]], demo_sched)"
    unfolding 0 using run_recv [OF run_send [OF run_send [OF run_start 1] 2] 3] by simp
  have "buffer_capacity demo_terms \<noteq> 0"
    by (simp add: demo_terms_def)
  from channel_fifo_bounded [OF this run] run show ?thesis by auto
qed



text \<open>
  C27. The two halves of a receive do not commute with a send. If another context completes a send
  after the receiver has recorded itself and released the channel's lock but before it registers
  its wait, the receiver ends up stalled with the message buffered and no waiter recorded, so no
  later send wakes it.
\<close>

theorem split_receive_loses_wakeup:
  assumes "sched_wf s" "messages c = []" "\<not> closed c" "0 < capacity c" "length msg \<le> chan_max_message_bytes c"
  shows "let (act, c1) = recv_decide rl c;
             (sent, c2, s2) = try_send scheduler_kif sl msg (c1, s);
             (got, s3) = recv_execute scheduler_kif (chan_id c) rl act s2
         in sent = Sent \<and> got = Empty \<and> messages c2 = [msg] \<and> receiver_waiter c2 = None \<and>
            bt_get (stalled s3) rl = Some (ChannelData (chan_id c)) \<and> rl \<notin> set (ready s3)"
  using assms
  by (simp add: recv_decide_def try_send_def send_decide_def send_execute_def recv_execute_def wake_def
      scheduler_kif_def register_wait_def btree_simps)

theorem split_receive_loses_wakeup_witness:
  "let (act, c1) = recv_decide (LaneId 1) (channel_new (ChannelId 1) demo_terms);
       (sent, c2, s2) = try_send scheduler_kif (LaneId 2) [5] (c1, demo_sched);
       (got, s3) = recv_execute scheduler_kif (ChannelId 1) (LaneId 1) act s2
   in messages c2 = [[5]] \<and> LaneId 1 \<notin> set (ready s3)"
  using split_receive_loses_wakeup [of demo_sched "channel_new (ChannelId 1) demo_terms" "[5]" "LaneId 1" "LaneId 2"]
  by (simp add: demo_sched_def scheduler_new_wf channel_new_def demo_terms_def split: prod.splits)
text \<open>
  C28. The handshake is point to point. Polling shows a boundary the oldest request aimed at it and
  nothing meant for others. Accepting succeeds exactly for a pending request whose target is the
  caller: it yields a channel with a fresh id, built from the proposed terms unchanged, and the
  requester's identity, and consumes the request, so that it can be neither accepted nor rejected
  again. Rejecting removes it under the same condition. In all other cases nothing changes.
\<close>

theorem handshake_point_to_point:
  assumes "bt_wf (pending r)"
  shows "(case registry_poll b r of
      None \<Rightarrow> \<forall>rid p. bt_get (pending r) rid = Some p \<longrightarrow> pr_target p \<noteq> b
    | Some (rid, from, terms) \<Rightarrow>
        (\<exists>p. bt_get (pending r) rid = Some p \<and> pr_target p = b \<and> pr_from p = from \<and> pr_terms p = terms) \<and>
        (\<forall>rid' p'. bt_get (pending r) rid' = Some p' \<longrightarrow> pr_target p' = b \<longrightarrow> rid \<le> rid')) \<and>
    (if \<exists>p. bt_get (pending r) rid = Some p \<and> pr_target p = b then
       \<exists>p r'. bt_get (pending r) rid = Some p \<and>
         registry_accept rid b r = (Some (channel_new (ChannelId (next_id r)) (pr_terms p), pr_from p), r') \<and>
         pending r' = bt_remove rid (pending r) \<and> next_id r' = next_id r + 1 \<and>
         fst (registry_reject rid b r) \<and> pending (snd (registry_reject rid b r)) = bt_remove rid (pending r) \<and>
         (\<forall>b'. registry_accept rid b' r' = (None, r') \<and> registry_reject rid b' r' = (False, r'))
     else registry_accept rid b r = (None, r) \<and> registry_reject rid b r = (False, r))"
proof -
  have poll: "case registry_poll b r of
      None \<Rightarrow> \<forall>rid p. bt_get (pending r) rid = Some p \<longrightarrow> pr_target p \<noteq> b
    | Some (rid, from, terms) \<Rightarrow>
        (\<exists>p. bt_get (pending r) rid = Some p \<and> pr_target p = b \<and> pr_from p = from \<and> pr_terms p = terms) \<and>
        (\<forall>rid' p'. bt_get (pending r) rid' = Some p' \<longrightarrow> pr_target p' = b \<longrightarrow> rid \<le> rid')"
  proof (cases "find (\<lambda>(rid, p). pr_target p = b) (bt_entries (pending r))")
    case None
    then show ?thesis
      using bt.find_None [OF assms, of "\<lambda>_ p. pr_target p = b"] by (simp add: registry_poll_def)
  next
    case (Some e)
    obtain rid p where e: "e = (rid, p)" by (cases e)
    show ?thesis
      using bt.find_Some [OF assms, of "\<lambda>_ p. pr_target p = b" rid p] Some by (auto simp: registry_poll_def e)
  qed
  have "\<exists>r'. registry_accept rid b r = (Some (channel_new (ChannelId (next_id r)) (pr_terms p), pr_from p), r') \<and>
      pending r' = bt_remove rid (pending r) \<and> next_id r' = next_id r + 1 \<and>
      fst (registry_reject rid b r) \<and> pending (snd (registry_reject rid b r)) = bt_remove rid (pending r) \<and>
      (\<forall>b'. registry_accept rid b' r' = (None, r') \<and> registry_reject rid b' r' = (False, r'))"
    if "bt_get (pending r) rid = Some p" "pr_target p = b" for p
    using that by (simp add: registry_accept_def registry_create_def registry_reject_def btree_simps)
  moreover have "registry_accept rid b r = (None, r) \<and> registry_reject rid b r = (False, r)"
    if "\<not> (\<exists>p. bt_get (pending r) rid = Some p \<and> pr_target p = b)"
    using that by (auto simp: registry_accept_def registry_reject_def split: option.splits)
  ultimately show ?thesis
    using poll by auto
qed

theorem handshake_point_to_point_witness:
  "let r = snd (registry_request (BoundaryId 3) \<lparr>req_target = BoundaryId 4, req_terms = demo_terms\<rparr> registry_new) in
   registry_poll (BoundaryId 5) r = None \<and> fst (registry_accept 1 (BoundaryId 5) r) = None \<and>
   (\<exists>r'. registry_accept 1 (BoundaryId 4) r = (Some (channel_new (ChannelId 1) demo_terms, BoundaryId 3), r'))"
proof -
  let ?r = "snd (registry_request (BoundaryId 3) \<lparr>req_target = BoundaryId 4, req_terms = demo_terms\<rparr> registry_new)"
  let ?p = "\<lparr>pr_from = BoundaryId 3, pr_target = BoundaryId 4, pr_terms = demo_terms\<rparr>"
  have wf: "bt_wf (pending ?r)"
    by (simp add: registry_request_def registry_new_def Let_def bt_wf_def)
  have g: "bt_get (pending ?r) 1 = Some ?p" "next_id ?r = 1" "registry_poll (BoundaryId 5) ?r = None"
    by (simp_all add: registry_request_def registry_new_def Let_def bt_get_def registry_poll_def bt_entries_def)
  from handshake_point_to_point [OF wf, of "BoundaryId 5" 1] g
  have "fst (registry_accept 1 (BoundaryId 5) ?r) = None" by simp
  moreover from handshake_point_to_point [OF wf, of "BoundaryId 4" 1] g
  have "\<exists>r'. registry_accept 1 (BoundaryId 4) ?r = (Some (channel_new (ChannelId 1) demo_terms, BoundaryId 3), r')"
    by auto
  ultimately show ?thesis
    using g(3) by (simp add: Let_def)
qed

end
