(* ===== verification/Gate.thy ===== *)
theory Gate
  imports Channel
begin

text \<open>
  The Lattice (\<open>cibos-kernel/src/gate.rs\<close>): Gates bound by boundaries, pending connects, and the
  Warden's deny list. A Link is a channel shared by its two endpoints; the reference-counted
  channels live in a heap, a list of cells, and a handle is the index of a cell. Both ends of a
  Link hold the same handle.
\<close>

section \<open>Shared channels\<close>

type_synonym chan_heap = "channel list"

type_synonym chan_ref = nat

definition chan_alloc :: "channel \<Rightarrow> chan_heap \<Rightarrow> chan_ref \<times> chan_heap" where
  "chan_alloc c h = (length h, h @ [c])"

definition str_bytes :: "string \<Rightarrow> u8 list" where
  "str_bytes s = map of_char s"

section \<open>State and operations\<close>

type_synonym gate = u16

datatype gate_state = GateOpen | GateClosed | GateBlocked

datatype gate_error = Refused | AlreadyBound | Blocked | GateWouldBlock | NotOwner

record pending_connect =
  pc_from :: boundary_id
  listener_link :: chan_ref

record bound_gate =
  owner :: boundary_id
  connects :: "pending_connect list"

record gate_registry =
  bound :: "(gate, bound_gate) btreemap"
  denied :: "(gate, unit) btreemap"
  link_capacity :: u32
  link_max_message :: u32

definition gate_registry_new :: gate_registry where
  "gate_registry_new = \<lparr>bound = [], denied = [], link_capacity = 16, link_max_message = 2048\<rparr>"

definition is_allowed :: "gate \<Rightarrow> gate_registry \<Rightarrow> bool" where
  "is_allowed g r \<longleftrightarrow> \<not> bt_contains (denied r) g"

definition warden_deny :: "gate \<Rightarrow> gate_registry \<Rightarrow> gate_registry" where
  "warden_deny g r = r\<lparr>denied := bt_insert g () (denied r)\<rparr>"

definition warden_allow :: "gate \<Rightarrow> gate_registry \<Rightarrow> gate_registry" where
  "warden_allow g r = r\<lparr>denied := bt_remove g (denied r)\<rparr>"

definition gate_bind :: "boundary_id \<Rightarrow> gate \<Rightarrow> gate_registry \<Rightarrow> (gate_error + unit) \<times> gate_registry" where
  "gate_bind own g r =
     (if \<not> is_allowed g r then (Inl Blocked, r)
      else if bt_contains (bound r) g then (Inl AlreadyBound, r)
      else (Inr (), r\<lparr>bound := bt_insert g \<lparr>owner = own, connects = []\<rparr> (bound r)\<rparr>))"

definition gate_unbind :: "boundary_id \<Rightarrow> gate \<Rightarrow> gate_registry \<Rightarrow> (gate_error + unit) \<times> gate_registry" where
  "gate_unbind own g r =
     (case bt_get (bound r) g of
        Some b \<Rightarrow>
          if owner b = own then (Inr (), r\<lparr>bound := bt_remove g (bound r)\<rparr>) else (Inl NotOwner, r)
      | None \<Rightarrow> (Inl Refused, r))"

definition gate_connect ::
    "heapless_string \<Rightarrow> boundary_id \<Rightarrow> gate \<Rightarrow> channel_id \<Rightarrow> gate_registry \<times> chan_heap \<Rightarrow>
     (gate_error + chan_ref) \<times> gate_registry \<times> chan_heap" where
  "gate_connect hs src g cid rh =
     (let (r, h) = rh in
      if \<not> is_allowed g r then (Inl Blocked, r, h)
      else
        case bt_get (bound r) g of
          None \<Rightarrow> (Inl Refused, r, h)
        | Some b \<Rightarrow>
            (case channel_terms_new hs (str_bytes ''lattice-link'') Bidirectional (link_max_message r) (link_capacity r) of
               Inl _ \<Rightarrow> (Inl Refused, r, h)
             | Inr terms \<Rightarrow>
                 let (link, h) = chan_alloc (channel_new cid terms) h;
                     b = b\<lparr>connects := connects b @ [\<lparr>pc_from = src, listener_link = link\<rparr>]\<rparr>
                 in (Inr link, r\<lparr>bound := bt_insert g b (bound r)\<rparr>, h)))"

definition gate_accept ::
    "boundary_id \<Rightarrow> gate \<Rightarrow> gate_registry \<Rightarrow> (gate_error + chan_ref \<times> boundary_id) \<times> gate_registry" where
  "gate_accept own g r =
     (case bt_get (bound r) g of
        None \<Rightarrow> (Inl Refused, r)
      | Some b \<Rightarrow>
          if owner b \<noteq> own then (Inl NotOwner, r)
          else
            case connects b of
              [] \<Rightarrow> (Inl GateWouldBlock, r)
            | pc # rest \<Rightarrow>
                (Inr (listener_link pc, pc_from pc), r\<lparr>bound := bt_insert g (b\<lparr>connects := rest\<rparr>) (bound r)\<rparr>))"

definition gate_probe :: "gate \<Rightarrow> gate_registry \<Rightarrow> gate_state" where
  "gate_probe g r =
     (if \<not> is_allowed g r then GateBlocked
      else if bt_contains (bound r) g then GateOpen else GateClosed)"

section \<open>What the operations do\<close>

lemma lattice_link_terms:
  "stores_what_fits hs \<Longrightarrow> cap \<noteq> 0 \<Longrightarrow>
   channel_terms_new hs (str_bytes ''lattice-link'') Bidirectional m cap =
     Inr \<lparr>purpose = str_bytes ''lattice-link'', direction = Bidirectional, max_message_bytes = m, buffer_capacity = cap\<rparr>"
  by (simp add: channel_terms_new_def stores_what_fits_def MAX_CHANNEL_PURPOSE_def str_bytes_def)

text \<open>
  The view of the registry: who owns a gate, and the connects queued on it.
\<close>

definition gate_owner :: "gate_registry \<Rightarrow> gate \<Rightarrow> boundary_id option" where
  "gate_owner r g = map_option owner (bt_get (bound r) g)"

definition gate_queue :: "gate_registry \<Rightarrow> gate \<Rightarrow> (boundary_id \<times> chan_ref) list" where
  "gate_queue r g =
     (case bt_get (bound r) g of None \<Rightarrow> [] | Some b \<Rightarrow> map (\<lambda>pc. (pc_from pc, listener_link pc)) (connects b))"

lemma gate_connect_outcome:
  assumes "stores_what_fits hs" "link_capacity r \<noteq> 0"
  shows "gate_connect hs src g cid (r, h) =
    (if \<not> is_allowed g r then (Inl Blocked, r, h)
     else case bt_get (bound r) g of
        None \<Rightarrow> (Inl Refused, r, h)
      | Some b \<Rightarrow> (Inr (length h),
          r\<lparr>bound := bt_insert g (b\<lparr>connects := connects b @ [\<lparr>pc_from = src, listener_link = length h\<rparr>]\<rparr>) (bound r)\<rparr>,
          h @ [channel_new cid \<lparr>purpose = str_bytes ''lattice-link'', direction = Bidirectional,
                 max_message_bytes = link_max_message r, buffer_capacity = link_capacity r\<rparr>]))"
  using lattice_link_terms [OF assms, of "link_max_message r"]
  by (simp add: gate_connect_def chan_alloc_def Let_def split: option.split)

text \<open>Steps of the Lattice; every one leaves the link terms alone.\<close>

inductive gate_reach :: "heapless_string \<Rightarrow> gate_registry \<times> chan_heap \<Rightarrow> bool" for hs where
  gate_start: "gate_reach hs (gate_registry_new, [])"
| gate_deny: "gate_reach hs (r, h) \<Longrightarrow> gate_reach hs (warden_deny g r, h)"
| gate_allow: "gate_reach hs (r, h) \<Longrightarrow> gate_reach hs (warden_allow g r, h)"
| gate_do_bind: "gate_reach hs (r, h) \<Longrightarrow> gate_bind own g r = (res, r') \<Longrightarrow> gate_reach hs (r', h)"
| gate_do_unbind: "gate_reach hs (r, h) \<Longrightarrow> gate_unbind own g r = (res, r') \<Longrightarrow> gate_reach hs (r', h)"
| gate_do_connect: "gate_reach hs rh \<Longrightarrow> gate_connect hs src g cid rh = (res, rh') \<Longrightarrow> gate_reach hs rh'"
| gate_do_accept: "gate_reach hs (r, h) \<Longrightarrow> gate_accept own g r = (res, r') \<Longrightarrow> gate_reach hs (r', h)"
| gate_traffic: "gate_reach hs (r, h) \<Longrightarrow> length h' = length h \<Longrightarrow> gate_reach hs (r, h')"

definition gate_inv :: "gate_registry \<times> chan_heap \<Rightarrow> bool" where
  "gate_inv rh \<longleftrightarrow> (case rh of (r, h) \<Rightarrow>
     bt_wf (bound r) \<and> bt_wf (denied r) \<and> link_capacity r = 16 \<and> link_max_message r = 2048 \<and>
     (\<forall>g. \<forall>(b, l) \<in> set (gate_queue r g). l < length h) \<and>
     (\<forall>g. distinct (map snd (gate_queue r g))) \<and>
     (\<forall>g g'. g \<noteq> g' \<longrightarrow> snd ` set (gate_queue r g) \<inter> snd ` set (gate_queue r g') = {}))"

lemma gate_queue_simps:
  "gate_queue (r\<lparr>denied := d\<rparr>) g = gate_queue r g"
  "gate_queue (r\<lparr>bound := bt_insert g' b (bound r)\<rparr>) g =
     (if g = g' then map (\<lambda>pc. (pc_from pc, listener_link pc)) (connects b) else gate_queue r g)"
  "gate_queue (r\<lparr>bound := bt_remove g' (bound r)\<rparr>) g = (if g = g' then [] else gate_queue r g)"
  by (simp_all add: gate_queue_def btree_simps)
lemma gate_inv_extend:
  assumes inv: "gate_inv (r, h)" and same: "bt_wf (bound r')" "denied r' = denied r"
    "link_capacity r' = link_capacity r" "link_max_message r' = link_max_message r"
    and q: "\<And>g'. gate_queue r' g' = (if g' = g then gate_queue r g @ [(src, length h)] else gate_queue r g')"
  shows "gate_inv (r', h @ [c])"
proof -
  have below: "\<And>g l. l \<in> snd ` set (gate_queue r g) \<Longrightarrow> l < length h"
    using inv unfolding gate_inv_def split by fastforce
  have fresh: "\<And>g. length h \<notin> snd ` set (gate_queue r g)"
    using below by blast
  have links: "snd ` set (gate_queue r' g') \<subseteq> {..< length (h @ [c])}" for g'
  proof
    fix l
    assume "l \<in> snd ` set (gate_queue r' g')"
    then have "l \<in> snd ` set (gate_queue r g') \<or> l = length h" unfolding q by (auto split: if_splits)
    then show "l \<in> {..< length (h @ [c])}" using below [of l g'] by (metis lessThan_iff length_append_singleton less_Suc_eq)
  qed
  have bound': "\<forall>g. \<forall>(b, l) \<in> set (gate_queue r' g). l < length (h @ [c])"
    using links by (fastforce simp del: length_append)
  have dist: "distinct (map snd (gate_queue r' g'))" for g'
    using inv fresh [of g] unfolding q gate_inv_def split by simp
  have disj: "snd ` set (gate_queue r' g1) \<inter> snd ` set (gate_queue r' g2) = {}" if "g1 \<noteq> g2" for g1 g2
  proof -
    have old: "snd ` set (gate_queue r g1) \<inter> snd ` set (gate_queue r g2) = {}"
      using inv that unfolding gate_inv_def split by simp
    show ?thesis
      using old fresh [of g1] fresh [of g2] that unfolding q by (cases "g1 = g"; cases "g2 = g") simp_all
  qed
  show ?thesis
    unfolding gate_inv_def split using inv same bound' dist disj unfolding gate_inv_def split by simp
qed

lemma gate_inv_connect:
  assumes "gate_inv (r, h)" "bt_get (bound r) g = Some b"
  shows "gate_inv (r\<lparr>bound := bt_insert g
    (b\<lparr>connects := connects b @ [\<lparr>pc_from = src, listener_link = length h\<rparr>]\<rparr>) (bound r)\<rparr>, h @ [c])"
  by (rule gate_inv_extend [OF assms(1), where g = g and src = src])
    (use assms in \<open>simp_all add: gate_queue_simps gate_inv_def btree_simps, simp add: gate_queue_def\<close>)

text \<open>A step that only shortens one gate's queue keeps the invariant.\<close>

lemma gate_inv_shrink:
  assumes "gate_inv (r, h)" "bt_wf (bound r')" "denied r' = denied r"
    "link_capacity r' = link_capacity r" "link_max_message r' = link_max_message r"
    and q: "\<And>g'. \<exists>n. gate_queue r' g' = drop n (gate_queue r g')"
  shows "gate_inv (r', h)"
proof -
  have sub: "set (gate_queue r' g') \<subseteq> set (gate_queue r g')" for g'
    using q [of g'] set_drop_subset by metis
  have dist: "distinct (map snd (gate_queue r' g'))" for g'
  proof -
    obtain n where "gate_queue r' g' = drop n (gate_queue r g')" using q by blast
    moreover have "distinct (map snd (gate_queue r g'))" using assms(1) unfolding gate_inv_def split by simp
    ultimately show ?thesis by (simp add: drop_map [symmetric])
  qed
  have disj: "snd ` set (gate_queue r' g1) \<inter> snd ` set (gate_queue r' g2) = {}" if "g1 \<noteq> g2" for g1 g2
  proof -
    have "snd ` set (gate_queue r g1) \<inter> snd ` set (gate_queue r g2) = {}"
      using assms(1) that unfolding gate_inv_def split by simp
    then show ?thesis using image_mono [OF sub [of g1], of snd] image_mono [OF sub [of g2], of snd] by blast
  qed
  have bound': "\<forall>g. \<forall>(b, l) \<in> set (gate_queue r' g). l < length h"
    using assms(1) sub unfolding gate_inv_def split by blast
  show ?thesis
    unfolding gate_inv_def split using assms(1-5) bound' dist disj unfolding gate_inv_def split by simp
qed

text \<open>Bind, unbind and accept drop a prefix of one gate's queue and touch nothing else of the view.\<close>

lemma gate_queue_drops:
  "gate_bind own g r = (res, r') \<Longrightarrow> \<exists>n. gate_queue r' g' = drop n (gate_queue r g')"
  "gate_unbind own g r = (res', r') \<Longrightarrow> \<exists>n. gate_queue r' g' = drop n (gate_queue r g')"
  "gate_accept own g r = (res'', r') \<Longrightarrow> \<exists>n. gate_queue r' g' = drop n (gate_queue r g')"
proof -
  have none: "\<exists>n. [] = drop n xs" and all: "\<exists>n. xs = drop n xs" for xs :: "(boundary_id \<times> chan_ref) list"
    by (rule exI [of _ "length xs"], simp) (rule exI [of _ 0], simp)
  show "gate_bind own g r = (res, r') \<Longrightarrow> \<exists>n. gate_queue r' g' = drop n (gate_queue r g')"
    by (cases "g' = g") (auto simp: gate_bind_def gate_queue_simps none all split: if_splits)
  show "gate_unbind own g r = (res', r') \<Longrightarrow> \<exists>n. gate_queue r' g' = drop n (gate_queue r g')"
    by (cases "g' = g") (auto simp: gate_unbind_def gate_queue_simps none all split: if_splits option.splits)
  show "gate_accept own g r = (res'', r') \<Longrightarrow> \<exists>n. gate_queue r' g' = drop n (gate_queue r g')"
  proof (cases "g' = g \<and> r' \<noteq> r")
    case True
    moreover assume "gate_accept own g r = (res'', r')"
    ultimately have "gate_queue r' g' = drop 1 (gate_queue r g')"
      by (auto simp: gate_accept_def gate_queue_simps split: if_splits option.splits list.splits) (simp add: gate_queue_def)
    then show ?thesis by blast
  qed (auto simp: gate_accept_def gate_queue_simps all split: if_splits option.splits list.splits)
qed

lemma gate_ops_frame:
  "gate_bind own g r = (res, r') \<Longrightarrow> bt_wf (bound r) \<Longrightarrow>
     bt_wf (bound r') \<and> denied r' = denied r \<and> link_capacity r' = link_capacity r \<and> link_max_message r' = link_max_message r"
  "gate_unbind own g r = (res', r') \<Longrightarrow> bt_wf (bound r) \<Longrightarrow>
     bt_wf (bound r') \<and> denied r' = denied r \<and> link_capacity r' = link_capacity r \<and> link_max_message r' = link_max_message r"
  "gate_accept own g r = (res'', r') \<Longrightarrow> bt_wf (bound r) \<Longrightarrow>
     bt_wf (bound r') \<and> denied r' = denied r \<and> link_capacity r' = link_capacity r \<and> link_max_message r' = link_max_message r"
  by (auto simp: gate_bind_def gate_unbind_def gate_accept_def btree_simps
      split: if_splits option.splits list.splits)

lemma gate_inv_ops:
  assumes "gate_inv (r, h)"
  shows "gate_bind own g r = (res, r') \<Longrightarrow> gate_inv (r', h)"
    and "gate_unbind own g r = (res', r') \<Longrightarrow> gate_inv (r', h)"
    and "gate_accept own g r = (res'', r') \<Longrightarrow> gate_inv (r', h)"
proof -
  have wf: "bt_wf (bound r)" using assms unfolding gate_inv_def by simp
  show "gate_bind own g r = (res, r') \<Longrightarrow> gate_inv (r', h)"
    using gate_inv_shrink [OF assms] gate_ops_frame(1) [OF _ wf] gate_queue_drops(1) by metis
  show "gate_unbind own g r = (res', r') \<Longrightarrow> gate_inv (r', h)"
    using gate_inv_shrink [OF assms] gate_ops_frame(2) [OF _ wf] gate_queue_drops(2) by metis
  show "gate_accept own g r = (res'', r') \<Longrightarrow> gate_inv (r', h)"
    using gate_inv_shrink [OF assms] gate_ops_frame(3) [OF _ wf] gate_queue_drops(3) by metis
qed

lemma gate_inv_reach:
  assumes "gate_reach hs rh" "stores_what_fits hs"
  shows "gate_inv rh"
  using assms(1)
proof (induction rule: gate_reach.induct)
  case gate_start
  show ?case by (simp add: gate_inv_def gate_registry_new_def gate_queue_def bt_get_def bt_wf_def)
next
  case (gate_deny r h g)
  then show ?case by (simp add: gate_inv_def warden_deny_def gate_queue_simps btree_simps)
next
  case (gate_allow r h g)
  then show ?case by (simp add: gate_inv_def warden_allow_def gate_queue_simps btree_simps)
next
  case (gate_do_connect rh src g cid res rh')
  obtain r h where rh: "rh = (r, h)" by (cases rh)
  have cap: "link_capacity r \<noteq> 0" using gate_do_connect(3) by (simp add: rh gate_inv_def)
  show ?case
  proof (cases "is_allowed g r \<and> bt_get (bound r) g \<noteq> None")
    case True
    then obtain b where "bt_get (bound r) g = Some b" by blast
    from gate_inv_connect [OF _ this] gate_do_connect(2,3) True this show ?thesis
      unfolding rh gate_connect_outcome [OF assms(2) cap] by auto
  next
    case False
    with gate_do_connect(2,3) show ?thesis
      unfolding rh gate_connect_outcome [OF assms(2) cap] by (auto split: if_splits)
  qed
next
  case (gate_traffic r h h')
  then show ?case by (simp add: gate_inv_def)
next
  case (gate_do_bind r h own g res r')
  show ?case by (rule gate_inv_ops(1) [OF gate_do_bind(3) gate_do_bind(2)])
next
  case (gate_do_unbind r h own g res r')
  show ?case by (rule gate_inv_ops(2) [OF gate_do_unbind(3) gate_do_unbind(2)])
next
  case (gate_do_accept r h own g res r')
  show ?case by (rule gate_inv_ops(3) [OF gate_do_accept(3) gate_do_accept(2)])
qed
section \<open>The Lattice is exclusive and its Warden total\<close>

definition lattice_run :: "gate_registry \<times> chan_heap" where
  "lattice_run =
     snd (gate_connect (\<lambda>n s. if length s \<le> n then Some s else None) (BoundaryId 9) 80 (ChannelId 5)
       (snd (gate_bind (BoundaryId 7) 80 gate_registry_new), []))"

text \<open>
  C29. In every state the Lattice can reach: (1) a Gate the Warden denies can be neither bound nor
  connected to, whoever asks, the attempt changes nothing, and a probe reports it blocked; (2) a
  bind succeeds exactly on an allowed, unowned Gate and makes the caller its owner with an empty
  queue, other Gates untouched; (3) a connect to an allowed, owned Gate always succeeds, returns a
  Link that is on no queue yet, appends that very Link at the end of this Gate's queue and changes
  no owner and no other queue; (4) an accept by the owner takes the oldest connect, with the
  connector's true identity, and no other boundary can accept or unbind.
\<close>

theorem gate_links_exclusive:
  assumes "gate_reach hs (r, h)" "stores_what_fits hs"
  shows
    "(\<not> is_allowed g r \<longrightarrow>
        gate_bind b g r = (Inl Blocked, r) \<and> gate_connect hs b g cid (r, h) = (Inl Blocked, r, h) \<and>
        gate_probe g r = GateBlocked) \<and>
     ((fst (gate_bind b g r) = Inr ()) = (is_allowed g r \<and> gate_owner r g = None)) \<and>
     (fst (gate_bind b g r) = Inr () \<longrightarrow>
        gate_owner (snd (gate_bind b g r)) = (gate_owner r)(g \<mapsto> b) \<and>
        gate_queue (snd (gate_bind b g r)) = (gate_queue r)(g := [])) \<and>
     (is_allowed g r \<and> gate_owner r g \<noteq> None \<longrightarrow>
        (\<exists>r' c. gate_connect hs b g cid (r, h) = (Inr (length h), r', h @ [c]) \<and> chan_id c = cid \<and>
           messages c = [] \<and> \<not> closed c \<and>
           (\<forall>g'. length h \<notin> snd ` set (gate_queue r g')) \<and> gate_owner r' = gate_owner r \<and>
           gate_queue r' = (gate_queue r)(g := gate_queue r g @ [(b, length h)]))) \<and>
     (gate_owner r g = Some b \<longrightarrow>
        (case gate_queue r g of
           [] \<Rightarrow> gate_accept b g r = (Inl GateWouldBlock, r)
         | (src, link) # rest \<Rightarrow>
             \<exists>r'. gate_accept b g r = (Inr (link, src), r') \<and> gate_owner r' = gate_owner r \<and>
               gate_queue r' = (gate_queue r)(g := rest))) \<and>
     (gate_owner r g \<notin> {None, Some b} \<longrightarrow>
        gate_accept b g r = (Inl NotOwner, r) \<and> gate_unbind b g r = (Inl NotOwner, r))"
  (is "?denied \<and> ?bound \<and> ?bind \<and> ?connect \<and> ?accept \<and> ?other")
proof (intro conjI)
  have inv: "gate_inv (r, h)" by (rule gate_inv_reach [OF assms])
  have cap: "link_capacity r \<noteq> 0" using inv by (simp add: gate_inv_def)
  have fresh: "length h \<notin> snd ` set (gate_queue r g')" for g'
    using inv unfolding gate_inv_def split by fastforce
  show ?denied by (simp add: gate_bind_def gate_connect_def gate_probe_def)
  show ?bound by (simp add: gate_bind_def gate_owner_def bt_contains_def)
  show ?bind
    by (auto simp: gate_bind_def gate_owner_def gate_queue_simps fun_eq_iff btree_simps split: if_splits)
  show ?connect
  proof
    assume ok: "is_allowed g r \<and> gate_owner r g \<noteq> None"
    then obtain bg where bg: "bt_get (bound r) g = Some bg" by (auto simp: gate_owner_def)
    let ?bg = "bg\<lparr>connects := connects bg @ [\<lparr>pc_from = b, listener_link = length h\<rparr>]\<rparr>"
    let ?r = "r\<lparr>bound := bt_insert g ?bg (bound r)\<rparr>"
    have "gate_owner ?r = gate_owner r" using bg by (simp add: gate_owner_def fun_eq_iff btree_simps)
    moreover have "gate_queue ?r = (gate_queue r)(g := gate_queue r g @ [(b, length h)])"
      using bg by (simp add: fun_eq_iff gate_queue_simps) (simp add: gate_queue_def)
    ultimately show "\<exists>r' c. gate_connect hs b g cid (r, h) = (Inr (length h), r', h @ [c]) \<and> chan_id c = cid \<and>
           messages c = [] \<and> \<not> closed c \<and>
           (\<forall>g'. length h \<notin> snd ` set (gate_queue r g')) \<and> gate_owner r' = gate_owner r \<and>
           gate_queue r' = (gate_queue r)(g := gate_queue r g @ [(b, length h)])"
      using ok bg fresh unfolding gate_connect_outcome [OF assms(2) cap]
      by (intro exI [of _ ?r]) (simp add: channel_new_def)
  qed
  show ?accept
    by (auto simp: gate_owner_def gate_queue_def gate_accept_def fun_eq_iff btree_simps split: list.splits)
  show ?other
    by (auto simp: gate_owner_def gate_accept_def gate_unbind_def)
qed

theorem gate_links_exclusive_witness:
  "gate_accept (BoundaryId 7) 80 (fst lattice_run) \<noteq> gate_accept (BoundaryId 8) 80 (fst lattice_run) \<and>
   (\<exists>r'. gate_accept (BoundaryId 7) 80 (fst lattice_run) = (Inr (0, BoundaryId 9), r')) \<and>
   gate_accept (BoundaryId 8) 80 (fst lattice_run) = (Inl NotOwner, fst lattice_run)"
proof -
  let ?hs = "\<lambda>n s. if length s \<le> n then Some s else None"
  have hs: "stores_what_fits ?hs" by (simp add: stores_what_fits_def)
  have "gate_reach ?hs (snd (gate_bind (BoundaryId 7) 80 gate_registry_new), [])"
    by (rule gate_do_bind [OF gate_start]) (rule surjective_pairing)
  then have reach: "gate_reach ?hs lattice_run"
    unfolding lattice_run_def by (rule gate_do_connect) (rule surjective_pairing)
  have run: "gate_owner (fst lattice_run) 80 = Some (BoundaryId 7)" "gate_queue (fst lattice_run) 80 = [(BoundaryId 9, 0)]"
    by (simp_all add: lattice_run_def gate_bind_def gate_registry_new_def is_allowed_def gate_connect_def
        lattice_link_terms [OF hs] chan_alloc_def gate_owner_def gate_queue_def bt_contains_def bt_get_def)
  have reach': "gate_reach ?hs (fst lattice_run, snd lattice_run)" using reach by simp
  have "\<exists>r'. gate_accept (BoundaryId 7) 80 (fst lattice_run) = (Inr (0, BoundaryId 9), r')"
    using gate_links_exclusive [OF reach' hs, of 80 "BoundaryId 7" "ChannelId 0"] run by (auto simp del: not_Some_eq)
  moreover have "gate_accept (BoundaryId 8) 80 (fst lattice_run) = (Inl NotOwner, fst lattice_run)"
    using gate_links_exclusive [OF reach' hs, of 80 "BoundaryId 8" "ChannelId 0"] run by simp
  ultimately show ?thesis by auto
qed

end
