(* ===== verification/Memory_Manager.thy ===== *)
theory Memory_Manager
  imports Shared_Types BTree_Map
begin

text \<open>
  Physical memory accounting (\<open>cibos-kernel/src/memory.rs\<close>): the usable total of the firmware
  map and the reservation of every boundary against it.
\<close>

record mem_state =
  mem_regions :: "memory_region list"
  total_usable :: u64
  reserved :: u64
  by_boundary :: "(boundary_id, u64) btreemap"

definition mem_from_regions :: "memory_region list \<Rightarrow> mem_state" where
  "mem_from_regions regions =
     (let usable = filter (\<lambda>r. kind r = Usable) regions in
      \<lparr>mem_regions = usable,
       total_usable = fold (\<lambda>l acc. saturating_add acc l) (map region_length usable) 0,
       reserved = 0, by_boundary = []\<rparr>)"

definition available :: "mem_state \<Rightarrow> u64" where
  "available s = saturating_sub (total_usable s) (reserved s)"

definition region_count :: "mem_state \<Rightarrow> nat" where
  "region_count s = length (mem_regions s)"

definition reserve :: "boundary_id \<Rightarrow> u64 \<Rightarrow> mem_state \<Rightarrow> (kernel_error + unit) \<times> mem_state" where
  "reserve b bytes s =
     (let new_reserved = saturating_add (reserved s) bytes in
      if total_usable s < new_reserved then (Inl (LimitExceeded ''memory''), s)
      else
        let old = (case bt_get (by_boundary s) b of Some n \<Rightarrow> n | None \<Rightarrow> 0) in
        (Inr (), s\<lparr>reserved := new_reserved, by_boundary := bt_insert b (old + bytes) (by_boundary s)\<rparr>))"

definition release_all :: "boundary_id \<Rightarrow> mem_state \<Rightarrow> mem_state" where
  "release_all b s =
     (case bt_get (by_boundary s) b of
        Some amount \<Rightarrow>
          s\<lparr>reserved := saturating_sub (reserved s) amount, by_boundary := bt_remove b (by_boundary s)\<rparr>
      | None \<Rightarrow> s\<lparr>by_boundary := bt_remove b (by_boundary s)\<rparr>)"

definition reservation :: "boundary_id \<Rightarrow> mem_state \<Rightarrow> u64" where
  "reservation b s = (case bt_get (by_boundary s) b of Some n \<Rightarrow> n | None \<Rightarrow> 0)"

section \<open>The reservations add up\<close>

definition bt_total :: "('k, 'a::len word) btreemap \<Rightarrow> nat" where
  "bt_total m = (\<Sum>(k, n) \<leftarrow> m. unat n)"

lemma bt_total_insert:
  assumes "bt_wf m"
  shows "bt_total (bt_insert k v m) + (case bt_get m k of None \<Rightarrow> 0 | Some n \<Rightarrow> unat n) = bt_total m + unat v"
  using assms
proof (induction k v m rule: bt_insert.induct)
  case (2 k v k' v' m)
  have none: "map_of m k = None" if "k < k' \<or> k = k'"
  proof -
    have "k \<notin> fst ` set m" using 2(2) that by (fastforce simp: bt_wf_def)
    then show ?thesis by (simp add: map_of_eq_None_iff)
  qed
  have wf: "bt_wf m" using 2(2) by (simp add: bt_wf_def)
  show ?case
  proof (cases "k < k' \<or> k = k'")
    case True
    then show ?thesis using none by (auto simp: bt_total_def bt_get_def)
  next
    case False
    then show ?thesis using 2(1) wf by (auto simp: bt_total_def bt_get_def split: option.splits)
  qed
qed (simp add: bt_total_def)

lemma bt_total_remove:
  assumes "bt_wf m"
  shows "bt_total (bt_remove k m) + (case bt_get m k of None \<Rightarrow> 0 | Some n \<Rightarrow> unat n) = bt_total m"
  using assms
proof (induction m)
  case (Cons e m)
  have "fst e \<notin> fst ` set m" using Cons(2) by (fastforce simp: bt_wf_def)
  then have out: "filter (\<lambda>(k', _). k' \<noteq> fst e) m = m" by (subst filter_id_conv) (auto simp: image_iff)
  have wf: "bt_wf m" using Cons(2) by (simp add: bt_wf_def)
  obtain k' v' where e: "e = (k', v')" by (cases e)
  show ?case
  proof (cases "k = k'")
    case True
    then show ?thesis using out by (simp add: e bt_total_def bt_get_def bt_remove_def)
  next
    case False
    then show ?thesis using Cons(1) [OF wf] by (auto simp: e bt_total_def bt_get_def bt_remove_def split: option.splits)
  qed
qed (simp add: bt_total_def bt_remove_def)

lemma bt_total_member:
  assumes "bt_get m k = Some n"
  shows "unat n \<le> bt_total m"
  using map_of_SomeD [OF assms [unfolded bt_get_def]]
  by (induction m) (auto simp: bt_total_def)

lemma fold_saturating_add:
  "unat (fold (\<lambda>l acc. saturating_add acc l) ls a) = min (unat a + sum_list (map unat ls)) (2 ^ LENGTH('a) - 1)"
  for a :: "'a::len word"
proof (induction ls arbitrary: a)
  case Nil
  have "unat a < 2 ^ LENGTH('a)" by (rule unsigned_less)
  then have "unat a \<le> 2 ^ LENGTH('a) - 1" by linarith
  then show ?case by simp
next
  case (Cons l ls)
  then show ?case by (simp add: unat_saturating_add)
qed

definition usable_bytes :: "memory_region list \<Rightarrow> nat" where
  "usable_bytes rs = (\<Sum>r \<leftarrow> filter (\<lambda>r. kind r = Usable) rs. unat (region_length r))"

definition mem_wf :: "mem_state \<Rightarrow> bool" where
  "mem_wf s \<longleftrightarrow> bt_wf (by_boundary s) \<and> reserved s \<le> total_usable s \<and> total_usable s \<noteq> - 1 \<and>
     unat (reserved s) = bt_total (by_boundary s)"

lemma mem_wf_new:
  assumes "usable_bytes rs < 2 ^ 64 - 1"
  shows "mem_wf (mem_from_regions rs) \<and> unat (total_usable (mem_from_regions rs)) = usable_bytes rs"
proof -
  have "unat (total_usable (mem_from_regions rs)) = usable_bytes rs"
    using assms by (simp add: mem_from_regions_def Let_def fold_saturating_add usable_bytes_def comp_def)
  then show ?thesis
    using assms by (auto simp: mem_wf_def mem_from_regions_def Let_def bt_total_def unsigned_minus_1_eq_mask mask_eq_exp_minus_1)
qed

lemma reserve_cases:
  assumes "mem_wf s"
  shows "reserve b bytes s =
    (if unat bytes \<le> unat (total_usable s) - bt_total (by_boundary s)
     then (Inr (), s\<lparr>reserved := reserved s + bytes, by_boundary := bt_insert b (reservation b s + bytes) (by_boundary s)\<rparr>)
     else (Inl (LimitExceeded ''memory''), s))"
    and "unat bytes \<le> unat (total_usable s) - bt_total (by_boundary s) \<Longrightarrow>
      unat (reserved s + bytes) = unat (reserved s) + unat bytes \<and>
      unat (reservation b s + bytes) = unat (reservation b s) + unat bytes"
proof -
  have eq: "unat (reserved s) = bt_total (by_boundary s)" "unat (reserved s) \<le> unat (total_usable s)"
    using assms by (simp_all add: mem_wf_def word_le_nat_alt)
  have "unat (total_usable s) \<noteq> 2 ^ 64 - 1"
    using assms by (auto simp: mem_wf_def word_unat_eq_iff unsigned_minus_1_eq_mask mask_eq_exp_minus_1)
  then have top: "unat (total_usable s) < 2 ^ 64 - 1"
    using unat_u64_less [of "total_usable s"] by simp
  have sat: "total_usable s < saturating_add (reserved s) bytes \<longleftrightarrow>
      \<not> unat bytes \<le> unat (total_usable s) - bt_total (by_boundary s)"
    using top eq by (auto simp: word_less_nat_alt unat_saturating_add)
  have plain: "saturating_add (reserved s) bytes = reserved s + bytes"
    if "unat bytes \<le> unat (total_usable s) - bt_total (by_boundary s)"
  proof -
    have "unat (reserved s) + unat bytes < 2 ^ 64" using that top eq by linarith
    then show ?thesis by (simp add: saturating_add_def)
  qed
  show "reserve b bytes s =
    (if unat bytes \<le> unat (total_usable s) - bt_total (by_boundary s)
     then (Inr (), s\<lparr>reserved := reserved s + bytes, by_boundary := bt_insert b (reservation b s + bytes) (by_boundary s)\<rparr>)
     else (Inl (LimitExceeded ''memory''), s))"
    using plain by (simp add: reserve_def Let_def sat reservation_def)
  have "unat (reservation b s) \<le> bt_total (by_boundary s)"
    using bt_total_member by (auto simp: reservation_def split: option.split)
  then show "unat bytes \<le> unat (total_usable s) - bt_total (by_boundary s) \<Longrightarrow>
      unat (reserved s + bytes) = unat (reserved s) + unat bytes \<and>
      unat (reservation b s + bytes) = unat (reservation b s) + unat bytes"
    using top eq by (auto simp: unat_word_ariths)
qed

lemma mem_wf_reserve:
  assumes "mem_wf s"
  shows "mem_wf (snd (reserve b bytes s))"
proof (cases "unat bytes \<le> unat (total_usable s) - bt_total (by_boundary s)")
  case True
  have "bt_total (bt_insert b (reservation b s + bytes) (by_boundary s)) = bt_total (by_boundary s) + unat bytes"
    using bt_total_insert [of "by_boundary s" b "reservation b s + bytes"] reserve_cases(2) [OF assms True, of b] assms
    by (auto simp: reservation_def mem_wf_def split: option.splits)
  moreover have "bt_total (by_boundary s) \<le> unat (total_usable s)"
    using assms by (simp add: mem_wf_def word_le_nat_alt)
  ultimately show ?thesis
    using True reserve_cases(2) [OF assms True, of b] assms
    by (simp add: reserve_cases(1) [OF assms] mem_wf_def word_le_nat_alt) linarith
qed (use assms in \<open>simp add: reserve_cases(1)\<close>)

lemma release_all_cases:
  assumes "mem_wf s"
  shows "mem_wf (release_all b s)"
    and "unat (reserved (release_all b s)) = unat (reserved s) - unat (reservation b s)"
    and "reservation b' (release_all b s) = (if b' = b then 0 else reservation b' s)"
proof -
  have tot: "bt_total (bt_remove b (by_boundary s)) + unat (reservation b s) = bt_total (by_boundary s)"
    using bt_total_remove [of "by_boundary s" b] assms by (auto simp: mem_wf_def reservation_def split: option.splits)
  show res: "unat (reserved (release_all b s)) = unat (reserved s) - unat (reservation b s)"
    by (auto simp: release_all_def reservation_def unat_saturating_sub split: option.splits)
  have "by_boundary (release_all b s) = bt_remove b (by_boundary s)" "total_usable (release_all b s) = total_usable s"
    by (simp_all add: release_all_def split: option.splits)
  then show "mem_wf (release_all b s)" "reservation b' (release_all b s) = (if b' = b then 0 else reservation b' s)"
    using assms tot res by (auto simp: mem_wf_def word_le_nat_alt reservation_def btree_simps)
qed

inductive mem_reach :: "memory_region list \<Rightarrow> mem_state \<Rightarrow> bool" for rs where
  mem_start: "mem_reach rs (mem_from_regions rs)"
| mem_reserve: "mem_reach rs s \<Longrightarrow> mem_reach rs (snd (reserve b bytes s))"
| mem_release: "mem_reach rs s \<Longrightarrow> mem_reach rs (release_all b s)"

lemma mem_reach_wf:
  assumes "mem_reach rs s" "usable_bytes rs < 2 ^ 64 - 1"
  shows "mem_wf s \<and> unat (total_usable s) = usable_bytes rs"
  using assms(1)
proof induction
  case mem_start
  show ?case by (rule mem_wf_new [OF assms(2)])
next
  case (mem_reserve s b bytes)
  then show ?case using mem_wf_reserve [of s b bytes] by (simp add: reserve_cases(1))
next
  case (mem_release s b)
  then show ?case using release_all_cases(1) [of s b] by (simp add: release_all_def split: option.splits)
qed

text \<open>
  C30. From any memory map whose usable bytes stay below \<open>2 ^ 64 - 1\<close>, after any sequence of
  reservations and releases: the reservations of all boundaries add up to the reserved total, which
  never exceeds the usable RAM; a reservation is granted exactly when the bytes still fit, then
  grows this boundary's reservation by exactly that amount and no other's, and is otherwise refused
  without effect; and releasing a boundary gives back exactly what it had reserved.
\<close>

theorem reservations_bounded:
  assumes "mem_reach rs s" "usable_bytes rs < 2 ^ 64 - 1"
  shows
    "bt_total (by_boundary s) = unat (reserved s) \<and> unat (reserved s) \<le> usable_bytes rs \<and>
     unat (available s) = usable_bytes rs - unat (reserved s) \<and>
     (if unat bytes \<le> unat (available s)
      then \<exists>s'. reserve b bytes s = (Inr (), s') \<and>
        unat (reservation b s') = unat (reservation b s) + unat bytes \<and>
        unat (available s') + unat bytes = unat (available s) \<and>
        (\<forall>b'. b' \<noteq> b \<longrightarrow> reservation b' s' = reservation b' s)
      else reserve b bytes s = (Inl (LimitExceeded ''memory''), s)) \<and>
     reservation b (release_all b s) = 0 \<and>
     unat (available (release_all b s)) = unat (available s) + unat (reservation b s) \<and>
     (\<forall>b'. b' \<noteq> b \<longrightarrow> reservation b' (release_all b s) = reservation b' s)"
proof -
  have wf: "mem_wf s" and tot: "unat (total_usable s) = usable_bytes rs"
    using mem_reach_wf [OF assms] by simp_all
  have le: "unat (reserved s) \<le> usable_bytes rs" "bt_total (by_boundary s) = unat (reserved s)"
    using wf tot by (simp_all add: mem_wf_def word_le_nat_alt)
  have held: "unat (reservation b s) \<le> unat (reserved s)"
    using bt_total_member le(2) by (fastforce simp: reservation_def split: option.split)
  have "\<exists>s'. reserve b bytes s = (Inr (), s') \<and>
        unat (reservation b s') = unat (reservation b s) + unat bytes \<and>
        unat (available s') + unat bytes = unat (available s) \<and>
        (\<forall>b'. b' \<noteq> b \<longrightarrow> reservation b' s' = reservation b' s)"
    if "unat bytes \<le> unat (available s)"
  proof -
    have fits: "unat bytes \<le> unat (total_usable s) - bt_total (by_boundary s)"
      using that le by (simp add: available_def unat_saturating_sub)
    note sums = reserve_cases(2) [OF wf fits, of b]
    show ?thesis
      using fits sums le tot
      by (simp add: reserve_cases(1) [OF wf] available_def unat_saturating_sub) (simp add: reservation_def btree_simps)
  qed
  moreover have "reserve b bytes s = (Inl (LimitExceeded ''memory''), s)" if "\<not> unat bytes \<le> unat (available s)"
    using that le by (simp add: reserve_cases(1) [OF wf] available_def unat_saturating_sub)
  moreover have "total_usable (release_all b s) = total_usable s"
    by (simp add: release_all_def split: option.splits)
  ultimately show ?thesis
    using le tot held release_all_cases(2) [OF wf, of b] release_all_cases(3) [OF wf, of _ b] by (simp add: available_def unat_saturating_sub)
qed

theorem reservations_bounded_witness:
  "let s = mem_from_regions [\<lparr>base = 0, region_length = 4096, kind = Usable\<rparr>] in
   \<exists>s'. reserve (BoundaryId 1) 4096 s = (Inr (), s') \<and> unat (available s') = 0"
proof -
  let ?rs = "[\<lparr>base = 0, region_length = 4096, kind = Usable\<rparr>] :: memory_region list"
  let ?s = "mem_from_regions ?rs"
  have "usable_bytes ?rs < 2 ^ 64 - 1" by (simp add: usable_bytes_def)
  moreover have "unat (available ?s) = 4096"
    by (simp add: available_def mem_from_regions_def saturating_sub_def saturating_add_def)
  ultimately show ?thesis
    using reservations_bounded [OF mem_start [of ?rs], of 4096 "BoundaryId 1"] by (auto simp: Let_def)
qed

end
