(* ===== verification/Container.thy ===== *)
theory Container
  imports Shared_Types BTree_Map
begin

text \<open>
  Isolation boundaries and their resource ceilings (\<open>cibos-kernel/src/container.rs\<close>). A
  \<open>BTreeSet\<close> is an ordered map to \<open>unit\<close>.
\<close>

record container =
  config :: boundary_configuration
  lanes :: "(lane_id, unit) btreemap"
  channels :: "(channel_id, unit) btreemap"
  allocated_bytes :: u64
  peak_bytes :: u64

record container_registry =
  containers :: "(boundary_id, container) btreemap"
  next_id :: u64

definition container_usage :: "container \<Rightarrow> resource_usage" where
  "container_usage c =
     \<lparr>usage_allocated_bytes = allocated_bytes c, usage_peak_bytes = peak_bytes c,
      lane_count = of_nat (length (lanes c)), channel_count = of_nat (length (channels c))\<rparr>"

definition containers_new :: container_registry where
  "containers_new = \<lparr>containers = [], next_id = 1\<rparr>"

definition create_system :: "resource_limits \<Rightarrow> container_registry \<Rightarrow> (kernel_error + boundary_id) \<times> container_registry" where
  "create_system lim s =
     (if bt_contains (containers s) SYSTEM then (Inl (InitFailed ''system boundary already exists''), s)
      else
        let cfg = \<lparr>config_id = SYSTEM, limits = lim, weight_class = System\<rparr> in
        (Inr SYSTEM, s\<lparr>containers := bt_insert SYSTEM
           \<lparr>config = cfg, lanes = [], channels = [], allocated_bytes = 0, peak_bytes = 0\<rparr> (containers s)\<rparr>))"

definition container_create :: "resource_limits \<Rightarrow> weight_class \<Rightarrow> container_registry \<Rightarrow> boundary_id \<times> container_registry" where
  "container_create lim w s =
     (let cid = BoundaryId (next_id s);
          s = s\<lparr>next_id := next_id s + 1\<rparr>;
          cfg = \<lparr>config_id = cid, limits = lim, weight_class = w\<rparr>
      in (cid, s\<lparr>containers := bt_insert cid
           \<lparr>config = cfg, lanes = [], channels = [], allocated_bytes = 0, peak_bytes = 0\<rparr> (containers s)\<rparr>))"

definition container_destroy :: "boundary_id \<Rightarrow> container_registry \<Rightarrow> (kernel_error + unit) \<times> container_registry" where
  "container_destroy cid s =
     (if bt_contains (containers s) cid then (Inr (), s\<lparr>containers := bt_remove cid (containers s)\<rparr>)
      else (Inl UnknownContainer, s))"

definition container_contains :: "boundary_id \<Rightarrow> container_registry \<Rightarrow> bool" where
  "container_contains cid s = bt_contains (containers s) cid"

definition container_count :: "container_registry \<Rightarrow> nat" where
  "container_count s = length (containers s)"

definition add_lane :: "boundary_id \<Rightarrow> lane_id \<Rightarrow> container_registry \<Rightarrow> (kernel_error + unit) \<times> container_registry" where
  "add_lane cid lane s =
     (case bt_get (containers s) cid of
        None \<Rightarrow> (Inl UnknownContainer, s)
      | Some c \<Rightarrow>
          if max_lanes (limits (config c)) \<le> of_nat (length (lanes c)) then (Inl (LimitExceeded ''lanes''), s)
          else (Inr (), s\<lparr>containers := bt_insert cid (c\<lparr>lanes := bt_insert lane () (lanes c)\<rparr>) (containers s)\<rparr>))"

definition remove_lane :: "boundary_id \<Rightarrow> lane_id \<Rightarrow> container_registry \<Rightarrow> container_registry" where
  "remove_lane cid lane s =
     (case bt_get (containers s) cid of
        None \<Rightarrow> s
      | Some c \<Rightarrow> s\<lparr>containers := bt_insert cid (c\<lparr>lanes := bt_remove lane (lanes c)\<rparr>) (containers s)\<rparr>)"

definition add_channel :: "boundary_id \<Rightarrow> channel_id \<Rightarrow> container_registry \<Rightarrow> (kernel_error + unit) \<times> container_registry" where
  "add_channel cid ch s =
     (case bt_get (containers s) cid of
        None \<Rightarrow> (Inl UnknownContainer, s)
      | Some c \<Rightarrow>
          if max_channels (limits (config c)) \<le> of_nat (length (channels c)) then (Inl (LimitExceeded ''channels''), s)
          else (Inr (), s\<lparr>containers := bt_insert cid (c\<lparr>channels := bt_insert ch () (channels c)\<rparr>) (containers s)\<rparr>))"

definition remove_channel :: "boundary_id \<Rightarrow> channel_id \<Rightarrow> container_registry \<Rightarrow> container_registry" where
  "remove_channel cid ch s =
     (case bt_get (containers s) cid of
        None \<Rightarrow> s
      | Some c \<Rightarrow> s\<lparr>containers := bt_insert cid (c\<lparr>channels := bt_remove ch (channels c)\<rparr>) (containers s)\<rparr>)"

definition container_allocate :: "boundary_id \<Rightarrow> u64 \<Rightarrow> container_registry \<Rightarrow> (kernel_error + unit) \<times> container_registry" where
  "container_allocate cid bytes s =
     (case bt_get (containers s) cid of
        None \<Rightarrow> (Inl UnknownContainer, s)
      | Some c \<Rightarrow>
          (case check_allocation (limits (config c)) (allocated_bytes c) bytes of
             Inl e \<Rightarrow> (Inl (Shared (Resource e)), s)
           | Inr _ \<Rightarrow>
               let c = c\<lparr>allocated_bytes := allocated_bytes c + bytes\<rparr>;
                   c = (if peak_bytes c < allocated_bytes c then c\<lparr>peak_bytes := allocated_bytes c\<rparr> else c)
               in (Inr (), s\<lparr>containers := bt_insert cid c (containers s)\<rparr>)))"

definition release_memory :: "boundary_id \<Rightarrow> u64 \<Rightarrow> container_registry \<Rightarrow> container_registry" where
  "release_memory cid bytes s =
     (case bt_get (containers s) cid of
        None \<Rightarrow> s
      | Some c \<Rightarrow>
          s\<lparr>containers := bt_insert cid (c\<lparr>allocated_bytes := saturating_sub (allocated_bytes c) bytes\<rparr>) (containers s)\<rparr>)"

definition usage :: "boundary_id \<Rightarrow> container_registry \<Rightarrow> resource_usage option" where
  "usage cid s = map_option container_usage (bt_get (containers s) cid)"

section \<open>Ceilings hold and identities are never reused\<close>

definition container_wf :: "container \<Rightarrow> bool" where
  "container_wf c \<longleftrightarrow> bt_wf (lanes c) \<and> bt_wf (channels c) \<and>
     length (lanes c) \<le> unat (max_lanes (limits (config c))) \<and>
     length (channels c) \<le> unat (max_channels (limits (config c))) \<and>
     allocated_bytes c \<le> peak_bytes c \<and> peak_bytes c \<le> memory_bytes (limits (config c))"

definition containers_wf :: "container_registry \<Rightarrow> bool" where
  "containers_wf s \<longleftrightarrow> bt_wf (containers s) \<and> 0 < next_id s \<and>
     (\<forall>cid c. bt_get (containers s) cid = Some c \<longrightarrow>
        container_wf c \<and> config_id (config c) = cid \<and> boundary_raw cid < next_id s)"

text \<open>
  The steps of the registry. Identifiers are handed out from a 64-bit counter; the runs considered
  are those in which it has not wrapped.
\<close>

inductive cont_step :: "container_registry \<Rightarrow> container_registry \<Rightarrow> bool" where
  c_system: "cont_step s (snd (create_system lim s))"
| c_create: "next_id s \<noteq> - 1 \<Longrightarrow> cont_step s (snd (container_create lim w s))"
| c_destroy: "cont_step s (snd (container_destroy cid s))"
| c_add_lane: "cont_step s (snd (add_lane cid lane s))"
| c_remove_lane: "cont_step s (remove_lane cid lane s)"
| c_add_channel: "cont_step s (snd (add_channel cid ch s))"
| c_remove_channel: "cont_step s (remove_channel cid ch s)"
| c_allocate: "cont_step s (snd (container_allocate cid bytes s))"
| c_release: "cont_step s (release_memory cid bytes s)"

lemma containers_wf_update:
  assumes "containers_wf s" "bt_get (containers s) cid = Some c" "container_wf c'" "config c' = config c"
  shows "containers_wf (s\<lparr>containers := bt_insert cid c' (containers s)\<rparr>)"
  using assms by (auto simp: containers_wf_def btree_simps)

lemma u32_of_small: "n \<le> unat (k :: u32) \<Longrightarrow> unat (of_nat n :: u32) = n"
proof -
  assume "n \<le> unat k"
  moreover have "unat k < 2 ^ 32" using unsigned_less [of k] by simp
  ultimately show ?thesis by (simp add: unsigned_of_nat take_bit_nat_eq_self)
qed

lemma u32_count_le:
  "n \<le> unat (k :: u32) \<Longrightarrow> k \<le> of_nat n \<longleftrightarrow> n = unat k"
proof -
  assume "n \<le> unat k"
  then have "unat (of_nat n :: u32) = n" by (rule u32_of_small)
  with \<open>n \<le> unat k\<close> show ?thesis by (auto simp: word_le_nat_alt)
qed

lemma containers_wf_step:
  assumes "cont_step s s'" "containers_wf s"
  shows "containers_wf s'"
  using assms
proof induction
  case (c_system s lim)
  then show ?case
    by (auto simp: create_system_def containers_wf_def container_wf_def btree_simps SYSTEM_def)
next
  case (c_create s lim w)
  have "1 + next_id s \<noteq> 0"
    using c_create(1) by (metis add.commute add_eq_0_iff)
  then have "next_id s < next_id s + 1"
    by (simp add: word_less_nat_alt unatSuc add.commute)
  with c_create show ?case
    by (auto simp: container_create_def containers_wf_def container_wf_def btree_simps Let_def)
      (metis less_trans)
next
  case (c_destroy s cid)
  then show ?case
    by (auto simp: container_destroy_def containers_wf_def btree_simps)
next
  case (c_add_lane s cid lane)
  show ?case
  proof (cases "bt_get (containers s) cid")
    case (Some c)
    then have "container_wf c" using c_add_lane by (simp add: containers_wf_def)
    then have "container_wf (c\<lparr>lanes := bt_insert lane () (lanes c)\<rparr>)"
      if "\<not> max_lanes (limits (config c)) \<le> of_nat (length (lanes c))"
      using that u32_count_le by (auto simp: container_wf_def length_bt_insert)
    then show ?thesis
      using containers_wf_update [OF c_add_lane Some] c_add_lane by (simp add: add_lane_def Some)
  qed (use c_add_lane in \<open>simp add: add_lane_def\<close>)
next
  case (c_remove_lane s cid lane)
  show ?case
  proof (cases "bt_get (containers s) cid")
    case (Some c)
    then have "container_wf c" using c_remove_lane by (simp add: containers_wf_def)
    then have "container_wf (c\<lparr>lanes := bt_remove lane (lanes c)\<rparr>)"
      by (auto simp: container_wf_def length_bt_remove)
    then show ?thesis
      using containers_wf_update [OF c_remove_lane Some] by (simp add: remove_lane_def Some)
  qed (use c_remove_lane in \<open>simp add: remove_lane_def\<close>)
next
  case (c_add_channel s cid ch)
  show ?case
  proof (cases "bt_get (containers s) cid")
    case (Some c)
    then have "container_wf c" using c_add_channel by (simp add: containers_wf_def)
    then have "container_wf (c\<lparr>channels := bt_insert ch () (channels c)\<rparr>)"
      if "\<not> max_channels (limits (config c)) \<le> of_nat (length (channels c))"
      using that u32_count_le by (auto simp: container_wf_def length_bt_insert)
    then show ?thesis
      using containers_wf_update [OF c_add_channel Some] c_add_channel by (simp add: add_channel_def Some)
  qed (use c_add_channel in \<open>simp add: add_channel_def\<close>)
next
  case (c_remove_channel s cid ch)
  show ?case
  proof (cases "bt_get (containers s) cid")
    case (Some c)
    then have "container_wf c" using c_remove_channel by (simp add: containers_wf_def)
    then have "container_wf (c\<lparr>channels := bt_remove ch (channels c)\<rparr>)"
      by (auto simp: container_wf_def length_bt_remove)
    then show ?thesis
      using containers_wf_update [OF c_remove_channel Some] by (simp add: remove_channel_def Some)
  qed (use c_remove_channel in \<open>simp add: remove_channel_def\<close>)
next
  case (c_allocate s cid bytes)
  show ?case
  proof (cases "bt_get (containers s) cid")
    case (Some c)
    then have wf: "container_wf c" using c_allocate by (simp add: containers_wf_def)
    let ?a = "allocated_bytes c + bytes"
    let ?c = "if peak_bytes c < ?a then c\<lparr>allocated_bytes := ?a, peak_bytes := ?a\<rparr> else c\<lparr>allocated_bytes := ?a\<rparr>"
    have "?a \<le> memory_bytes (limits (config c))"
      if "check_allocation (limits (config c)) (allocated_bytes c) bytes = Inr ()"
    proof (cases "memory_bytes (limits (config c)) = - 1")
      case False
      then show ?thesis
        using that unat_u64_less [of "memory_bytes (limits (config c))"]
        by (simp add: check_allocation_Inr_iff word_le_nat_alt unat_word_ariths)
    qed simp
    then have "container_wf ?c" if "check_allocation (limits (config c)) (allocated_bytes c) bytes = Inr ()"
      using wf that by (auto simp: container_wf_def)
    then show ?thesis
      using containers_wf_update [OF c_allocate Some, of ?c] c_allocate
      by (auto simp: container_allocate_def Some Let_def split: sum.split)
  qed (use c_allocate in \<open>simp add: container_allocate_def\<close>)
next
  case (c_release s cid bytes)
  show ?case
  proof (cases "bt_get (containers s) cid")
    case (Some c)
    then have "container_wf (c\<lparr>allocated_bytes := saturating_sub (allocated_bytes c) bytes\<rparr>)"
      using c_release by (fastforce simp: containers_wf_def container_wf_def word_le_nat_alt unat_saturating_sub)
    then show ?thesis
      using containers_wf_update [OF c_release Some] by (simp add: release_memory_def Some)
  qed (use c_release in \<open>simp add: release_memory_def\<close>)
qed
inductive cont_reach :: "container_registry \<Rightarrow> bool" where
  cont_start: "cont_reach containers_new"
| cont_next: "cont_reach s \<Longrightarrow> cont_step s s' \<Longrightarrow> cont_reach s'"

lemma cont_reach_wf: "cont_reach s \<Longrightarrow> containers_wf s"
proof (induction rule: cont_reach.induct)
  case cont_start
  show ?case by (simp add: containers_new_def containers_wf_def)
next
  case (cont_next s s')
  then show ?case using containers_wf_step by blast
qed

text \<open>
  C31. Over every sequence of registry operations each boundary stays within its own limits: its
  lanes, channels and memory, as \<open>usage\<close> reports them, never exceed the ceilings it was created
  with, and the counts \<open>usage\<close> reports are the true set sizes, free of truncation. An addition at
  the ceiling, and an allocation that does not fit, are refused without effect. A new boundary
  gets an identity no existing boundary has, with nothing allocated.
\<close>

theorem container_limits_enforced:
  assumes "cont_reach s" "bt_get (containers s) b = Some c"
  shows
    "(\<exists>u. usage b s = Some u \<and>
        unat (lane_count u) = length (lanes c) \<and> lane_count u \<le> max_lanes (limits (config c)) \<and>
        unat (channel_count u) = length (channels c) \<and> channel_count u \<le> max_channels (limits (config c)) \<and>
        usage_allocated_bytes u \<le> usage_peak_bytes u \<and> usage_peak_bytes u \<le> memory_bytes (limits (config c))) \<and>
     (length (lanes c) = unat (max_lanes (limits (config c))) \<longrightarrow>
        add_lane b l s = (Inl (LimitExceeded ''lanes''), s)) \<and>
     (length (lanes c) < unat (max_lanes (limits (config c))) \<longrightarrow>
        (\<exists>s'. add_lane b l s = (Inr (), s') \<and> bt_contains (lanes (the (bt_get (containers s') b))) l \<and>
           (\<forall>b'. b' \<noteq> b \<longrightarrow> usage b' s' = usage b' s))) \<and>
     (length (channels c) = unat (max_channels (limits (config c))) \<longrightarrow>
        add_channel b ch s = (Inl (LimitExceeded ''channels''), s)) \<and>
     (memory_bytes (limits (config c)) \<noteq> - 1 \<longrightarrow>
        (if unat (allocated_bytes c) + unat n \<le> unat (memory_bytes (limits (config c)))
         then \<exists>s' c'. container_allocate b n s = (Inr (), s') \<and> bt_get (containers s') b = Some c' \<and>
           unat (allocated_bytes c') = unat (allocated_bytes c) + unat n \<and>
           peak_bytes c' = max (peak_bytes c) (allocated_bytes c')
         else container_allocate b n s =
           (Inl (Shared (Resource (MemoryLimitExceeded n (memory_bytes (limits (config c)))))), s))) \<and>
     \<not> bt_contains (containers s) (fst (container_create lim w s))"
proof -
  have wfs: "containers_wf s" by (rule cont_reach_wf [OF assms(1)])
  then have wf: "container_wf c" using assms(2) by (simp add: containers_wf_def)
  have small: "unat (of_nat (length (lanes c)) :: u32) = length (lanes c)"
    "unat (of_nat (length (channels c)) :: u32) = length (channels c)"
    using wf u32_of_small by (auto simp: container_wf_def)
  have "\<not> bt_contains (containers s) (BoundaryId (next_id s))"
    using wfs by (force simp: containers_wf_def bt_contains_def)
  moreover have "unat (allocated_bytes c + n) = unat (allocated_bytes c) + unat n"
    if "unat (allocated_bytes c) + unat n \<le> unat (memory_bytes (limits (config c)))"
    using that unat_u64_less [of "memory_bytes (limits (config c))"] by (simp add: unat_word_ariths)
  moreover have "check_allocation (limits (config c)) (allocated_bytes c) n =
      (if unat (allocated_bytes c) + unat n \<le> unat (memory_bytes (limits (config c))) then Inr ()
       else Inl (MemoryLimitExceeded n (memory_bytes (limits (config c)))))"
    if "memory_bytes (limits (config c)) \<noteq> - 1"
    using check_allocation_Inr_iff [of "limits (config c)" "allocated_bytes c" n] that
    by (auto simp: check_allocation_def Let_def split: if_splits)
  moreover have "max p a = (if p < a then a else p)" for p a :: u64
    by (auto simp: max_def)
  ultimately have memory: "memory_bytes (limits (config c)) \<noteq> - 1 \<longrightarrow>
        (if unat (allocated_bytes c) + unat n \<le> unat (memory_bytes (limits (config c)))
         then \<exists>s' c'. container_allocate b n s = (Inr (), s') \<and> bt_get (containers s') b = Some c' \<and>
           unat (allocated_bytes c') = unat (allocated_bytes c) + unat n \<and>
           peak_bytes c' = max (peak_bytes c) (allocated_bytes c')
         else container_allocate b n s =
           (Inl (Shared (Resource (MemoryLimitExceeded n (memory_bytes (limits (config c)))))), s))"
    and fresh: "\<not> bt_contains (containers s) (fst (container_create lim w s))"
    using assms(2) by (simp_all add: container_allocate_def container_create_def Let_def btree_simps)
  have lane: "max_lanes (limits (config c)) \<le> of_nat (length (lanes c)) \<longleftrightarrow>
      length (lanes c) = unat (max_lanes (limits (config c)))"
    and chan: "max_channels (limits (config c)) \<le> of_nat (length (channels c)) \<longleftrightarrow>
      length (channels c) = unat (max_channels (limits (config c)))"
    using wf u32_count_le by (simp_all add: container_wf_def)
  have "\<exists>u. usage b s = Some u \<and>
        unat (lane_count u) = length (lanes c) \<and> lane_count u \<le> max_lanes (limits (config c)) \<and>
        unat (channel_count u) = length (channels c) \<and> channel_count u \<le> max_channels (limits (config c)) \<and>
        usage_allocated_bytes u \<le> usage_peak_bytes u \<and> usage_peak_bytes u \<le> memory_bytes (limits (config c))"
    using wf small assms(2) by (simp add: usage_def container_usage_def container_wf_def word_le_nat_alt)
  then show ?thesis
    using assms(2) memory fresh
    by (intro conjI) (assumption | rule memory | simp add: usage_def add_lane_def add_channel_def lane chan btree_simps)+
qed

theorem container_limits_enforced_witness:
  "let s = snd (container_create default_application User containers_new) in
   \<exists>s'. add_lane (BoundaryId 1) (LaneId 5) s = (Inr (), s')"
proof -
  define s where "s = snd (container_create default_application User containers_new)"
  let ?c = "\<lparr>config = \<lparr>config_id = BoundaryId 1, limits = default_application, weight_class = User\<rparr>,
    lanes = [], channels = [], allocated_bytes = 0, peak_bytes = 0\<rparr>"
  have reach: "cont_reach s"
    unfolding s_def by (rule cont_next [OF cont_start], rule c_create) (simp add: containers_new_def)
  have get: "bt_get (containers s) (BoundaryId 1) = Some ?c"
    by (simp add: s_def container_create_def containers_new_def bt_get_def Let_def)
  have "length (lanes ?c) < unat (max_lanes (limits (config ?c)))"
    by (simp add: default_application_def)
  with container_limits_enforced [OF reach get, of "LaneId 5"] show ?thesis
    unfolding s_def Let_def by blast
qed

end
