(* ===== verification/Block_Device.thy ===== *)
theory Block_Device
  imports Bytes
begin

text \<open>
  The storage interface of \<open>cibos-kernel/src/block.rs\<close>: errors, the \<open>BlockDevice\<close> trait as a
  record of operations, and the range check every driver performs. \<open>block_device\<close> is the contract
  the filesystem relies on, that of a device without hardware faults; the in-memory disk the
  repository tests against meets it.
\<close>

definition BLOCK_SIZE :: nat where
  "BLOCK_SIZE = 512"

datatype block_error = OutOfRange | BadBuffer | DeviceError | Timeout | ReadOnly

text \<open>
  \<open>read_blocks\<close> takes the length of the caller's buffer and returns its new contents.
\<close>

record 'd block_dev =
  block_count :: "'d \<Rightarrow> u64"
  is_read_only :: "'d \<Rightarrow> bool"
  read_blocks :: "'d \<Rightarrow> u64 \<Rightarrow> u32 \<Rightarrow> nat \<Rightarrow> block_error + u8 list"
  write_blocks :: "u64 \<Rightarrow> u32 \<Rightarrow> u8 list \<Rightarrow> 'd \<Rightarrow> (block_error + unit) \<times> 'd"

definition check_range :: "u64 \<Rightarrow> u64 \<Rightarrow> u32 \<Rightarrow> nat \<Rightarrow> block_error + unit" where
  "check_range tot lba count buf_len =
     (if count = 0 then Inl BadBuffer
      else if buf_len \<noteq> unat count * BLOCK_SIZE then Inl BadBuffer
      else
        case checked_add lba (ucast count) of
          None \<Rightarrow> Inl OutOfRange
        | Some e \<Rightarrow> if tot < e then Inl OutOfRange else Inr ())"

lemma check_range_ok_iff:
  "check_range tot lba count buf_len = Inr () \<longleftrightarrow>
     count \<noteq> 0 \<and> buf_len = unat count * BLOCK_SIZE \<and> unat lba + unat count \<le> unat tot"
proof -
  have "unat (ucast count :: u64) = unat count"
  proof -
    have "unat count < 2 ^ 32" using unsigned_less [of count, where 'a = nat] by simp
    then have "unat count < 2 ^ 64" by simp
    then show ?thesis by (simp add: unsigned_ucast_eq take_bit_nat_eq_self)
  qed
  moreover have "unat tot < 2 ^ 64" by (rule unat_u64_less)
  ultimately show ?thesis
    by (auto simp: check_range_def checked_add_def word_less_nat_alt unat_word_ariths split: option.splits)
qed

section \<open>The contract\<close>

locale block_device =
  fixes D :: "'d block_dev" and valid :: "'d \<Rightarrow> bool"
  assumes read_in: "valid d \<Longrightarrow> lba < block_count D d \<Longrightarrow>
      \<exists>b. read_blocks D d lba 1 BLOCK_SIZE = Inr b \<and> length b = BLOCK_SIZE"
    and read_out: "valid d \<Longrightarrow> block_count D d \<le> lba \<Longrightarrow> read_blocks D d lba 1 BLOCK_SIZE = Inl OutOfRange"
    and write_in: "valid d \<Longrightarrow> lba < block_count D d \<Longrightarrow> length buf = BLOCK_SIZE \<Longrightarrow>
      \<exists>d'. write_blocks D lba 1 buf d = (Inr (), d') \<and> valid d' \<and> block_count D d' = block_count D d \<and>
        (\<forall>l. read_blocks D d' l 1 BLOCK_SIZE = (if l = lba then Inr buf else read_blocks D d l 1 BLOCK_SIZE))"

section \<open>The in-memory disk\<close>

record ram_disk =
  ram_blocks :: "u8 list"
  ram_count :: u64

definition ram_disk_new :: "u64 \<Rightarrow> ram_disk" where
  "ram_disk_new count = \<lparr>ram_blocks = replicate (unat count * BLOCK_SIZE) 0, ram_count = count\<rparr>"

definition ram_read :: "ram_disk \<Rightarrow> u64 \<Rightarrow> u32 \<Rightarrow> nat \<Rightarrow> block_error + u8 list" where
  "ram_read d lba count buf_len =
     (case check_range (ram_count d) lba count buf_len of
        Inl e \<Rightarrow> Inl e
      | Inr _ \<Rightarrow> Inr (take (unat count * BLOCK_SIZE) (drop (unat lba * BLOCK_SIZE) (ram_blocks d))))"

definition ram_write :: "u64 \<Rightarrow> u32 \<Rightarrow> u8 list \<Rightarrow> ram_disk \<Rightarrow> (block_error + unit) \<times> ram_disk" where
  "ram_write lba count buf d =
     (case check_range (ram_count d) lba count (length buf) of
        Inl e \<Rightarrow> (Inl e, d)
      | Inr _ \<Rightarrow>
          let s = unat lba * BLOCK_SIZE in
          (Inr (), d\<lparr>ram_blocks := take s (ram_blocks d) @ buf @ drop (s + length buf) (ram_blocks d)\<rparr>))"

definition ram_dev :: "ram_disk block_dev" where
  "ram_dev = \<lparr>block_count = ram_count, is_read_only = (\<lambda>_. False), read_blocks = ram_read, write_blocks = ram_write\<rparr>"

definition ram_valid :: "ram_disk \<Rightarrow> bool" where
  "ram_valid d \<longleftrightarrow> length (ram_blocks d) = unat (ram_count d) * BLOCK_SIZE"

lemma ram_disk_new_valid: "ram_valid (ram_disk_new n)"
  by (simp add: ram_valid_def ram_disk_new_def)

lemma check_range_one:
  "check_range tot lba 1 BLOCK_SIZE = (if lba < tot then Inr () else Inl OutOfRange)"
proof (cases "lba < tot")
  case True
  then show ?thesis
    using check_range_ok_iff [of tot lba 1 BLOCK_SIZE] by (simp add: word_less_nat_alt Suc_le_eq)
next
  case False
  then have "check_range tot lba 1 BLOCK_SIZE \<noteq> Inr ()"
    using check_range_ok_iff [of tot lba 1 BLOCK_SIZE] by (simp add: word_less_nat_alt Suc_le_eq)
  then show ?thesis
    using False by (auto simp: check_range_def BLOCK_SIZE_def split: option.splits if_splits)
qed

text \<open>Replacing one block of a byte list leaves the other blocks alone.\<close>

lemma block_splice:
  fixes xs ys :: "'a list"
  assumes "length xs = n * k" "a < n" "b < n" "length ys = k"
  shows "take k (drop (b * k) (take (a * k) xs @ ys @ drop (a * k + k) xs)) =
    (if a = b then ys else take k (drop (b * k) xs))"
proof (rule nth_equalityI)
  have len: "a * k + k \<le> n * k" "b * k + k \<le> n * k"
    using assms(2,3) by (metis add.commute mult_Suc mult_le_mono1 Suc_leI)+
  have z: "length (take (a * k) xs @ ys @ drop (a * k + k) xs) = n * k"
    using len assms by simp
  show "length (take k (drop (b * k) (take (a * k) xs @ ys @ drop (a * k + k) xs))) =
      length (if a = b then ys else take k (drop (b * k) xs))"
    using assms len unfolding length_take length_drop z by simp
  fix i
  assume "i < length (take k (drop (b * k) (take (a * k) xs @ ys @ drop (a * k + k) xs)))"
  then have i: "i < k" unfolding length_take by linarith
  have lt: "b * k + i < a * k" if "b < a"
  proof -
    have "b * k + k \<le> a * k" using that by (metis add.commute mult_Suc mult_le_mono1 Suc_leI)
    then show ?thesis using i by simp
  qed
  have gt: "a * k + k \<le> b * k + i" if "a < b"
  proof -
    have "a * k + k \<le> b * k" using that by (metis add.commute mult_Suc mult_le_mono1 Suc_leI)
    then show ?thesis by simp
  qed
  have at: "take k (drop (b * k) zs) ! i = zs ! (b * k + i)" if "length zs = n * k" for zs :: "'a list"
  proof -
    have "b * k \<le> length zs" using len(2) that by linarith
    then show ?thesis using i by simp
  qed
  show "take k (drop (b * k) (take (a * k) xs @ ys @ drop (a * k + k) xs)) ! i =
      (if a = b then ys else take k (drop (b * k) xs)) ! i"
    using i len assms lt gt unfolding at [OF z] at [OF assms(1)]
    by (cases a b rule: linorder_cases) (auto simp: nth_append at [OF assms(1)])
qed

interpretation ram: block_device ram_dev ram_valid
proof unfold_locales
  fix d lba
  assume d: "ram_valid d"
  show "block_count ram_dev d \<le> lba \<Longrightarrow> read_blocks ram_dev d lba 1 BLOCK_SIZE = Inl OutOfRange"
    by (simp add: ram_dev_def ram_read_def check_range_one)
  assume lba: "lba < block_count ram_dev d"
  then have "unat lba * BLOCK_SIZE + BLOCK_SIZE \<le> length (ram_blocks d)"
    using d mult_le_mono1 [of "Suc (unat lba)" "unat (ram_count d)" BLOCK_SIZE]
    by (simp add: ram_valid_def ram_dev_def word_less_nat_alt)
  note bounds = this
  show "\<exists>b. read_blocks ram_dev d lba 1 BLOCK_SIZE = Inr b \<and> length b = BLOCK_SIZE"
    using lba bounds by (simp add: ram_dev_def ram_read_def check_range_one)
  fix buf :: "u8 list"
  assume buf: "length buf = BLOCK_SIZE"
  let ?d = "d\<lparr>ram_blocks := take (unat lba * BLOCK_SIZE) (ram_blocks d) @ buf @ drop (unat lba * BLOCK_SIZE + BLOCK_SIZE) (ram_blocks d)\<rparr>"
  have w: "write_blocks ram_dev lba 1 buf d = (Inr (), ?d)"
    using lba buf by (simp add: ram_dev_def ram_write_def check_range_one Let_def)
  have v: "ram_valid ?d"
    using d bounds buf by (simp add: ram_valid_def)
  have "read_blocks ram_dev ?d l 1 BLOCK_SIZE = (if l = lba then Inr buf else read_blocks ram_dev d l 1 BLOCK_SIZE)" for l
    using block_splice [of "ram_blocks d" "unat (ram_count d)" BLOCK_SIZE "unat lba" "unat l" buf] d lba buf
    by (auto simp: ram_dev_def ram_read_def check_range_one ram_valid_def word_less_nat_alt word_unat_eq_iff)
  then show "\<exists>d'. write_blocks ram_dev lba 1 buf d = (Inr (), d') \<and> ram_valid d' \<and> block_count ram_dev d' = block_count ram_dev d \<and>
      (\<forall>l. read_blocks ram_dev d' l 1 BLOCK_SIZE = (if l = lba then Inr buf else read_blocks ram_dev d l 1 BLOCK_SIZE))"
    using w v by (intro exI [of _ ?d]) (simp add: ram_dev_def)
qed

end
