(* ===== verification/Fs.thy ===== *)
theory Fs
  imports Block_Device Serialization
begin

unbundle bit_operations_syntax

text \<open>
  CIBOSFS (\<open>cibos-kernel/src/fs.rs\<close>): superblock, bitmap, inode table and data region on a block
  device, with the path operations over them. Every operation runs over the mounted volume, the
  device and the cached superblock, and takes the device's operations as its first argument. A
  panic of the source (an array index out of range, a \<open>Vec\<close> capacity beyond \<open>isize::MAX\<close>) is
  \<open>None\<close>.
\<close>

section \<open>Constants, errors and structures\<close>

definition FS_MAGIC :: u64 where
  "FS_MAGIC = from_le [0x43, 0x49, 0x42, 0x4F, 0x53, 0x46, 0x53, 0x31]"

definition FS_VERSION :: u32 where
  "FS_VERSION = 1"

definition INODE_SIZE :: nat where
  "INODE_SIZE = 64"

definition DIRECT_BLOCKS :: nat where
  "DIRECT_BLOCKS = 6"

definition MAX_FILE_SIZE :: nat where
  "MAX_FILE_SIZE = DIRECT_BLOCKS * BLOCK_SIZE"

definition NAME_MAX :: nat where
  "NAME_MAX = 23"

definition DIR_ENTRY_SIZE :: nat where
  "DIR_ENTRY_SIZE = 32"

definition ROOT_INODE :: u32 where
  "ROOT_INODE = 0"

definition KIND_FREE :: u32 where
  "KIND_FREE = 0"

definition KIND_FILE :: u32 where
  "KIND_FILE = 1"

definition KIND_DIR :: u32 where
  "KIND_DIR = 2"

datatype fs_error =
    Block block_error | BadSuperblock | Corrupt | NoSpace | FsNotFound | Exists | WrongKind | FsTooLarge

record superblock =
  total_blocks :: u64
  bitmap_start :: u64
  bitmap_blocks :: u64
  inode_start :: u64
  inode_count :: u32
  data_start :: u64
  data_blocks :: u64

record inode =
  inode_kind :: u32
  inode_size :: u64
  direct :: "u64 list"

record dir_entry =
  entry_inode :: u32
  is_dir :: bool
  entry_name :: "u8 list"

record 'd fs =
  dev :: 'd
  sb :: superblock

type_synonym ('d, 'a) fs_action = "('d fs, fs_error, 'a) action"

section \<open>Plumbing\<close>

text \<open>
  \<open>From<SerializationError>\<close>, and a computation that does not touch the volume.
\<close>

definition as_corrupt :: "('s, serialization_error, 'a) action \<Rightarrow> ('s, fs_error, 'a) action" where
  "as_corrupt m s = map_option (\<lambda>(r, s'). (case r of Inl _ \<Rightarrow> Inl Corrupt | Inr x \<Rightarrow> Inr x, s')) (m s)"

definition of_result :: "('e + 'a) option \<Rightarrow> ('s, 'e, 'a) action" where
  "of_result r s = map_option (\<lambda>x. (x, s)) r"

definition panic :: "('s, 'e, 'a) action" where
  "panic s = None"

definition dev_read :: "'d block_dev \<Rightarrow> u64 \<Rightarrow> ('d, u8 list) fs_action" where
  "dev_read D lba s =
     (case read_blocks D (dev s) lba 1 BLOCK_SIZE of
        Inl e \<Rightarrow> throw (Block e) s
      | Inr buf \<Rightarrow> ret buf s)"

definition dev_write :: "'d block_dev \<Rightarrow> u64 \<Rightarrow> u8 list \<Rightarrow> ('d, unit) fs_action" where
  "dev_write D lba buf s =
     (case write_blocks D lba 1 buf (dev s) of
        (Inl e, d) \<Rightarrow> throw (Block e) (s\<lparr>dev := d\<rparr>)
      | (Inr _, d) \<Rightarrow> ret () (s\<lparr>dev := d\<rparr>))"

section \<open>Superblock and inode encodings\<close>

definition superblock_write_to :: "superblock \<Rightarrow> u8 list \<Rightarrow> (fs_error + u8 list) option" where
  "superblock_write_to b buf =
     map_option (\<lambda>(r, w). case r of Inl e \<Rightarrow> Inl e | Inr _ \<Rightarrow> Inr (w_buf w))
       (as_corrupt
         (bindE (put_u64 FS_MAGIC) (\<lambda>_.
          bindE (put_u32 FS_VERSION) (\<lambda>_.
          bindE (put_u32 (inode_count b)) (\<lambda>_.
          bindE (put_u64 (total_blocks b)) (\<lambda>_.
          bindE (put_u64 (bitmap_start b)) (\<lambda>_.
          bindE (put_u64 (bitmap_blocks b)) (\<lambda>_.
          bindE (put_u64 (inode_start b)) (\<lambda>_.
          bindE (put_u64 (data_start b)) (\<lambda>_.
          put_u64 (data_blocks b))))))))))
         (writer_new buf))"

definition superblock_read_from :: "u8 list \<Rightarrow> (fs_error + superblock) option" where
  "superblock_read_from buf =
     map_option fst
       (bindE (as_corrupt get_u64) (\<lambda>magic.
        bindE (as_corrupt get_u32) (\<lambda>version.
        if magic \<noteq> FS_MAGIC \<or> version \<noteq> FS_VERSION then throw BadSuperblock
        else
          bindE (as_corrupt get_u32) (\<lambda>ic.
          bindE (as_corrupt get_u64) (\<lambda>tb.
          bindE (as_corrupt get_u64) (\<lambda>bs.
          bindE (as_corrupt get_u64) (\<lambda>bb.
          bindE (as_corrupt get_u64) (\<lambda>is.
          bindE (as_corrupt get_u64) (\<lambda>ds.
          bindE (as_corrupt get_u64) (\<lambda>db.
          ret \<lparr>total_blocks = tb, bitmap_start = bs, bitmap_blocks = bb, inode_start = is,
               inode_count = ic, data_start = ds, data_blocks = db\<rparr>)))))))))
         (reader_new buf))"

fun put_u64s :: "u64 list \<Rightarrow> writer_action" where
  "put_u64s [] = ret ()"
| "put_u64s (p # ps) = bindE (put_u64 p) (\<lambda>_. put_u64s ps)"

fun get_u64s :: "nat \<Rightarrow> u64 list reader_action" where
  "get_u64s 0 = ret []"
| "get_u64s (Suc n) = bindE get_u64 (\<lambda>p. bindE (get_u64s n) (\<lambda>ps. ret (p # ps)))"

definition inode_write_to :: "inode \<Rightarrow> u8 list \<Rightarrow> (fs_error + u8 list) option" where
  "inode_write_to nd buf =
     map_option (\<lambda>(r, w). case r of Inl e \<Rightarrow> Inl e | Inr _ \<Rightarrow> Inr (w_buf w))
       (as_corrupt
         (bindE (put_u32 (inode_kind nd)) (\<lambda>_.
          bindE (put_u32 0) (\<lambda>_.
          bindE (put_u64 (inode_size nd)) (\<lambda>_.
          put_u64s (direct nd)))))
         (writer_new buf))"

definition inode_read_from :: "u8 list \<Rightarrow> (fs_error + inode) option" where
  "inode_read_from buf =
     map_option fst
       (as_corrupt
         (bindE get_u32 (\<lambda>k.
          bindE get_u32 (\<lambda>_.
          bindE get_u64 (\<lambda>sz.
          bindE (get_u64s DIRECT_BLOCKS) (\<lambda>ds.
          ret \<lparr>inode_kind = k, inode_size = sz, direct = ds\<rparr>)))))
         (reader_new buf))"

definition blocks_used :: "inode \<Rightarrow> nat" where
  "blocks_used nd = div_ceil (unat (inode_size nd)) BLOCK_SIZE"

section \<open>Inode table\<close>

definition inode_lba :: "superblock \<Rightarrow> u32 \<Rightarrow> u64" where
  "inode_lba b ino = inode_start b + ucast ino div of_nat (BLOCK_SIZE div INODE_SIZE)"

definition inode_off :: "u32 \<Rightarrow> nat" where
  "inode_off ino = unat (ucast ino mod of_nat (BLOCK_SIZE div INODE_SIZE) :: u64) * INODE_SIZE"

definition read_inode :: "'d block_dev \<Rightarrow> u32 \<Rightarrow> ('d, inode) fs_action" where
  "read_inode D ino s =
     (if inode_count (sb s) \<le> ino then throw FsNotFound s
      else
        bindE (dev_read D (inode_lba (sb s) ino)) (\<lambda>buf.
          case slice buf (inode_off ino) (inode_off ino + INODE_SIZE) of
            None \<Rightarrow> panic
          | Some b \<Rightarrow> of_result (inode_read_from b)) s)"

definition write_inode :: "'d block_dev \<Rightarrow> u32 \<Rightarrow> inode \<Rightarrow> ('d, unit) fs_action" where
  "write_inode D ino nd s =
     (if inode_count (sb s) \<le> ino then throw FsNotFound s
      else
        bindE (dev_read D (inode_lba (sb s) ino)) (\<lambda>buf.
          case slice buf (inode_off ino) (inode_off ino + INODE_SIZE) of
            None \<Rightarrow> panic
          | Some b \<Rightarrow>
              bindE (of_result (inode_write_to nd b)) (\<lambda>b.
                case splice_at (inode_off ino) b buf of
                  None \<Rightarrow> panic
                | Some buf \<Rightarrow> dev_write D (inode_lba (sb s) ino) buf)) s)"

fun alloc_inode_scan :: "'d block_dev \<Rightarrow> nat list \<Rightarrow> ('d, u32) fs_action" where
  "alloc_inode_scan D [] = throw NoSpace"
| "alloc_inode_scan D (i # is) =
     bindE (read_inode D (of_nat i)) (\<lambda>nd.
       if inode_kind nd = KIND_FREE then ret (of_nat i) else alloc_inode_scan D is)"

definition alloc_inode :: "'d block_dev \<Rightarrow> ('d, u32) fs_action" where
  "alloc_inode D s = alloc_inode_scan D [1 ..< unat (inode_count (sb s))] s"

section \<open>Block bitmap\<close>

definition bit_lba :: "superblock \<Rightarrow> u64 \<Rightarrow> u64" where
  "bit_lba b i = bitmap_start b + (i div 8) div of_nat BLOCK_SIZE"

definition bit_off :: "u64 \<Rightarrow> nat" where
  "bit_off i = unat ((i div 8) mod of_nat BLOCK_SIZE)"

definition bit_mask :: "u64 \<Rightarrow> u8" where
  "bit_mask i = push_bit (unat (i mod 8)) 1"

definition bit_get :: "'d block_dev \<Rightarrow> u64 \<Rightarrow> ('d, bool) fs_action" where
  "bit_get D i s =
     bindE (dev_read D (bit_lba (sb s) i)) (\<lambda>buf.
       case idx buf (bit_off i) of
         None \<Rightarrow> panic
       | Some byte \<Rightarrow> ret (byte AND bit_mask i \<noteq> 0)) s"

definition bit_set :: "'d block_dev \<Rightarrow> u64 \<Rightarrow> bool \<Rightarrow> ('d, unit) fs_action" where
  "bit_set D i value s =
     bindE (dev_read D (bit_lba (sb s) i)) (\<lambda>buf.
       case idx_update buf (bit_off i)
              (\<lambda>byte. if value then byte OR bit_mask i else byte AND NOT (bit_mask i)) of
         None \<Rightarrow> panic
       | Some buf \<Rightarrow> dev_write D (bit_lba (sb s) i) buf) s"

fun alloc_block_scan :: "'d block_dev \<Rightarrow> nat list \<Rightarrow> ('d, u64) fs_action" where
  "alloc_block_scan D [] = throw NoSpace"
| "alloc_block_scan D (i # is) =
     bindE (bit_get D (of_nat i)) (\<lambda>used.
       if \<not> used then bindE (bit_set D (of_nat i) True) (\<lambda>_ s. ret (data_start (sb s) + of_nat i) s)
       else alloc_block_scan D is)"

definition alloc_block :: "'d block_dev \<Rightarrow> ('d, u64) fs_action" where
  "alloc_block D s = alloc_block_scan D [0 ..< unat (data_blocks (sb s))] s"

definition free_block :: "'d block_dev \<Rightarrow> u64 \<Rightarrow> ('d, unit) fs_action" where
  "free_block D lba s =
     (if lba < data_start (sb s) then throw Corrupt s
      else bit_set D (lba - data_start (sb s)) False s)"
section \<open>File data\<close>

text \<open>The loop of \<open>read_inode_data\<close>: \<open>remaining\<close> counts down the bytes still to be taken.\<close>

fun read_chunks :: "'d block_dev \<Rightarrow> u64 list \<Rightarrow> nat \<Rightarrow> ('d, u8 list) fs_action" where
  "read_chunks D [] remaining = ret []"
| "read_chunks D (blk # blks) remaining =
     bindE (dev_read D blk) (\<lambda>buf.
       let taken = min remaining BLOCK_SIZE in
       case slice buf 0 taken of
         None \<Rightarrow> panic
       | Some part \<Rightarrow> bindE (read_chunks D blks (remaining - taken)) (\<lambda>rest. ret (part @ rest)))"

definition read_inode_data :: "'d block_dev \<Rightarrow> inode \<Rightarrow> ('d, u8 list) fs_action" where
  "read_inode_data D nd =
     (if 2 ^ 63 \<le> unat (inode_size nd) then panic
      else read_chunks D (take (blocks_used nd) (direct nd)) (unat (inode_size nd)))"

text \<open>The three loops of \<open>write_inode_data\<close>: growing, shrinking, and writing the blocks.\<close>

fun grow_blocks :: "'d block_dev \<Rightarrow> nat list \<Rightarrow> inode \<Rightarrow> ('d, inode) fs_action" where
  "grow_blocks D [] nd = ret nd"
| "grow_blocks D (i # is) nd =
     bindE (alloc_block D) (\<lambda>lba.
       case idx_update (direct nd) i (\<lambda>_. lba) of
         None \<Rightarrow> panic
       | Some ds \<Rightarrow> grow_blocks D is (nd\<lparr>direct := ds\<rparr>))"

fun shrink_blocks :: "'d block_dev \<Rightarrow> nat list \<Rightarrow> inode \<Rightarrow> ('d, inode) fs_action" where
  "shrink_blocks D [] nd = ret nd"
| "shrink_blocks D (i # is) nd =
     (case idx (direct nd) i of
        None \<Rightarrow> panic
      | Some lba \<Rightarrow>
          if lba \<noteq> 0 then
            bindE (free_block D lba) (\<lambda>_. shrink_blocks D is (nd\<lparr>direct := (direct nd)[i := 0]\<rparr>))
          else shrink_blocks D is nd)"

fun write_chunks :: "'d block_dev \<Rightarrow> u64 list \<Rightarrow> u8 list \<Rightarrow> nat list \<Rightarrow> ('d, unit) fs_action" where
  "write_chunks D ds data [] = ret ()"
| "write_chunks D ds data (i # is) =
     (let start = i * BLOCK_SIZE;
          end_pos = min (start + BLOCK_SIZE) (length data)
      in case slice data start end_pos of
           None \<Rightarrow> panic
         | Some part \<Rightarrow>
             (case splice_at 0 part (replicate BLOCK_SIZE 0) of
                None \<Rightarrow> panic
              | Some buf \<Rightarrow>
                  (case idx ds i of
                     None \<Rightarrow> panic
                   | Some lba \<Rightarrow> bindE (dev_write D lba buf) (\<lambda>_. write_chunks D ds data is))))"

definition write_inode_data :: "'d block_dev \<Rightarrow> u32 \<Rightarrow> inode \<Rightarrow> u8 list \<Rightarrow> ('d, unit) fs_action" where
  "write_inode_data D ino nd data =
     (if MAX_FILE_SIZE < length data then throw FsTooLarge
      else
        let new_blocks = div_ceil (length data) BLOCK_SIZE;
            old_blocks = blocks_used nd
        in
          bindE (grow_blocks D [old_blocks ..< new_blocks] nd) (\<lambda>nd.
          bindE (shrink_blocks D [new_blocks ..< old_blocks] nd) (\<lambda>nd.
          bindE (write_chunks D (direct nd) data [0 ..< new_blocks]) (\<lambda>_.
          write_inode D ino (nd\<lparr>inode_size := of_nat (length data)\<rparr>)))))"

section \<open>Directories\<close>

definition decode_slot :: "u8 list \<Rightarrow> (fs_error + u32 \<times> nat \<times> u8 list) option" where
  "decode_slot ent =
     map_option fst
       (as_corrupt
         (bindE get_u32 (\<lambda>ino.
          bindE get_u8 (\<lambda>n.
          bindE (get_slice NAME_MAX) (\<lambda>field.
          ret (ino, unat n, field)))))
         (reader_new ent))"

function parse_entries :: "'d block_dev \<Rightarrow> u8 list \<Rightarrow> ('d, (u32 \<times> bool \<times> u8 list) list) fs_action" where
  "parse_entries D data =
     (if length data < DIR_ENTRY_SIZE then ret []
      else
        bindE (of_result (decode_slot (take DIR_ENTRY_SIZE data))) (\<lambda>(ino, name_len, field).
          if ino \<noteq> 0 \<and> name_len \<le> NAME_MAX then
            bindE (read_inode D ino) (\<lambda>child.
              case slice field 0 name_len of
                None \<Rightarrow> panic
              | Some name \<Rightarrow>
                  bindE (parse_entries D (drop DIR_ENTRY_SIZE data)) (\<lambda>rest.
                    ret ((ino, inode_kind child = KIND_DIR, name) # rest)))
          else parse_entries D (drop DIR_ENTRY_SIZE data)))"
  by pat_completeness auto
termination
  by (relation "measure (\<lambda>(D, data). length data)") (auto simp: DIR_ENTRY_SIZE_def)

declare parse_entries.simps [simp del]

definition read_dir_entries :: "'d block_dev \<Rightarrow> u32 \<Rightarrow> ('d, (u32 \<times> bool \<times> u8 list) list) fs_action" where
  "read_dir_entries D dir_ino =
     bindE (read_inode D dir_ino) (\<lambda>dir.
       if inode_kind dir \<noteq> KIND_DIR then throw WrongKind
       else bindE (read_inode_data D dir) (\<lambda>data. parse_entries D data))"

definition encode_slot :: "u32 \<Rightarrow> u8 list \<Rightarrow> (fs_error + u8 list) option" where
  "encode_slot ino name =
     (case splice_at 0 name (replicate NAME_MAX 0) of
        None \<Rightarrow> None
      | Some namebuf \<Rightarrow>
          map_option (\<lambda>(r, w). case r of Inl e \<Rightarrow> Inl e | Inr _ \<Rightarrow> Inr (w_buf w))
            (as_corrupt
              (bindE (put_u32 ino) (\<lambda>_.
               bindE (put_u8 (of_nat (length name))) (\<lambda>_.
               bindE (put_bytes namebuf) (\<lambda>_.
               bindE (put_u16 0) (\<lambda>_.
               put_u8 0)))))
              (writer_new (replicate DIR_ENTRY_SIZE 0))))"

fun encode_dir :: "(u32 \<times> u8 list) list \<Rightarrow> (fs_error + u8 list) option" where
  "encode_dir [] = Some (Inr [])"
| "encode_dir ((ino, name) # es) =
     (case encode_slot ino name of
        None \<Rightarrow> None
      | Some (Inl e) \<Rightarrow> Some (Inl e)
      | Some (Inr slot) \<Rightarrow>
          (case encode_dir es of
             None \<Rightarrow> None
           | Some (Inl e) \<Rightarrow> Some (Inl e)
           | Some (Inr rest) \<Rightarrow> Some (Inr (slot @ rest))))"

definition dir_add :: "'d block_dev \<Rightarrow> u32 \<Rightarrow> u32 \<Rightarrow> u8 list \<Rightarrow> ('d, unit) fs_action" where
  "dir_add D dir_ino ino name =
     (if NAME_MAX < length name then throw FsTooLarge
      else
        bindE (read_dir_entries D dir_ino) (\<lambda>existing.
        bindE (of_result (encode_dir (map (\<lambda>(i, _, n). (i, n)) existing @ [(ino, name)]))) (\<lambda>data.
        bindE (read_inode D dir_ino) (\<lambda>dir.
        write_inode_data D dir_ino dir data))))"

definition dir_lookup :: "'d block_dev \<Rightarrow> u32 \<Rightarrow> u8 list \<Rightarrow> ('d, u32) fs_action" where
  "dir_lookup D dir_ino name =
     bindE (read_dir_entries D dir_ino) (\<lambda>entries.
       case find (\<lambda>(_, _, n). n = name) entries of
         Some (ino, _, _) \<Rightarrow> ret ino
       | None \<Rightarrow> throw FsNotFound)"

definition dir_remove :: "'d block_dev \<Rightarrow> u32 \<Rightarrow> u8 list \<Rightarrow> ('d, unit) fs_action" where
  "dir_remove D dir_ino name =
     bindE (read_dir_entries D dir_ino) (\<lambda>existing.
       let entries = map (\<lambda>(i, _, n). (i, n)) (filter (\<lambda>(_, _, n). n \<noteq> name) existing) in
       if length entries = length existing then throw FsNotFound
       else
         bindE (of_result (encode_dir entries)) (\<lambda>data.
         bindE (read_inode D dir_ino) (\<lambda>dir.
         write_inode_data D dir_ino dir data)))"

section \<open>Paths\<close>

fun split_slash :: "u8 list \<Rightarrow> u8 list list" where
  "split_slash [] = [[]]"
| "split_slash (c # cs) =
     (if c = 0x2F then [] # split_slash cs
      else (c # hd (split_slash cs)) # tl (split_slash cs))"

definition components :: "u8 list \<Rightarrow> u8 list list" where
  "components path = filter (\<lambda>c. c \<noteq> []) (split_slash path)"

fun resolve_from :: "'d block_dev \<Rightarrow> u32 \<Rightarrow> u8 list list \<Rightarrow> ('d, u32) fs_action" where
  "resolve_from D ino [] = ret ino"
| "resolve_from D ino (c # cs) = bindE (dir_lookup D ino c) (\<lambda>ino. resolve_from D ino cs)"

definition resolve :: "'d block_dev \<Rightarrow> u8 list \<Rightarrow> ('d, u32) fs_action" where
  "resolve D path = resolve_from D ROOT_INODE (components path)"

definition resolve_parent :: "'d block_dev \<Rightarrow> u8 list \<Rightarrow> ('d, u32 \<times> u8 list) fs_action" where
  "resolve_parent D path =
     (case components path of
        [] \<Rightarrow> throw FsNotFound
      | cs \<Rightarrow> bindE (resolve_from D ROOT_INODE (butlast cs)) (\<lambda>ino. ret (ino, last cs)))"

definition empty_inode :: "u32 \<Rightarrow> inode" where
  "empty_inode k = \<lparr>inode_kind = k, inode_size = 0, direct = replicate DIRECT_BLOCKS 0\<rparr>"

definition mkdir :: "'d block_dev \<Rightarrow> u8 list \<Rightarrow> ('d, u32) fs_action" where
  "mkdir D path =
     bindE (resolve_parent D path) (\<lambda>(parent, name).
     bindE (attempt (dir_lookup D parent name)) (\<lambda>found.
       case found of
         Inr _ \<Rightarrow> throw Exists
       | Inl _ \<Rightarrow>
           bindE (alloc_inode D) (\<lambda>ino.
           bindE (write_inode D ino (empty_inode KIND_DIR)) (\<lambda>_.
           bindE (dir_add D parent ino name) (\<lambda>_.
           ret ino)))))"

definition write_file :: "'d block_dev \<Rightarrow> u8 list \<Rightarrow> u8 list \<Rightarrow> ('d, u32) fs_action" where
  "write_file D path data =
     bindE (resolve_parent D path) (\<lambda>(parent, name).
     bindE (attempt (dir_lookup D parent name)) (\<lambda>found.
     bindE
       (case found of
          Inr existing \<Rightarrow> ret existing
        | Inl FsNotFound \<Rightarrow>
            bindE (alloc_inode D) (\<lambda>ino.
            bindE (write_inode D ino (empty_inode KIND_FILE)) (\<lambda>_.
            bindE (dir_add D parent ino name) (\<lambda>_.
            ret ino)))
        | Inl e \<Rightarrow> throw e) (\<lambda>ino.
     bindE (read_inode D ino) (\<lambda>nd.
       if inode_kind nd \<noteq> KIND_FILE then throw WrongKind
       else bindE (write_inode_data D ino nd data) (\<lambda>_. ret ino)))))"

definition read_file :: "'d block_dev \<Rightarrow> u8 list \<Rightarrow> ('d, u8 list) fs_action" where
  "read_file D path =
     bindE (resolve D path) (\<lambda>ino.
     bindE (read_inode D ino) (\<lambda>nd.
       if inode_kind nd \<noteq> KIND_FILE then throw WrongKind else read_inode_data D nd))"

definition list_dir :: "'d block_dev \<Rightarrow> u8 list \<Rightarrow> ('d, dir_entry list) fs_action" where
  "list_dir D path =
     bindE (resolve D path) (\<lambda>ino.
     bindE (read_dir_entries D ino) (\<lambda>es.
       ret (map (\<lambda>(i, d, n). \<lparr>entry_inode = i, is_dir = d, entry_name = n\<rparr>) es)))"

definition fs_exists :: "'d block_dev \<Rightarrow> u8 list \<Rightarrow> ('d, bool) fs_action" where
  "fs_exists D path = bindE (attempt (resolve D path)) (\<lambda>r. ret (case r of Inl _ \<Rightarrow> False | Inr _ \<Rightarrow> True))"

fun free_all_blocks :: "'d block_dev \<Rightarrow> u64 list \<Rightarrow> ('d, unit) fs_action" where
  "free_all_blocks D [] = ret ()"
| "free_all_blocks D (blk # blks) =
     (if blk \<noteq> 0 then bindE (free_block D blk) (\<lambda>_. free_all_blocks D blks) else free_all_blocks D blks)"

definition remove_file :: "'d block_dev \<Rightarrow> u8 list \<Rightarrow> ('d, unit) fs_action" where
  "remove_file D path =
     bindE (resolve_parent D path) (\<lambda>(parent, name).
     bindE (dir_lookup D parent name) (\<lambda>ino.
     bindE (read_inode D ino) (\<lambda>nd.
       if inode_kind nd \<noteq> KIND_FILE then throw WrongKind
       else
         bindE (free_all_blocks D (take (blocks_used nd) (direct nd))) (\<lambda>_.
         bindE (write_inode D ino (empty_inode KIND_FREE)) (\<lambda>_.
         dir_remove D parent name)))))"

section \<open>Format and mount\<close>

text \<open>
  The search for the size of the bitmap. The loop may in principle run on; that it stops is a
  theorem.
\<close>

definition u64_div_ceil :: "u64 \<Rightarrow> u64 \<Rightarrow> u64" where
  "u64_div_ceil a b = of_nat (div_ceil (unat a) (unat b))"

partial_function (option) bitmap_loop :: "u64 \<Rightarrow> u64 \<Rightarrow> u64 \<Rightarrow> (fs_error + u64) option" where
  "bitmap_loop tot inode_blocks bb =
     (let overhead = 1 + bb + inode_blocks in
      if tot \<le> overhead then Some (Inl NoSpace)
      else
        let needed = max (u64_div_ceil (tot - overhead) (of_nat (BLOCK_SIZE * 8))) 1 in
        if needed \<le> bb then Some (Inr bb) else bitmap_loop tot inode_blocks needed)"

definition layout :: "u64 \<Rightarrow> u32 \<Rightarrow> (fs_error + superblock) option" where
  "layout tot n =
     (let inode_blocks = u64_div_ceil (ucast n) (of_nat (BLOCK_SIZE div INODE_SIZE)) in
      case bitmap_loop tot inode_blocks 1 of
        None \<Rightarrow> None
      | Some (Inl e) \<Rightarrow> Some (Inl e)
      | Some (Inr bb) \<Rightarrow>
          Some (Inr \<lparr>total_blocks = tot, bitmap_start = 1, bitmap_blocks = bb, inode_start = 1 + bb,
            inode_count = n, data_start = 1 + bb + inode_blocks,
            data_blocks = tot - (1 + bb + inode_blocks)\<rparr>))"

fun zero_blocks :: "'d block_dev \<Rightarrow> u64 \<Rightarrow> nat list \<Rightarrow> ('d, unit) fs_action" where
  "zero_blocks D start [] = ret ()"
| "zero_blocks D start (b # bs) =
     bindE (dev_write D (start + of_nat b) (replicate BLOCK_SIZE 0)) (\<lambda>_. zero_blocks D start bs)"

definition format :: "'d block_dev \<Rightarrow> 'd \<Rightarrow> u32 \<Rightarrow> ((fs_error + 'd fs) \<times> 'd) option" where
  "format D d n =
     (case layout (block_count D d) n of
        None \<Rightarrow> None
      | Some (Inl e) \<Rightarrow> Some (Inl e, d)
      | Some (Inr b) \<Rightarrow>
          map_option (\<lambda>(r, s). (case r of Inl e \<Rightarrow> Inl e | Inr _ \<Rightarrow> Inr s, dev s))
            (bindE (zero_blocks D (bitmap_start b) [0 ..< unat (bitmap_blocks b)]) (\<lambda>_.
             bindE (zero_blocks D (inode_start b) [0 ..< unat (data_start b - inode_start b)]) (\<lambda>_.
             bindE (of_result (superblock_write_to b (replicate BLOCK_SIZE 0))) (\<lambda>buf.
             bindE (dev_write D 0 buf) (\<lambda>_.
             write_inode D ROOT_INODE (empty_inode KIND_DIR)))))
               \<lparr>dev = d, sb = b\<rparr>))"

definition mount :: "'d block_dev \<Rightarrow> 'd \<Rightarrow> (fs_error + 'd fs) option" where
  "mount D d =
     (case read_blocks D d 0 1 BLOCK_SIZE of
        Inl e \<Rightarrow> Some (Inl (Block e))
      | Inr buf \<Rightarrow>
          map_option (\<lambda>r. case r of Inl e \<Rightarrow> Inl e | Inr b \<Rightarrow> Inr \<lparr>dev = d, sb = b\<rparr>)
            (superblock_read_from buf))"

end
