(* ===== verification/Fs_Volume.thy ===== *)
theory Fs_Volume
  imports Fs
begin

unbundle bit_operations_syntax

text \<open>
  The volume as the layers above see it: the inodes, the set of data blocks in use and the contents
  of the data blocks. Every primitive of the inode table, the bitmap and the data region is shown
  to read or update exactly one entry of this view, on any device that meets the contract
  \<open>block_device\<close>.
\<close>

section \<open>Encodings\<close>

definition inode_bytes :: "inode \<Rightarrow> u8 list" where
  "inode_bytes nd = to_le 4 (inode_kind nd) @ to_le 4 (0 :: u32) @ to_le 8 (inode_size nd) @ concat (map (to_le 8) (direct nd))"

definition inode_of :: "u8 list \<Rightarrow> inode" where
  "inode_of b = \<lparr>inode_kind = from_le (take 4 b), inode_size = from_le (take 8 (drop 8 b)),
     direct = map (\<lambda>i. from_le (take 8 (drop (16 + 8 * i) b))) [0 ..< 6]\<rparr>"

lemma put_u64s_fields: "put_u64s ps = put_fields (map FU64 ps)"
  by (induction ps) simp_all

lemma length_concat_le [simp]: "length (concat (map (to_le 8) ps)) = 8 * length ps"
  by (induction ps) simp_all

lemma length_inode_bytes: "length (direct nd) = 6 \<Longrightarrow> length (inode_bytes nd) = 64"
  by (simp add: inode_bytes_def)

lemma put_fields_whole:
  assumes "list_all field_ok fs" "length (concat (map field_bytes fs)) \<le> length buf"
  shows "put_fields fs (writer_new buf) =
    Some (Inr (), emit (concat (map field_bytes fs)) (writer_new buf))"
    "w_buf (emit (concat (map field_bytes fs)) (writer_new buf)) =
      concat (map field_bytes fs) @ drop (length (concat (map field_bytes fs))) buf"
  using assms put_fields_run [of "writer_new buf" fs]
  by (simp_all add: writer_new_def writer_remaining_def emit_def writer_wf_def)

lemma inode_write_to_run:
  assumes "length (direct nd) = 6" "length b = 64"
  shows "inode_write_to nd b = Some (Inr (inode_bytes nd))"
proof -
  let ?fs = "FU32 (inode_kind nd) # FU32 0 # FU64 (inode_size nd) # map FU64 (direct nd)"
  have bytes: "concat (map field_bytes ?fs) = inode_bytes nd"
    by (simp add: inode_bytes_def comp_def)
  have ok: "list_all field_ok ?fs" by (simp add: list_all_iff)
  have "bindE (put_u32 (inode_kind nd)) (\<lambda>_. bindE (put_u32 0) (\<lambda>_. bindE (put_u64 (inode_size nd)) (\<lambda>_. put_u64s (direct nd)))) = put_fields ?fs"
    by (simp add: put_u64s_fields)
  then show ?thesis
    using put_fields_whole [OF ok, of b] length_inode_bytes [OF assms(1)] assms(2)
    unfolding bytes by (simp add: inode_write_to_def as_corrupt_def)
qed

lemma get_u32_run [cursor_simps]:
  "reader_wf r \<Longrightarrow> 4 \<le> reader_remaining r \<Longrightarrow>
   get_u32 r = Some (Inr (from_le (take 4 (drop (r_pos r) (r_buf r)))), r\<lparr>r_pos := r_pos r + 4\<rparr>)"
  by (simp add: get_u32_def get_into_eq_slice get_slice_run bindE_def ret_def)

lemma get_u64_run [cursor_simps]:
  "reader_wf r \<Longrightarrow> 8 \<le> reader_remaining r \<Longrightarrow>
   get_u64 r = Some (Inr (from_le (take 8 (drop (r_pos r) (r_buf r)))), r\<lparr>r_pos := r_pos r + 8\<rparr>)"
  by (simp add: get_u64_def get_into_eq_slice get_slice_run bindE_def ret_def)

lemma get_u64s_run [cursor_simps]:
  "reader_wf r \<Longrightarrow> 8 * n \<le> reader_remaining r \<Longrightarrow>
   get_u64s n r = Some (Inr (map (\<lambda>i. from_le (take 8 (drop (r_pos r + 8 * i) (r_buf r)))) [0 ..< n]),
     r\<lparr>r_pos := r_pos r + 8 * n\<rparr>)"
proof (induction n arbitrary: r)
  case 0
  then show ?case by (simp add: ret_def)
next
  case (Suc n)
  have "get_u64s n (r\<lparr>r_pos := r_pos r + 8\<rparr>) =
      Some (Inr (map (\<lambda>i. from_le (take 8 (drop (r_pos r + 8 + 8 * i) (r_buf r)))) [0 ..< n]),
        r\<lparr>r_pos := r_pos r + 8 + 8 * n\<rparr>)"
    using Suc.IH [of "r\<lparr>r_pos := r_pos r + 8\<rparr>"] Suc.prems by (simp add: reader_wf_def reader_remaining_def)
  moreover have "map (\<lambda>i. from_le (take 8 (drop (r_pos r + 8 * i) (r_buf r))) :: u64) [0 ..< Suc n] =
      from_le (take 8 (drop (r_pos r) (r_buf r))) # map (\<lambda>i. from_le (take 8 (drop (r_pos r + 8 + 8 * i) (r_buf r)))) [0 ..< n]"
    unfolding map_upt_Suc by (simp add: ac_simps)
  ultimately show ?case
    using Suc.prems by (simp del: upt_Suc add: get_u64_run bindE_def ret_def ac_simps)
qed

lemma inode_read_from_run:
  assumes "length b = 64"
  shows "inode_read_from b = Some (Inr (inode_of b))"
  using assms
  by (simp add: inode_read_from_def as_corrupt_def bindE_def ret_def reader_new_def reader_wf_def reader_remaining_def
      get_u32_run get_u64_run get_u64s_run DIRECT_BLOCKS_def inode_of_def)

lemma length_direct_inode_of [simp]: "length (direct (inode_of b)) = 6"
  by (simp add: inode_of_def)

lemma take_drop_concat_le:
  assumes "i < length ps"
  shows "take 8 (drop (8 * i) (concat (map (to_le 8) ps))) = to_le 8 (ps ! i)"
  using assms
proof (induction ps arbitrary: i)
  case (Cons p ps)
  then show ?case by (cases i) simp_all
qed simp

lemma inode_of_bytes:
  assumes "length (direct nd) = 6"
  shows "inode_of (inode_bytes nd) = nd"
proof -
  have "map (\<lambda>i. from_le (take 8 (drop (16 + 8 * i) (inode_bytes nd)))) [0 ..< 6] = direct nd"
  proof (rule nth_equalityI)
    fix i
    assume "i < length (map (\<lambda>i. from_le (take 8 (drop (16 + 8 * i) (inode_bytes nd))) :: u64) [0 ..< 6])"
    then have i: "i < length (direct nd)" using assms by simp
    have "drop (16 + 8 * i) (inode_bytes nd) = drop (8 * i) (concat (map (to_le 8) (direct nd)))"
      by (simp add: inode_bytes_def)
    then show "map (\<lambda>i. from_le (take 8 (drop (16 + 8 * i) (inode_bytes nd)))) [0 ..< 6] ! i = direct nd ! i"
      using i assms take_drop_concat_le [OF i] by (simp add: from_le_to_le)
  qed (simp add: assms)
  then show ?thesis
    by (simp add: inode_of_def) (simp add: inode_bytes_def from_le_to_le)
qed
section \<open>Layout\<close>

definition inode_blocks :: "superblock \<Rightarrow> nat" where
  "inode_blocks b = div_ceil (unat (inode_count b)) 8"

definition sb_wf :: "superblock \<Rightarrow> u64 \<Rightarrow> bool" where
  "sb_wf b count \<longleftrightarrow> bitmap_start b = 1 \<and> unat (inode_start b) = 1 + unat (bitmap_blocks b) \<and>
     unat (data_start b) = unat (inode_start b) + inode_blocks b \<and>
     unat (data_start b) + unat (data_blocks b) \<le> unat count \<and>
     unat (data_blocks b) \<le> 4096 * unat (bitmap_blocks b) \<and> 0 < inode_count b"

definition in_data :: "superblock \<Rightarrow> u64 \<Rightarrow> bool" where
  "in_data b l \<longleftrightarrow> data_start b \<le> l \<and> unat l < unat (data_start b) + unat (data_blocks b)"

lemma inode_lba_bounds:
  assumes "sb_wf b count" "ino < inode_count b"
  shows "unat (inode_lba b ino) = unat (inode_start b) + unat ino div 8"
    and "inode_lba b ino < data_start b" and "inode_start b \<le> inode_lba b ino"
proof -
  have up: "unat (ucast ino :: u64) = unat ino"
  proof -
    have "unat ino < 2 ^ 32" using unsigned_less [of ino, where 'a = nat] by simp
    then have "unat ino < 2 ^ 64" by simp
    then show ?thesis by (simp add: unsigned_ucast_eq take_bit_nat_eq_self)
  qed
  have q: "unat (ucast ino div of_nat (BLOCK_SIZE div INODE_SIZE) :: u64) = unat ino div 8"
    by (simp add: unat_div_distrib up BLOCK_SIZE_def INODE_SIZE_def)
  have lt: "unat ino div 8 < inode_blocks b"
    using assms(2) div_ceil_le_iff [of 8 "unat (inode_count b)" "unat ino div 8"]
    by (simp add: inode_blocks_def word_less_nat_alt not_le [symmetric])
  have "unat (data_start b) < 2 ^ 64" by (rule unat_u64_less)
  then have "unat (inode_start b) + unat ino div 8 < 2 ^ 64"
    using lt assms(1) by (simp add: sb_wf_def)
  then show eq: "unat (inode_lba b ino) = unat (inode_start b) + unat ino div 8"
    using q by (simp add: inode_lba_def unat_word_ariths)
  show "inode_lba b ino < data_start b" "inode_start b \<le> inode_lba b ino"
    using eq lt assms(1) by (simp_all add: word_less_nat_alt word_le_nat_alt sb_wf_def)
qed

lemma inode_off_eq: "inode_off ino = unat ino mod 8 * 64"
proof -
  have "unat ino < 2 ^ 32" using unsigned_less [of ino, where 'a = nat] by simp
  then have "unat ino < 2 ^ 64" by simp
  then have "unat (ucast ino :: u64) = unat ino" by (simp add: unsigned_ucast_eq take_bit_nat_eq_self)
  then show ?thesis by (simp add: inode_off_def unat_mod_distrib BLOCK_SIZE_def INODE_SIZE_def)
qed

lemma bit_lba_bounds:
  assumes "sb_wf b count" "i < data_blocks b"
  shows "unat (bit_lba b i) = 1 + unat i div 4096" and "0 < bit_lba b i" and "bit_lba b i < inode_start b"
proof -
  have q: "unat (i div 8 div of_nat BLOCK_SIZE) = unat i div 4096"
    by (simp add: unat_div_distrib BLOCK_SIZE_def div_mult2_eq [symmetric])
  have lt: "unat i div 4096 < unat (bitmap_blocks b)"
    using assms by (simp add: sb_wf_def word_less_nat_alt div_less_iff_less_mult mult.commute)
  have "unat (inode_start b) < 2 ^ 64" by (rule unat_u64_less)
  then have "1 + unat i div 4096 < 2 ^ 64"
    using lt assms(1) by (simp add: sb_wf_def)
  then show eq: "unat (bit_lba b i) = 1 + unat i div 4096"
    using q assms(1) by (simp add: bit_lba_def unat_word_ariths sb_wf_def)
  then show "0 < bit_lba b i" "bit_lba b i < inode_start b"
    using lt assms(1) by (simp_all add: word_less_nat_alt sb_wf_def)
qed

lemma bit_off_eq: "bit_off i = unat i div 8 mod 512"
  by (simp add: bit_off_def unat_div_distrib unat_mod_distrib BLOCK_SIZE_def)

lemma bitmap_bit_test: "(byte AND bit_mask i \<noteq> 0) \<longleftrightarrow> bit byte (unat i mod 8)"
proof -
  have "bit_mask i = 2 ^ (unat i mod 8)"
    by (simp add: bit_mask_def unat_mod_distrib push_bit_eq_mult)
  then show ?thesis by (simp add: and_exp_eq_0_iff_not_bit)
qed

lemma bit_updated:
  "bit (if v then byte OR bit_mask i else byte AND NOT (bit_mask i)) (unat j mod 8) \<longleftrightarrow>
   (if unat j mod 8 = unat i mod 8 then v else bit byte (unat j mod 8))"
proof -
  have m: "k < 8 \<Longrightarrow> bit (bit_mask i) k \<longleftrightarrow> k = unat i mod 8" for k
    by (auto simp: bit_mask_def unat_mod_distrib push_bit_eq_mult bit_exp_iff)
  have "unat j mod 8 < LENGTH(8)" by simp
  then show ?thesis
    by (auto simp: bit_or_iff bit_and_iff bit_not_iff m)
qed

text \<open>A data block index is determined by its bitmap block, its byte and its bit.\<close>

lemma bit_position_inj:
  assumes "i div 4096 = j div 4096" "i div 8 mod 512 = j div 8 mod 512" "i mod 8 = j mod 8"
  shows "i = (j :: nat)"
proof -
  have "i div 8 div 512 = j div 8 div 512"
    using assms(1) by (simp add: div_mult2_eq [symmetric])
  then have "i div 8 = j div 8"
    using assms(2) by (metis div_mult_mod_eq)
  then show ?thesis
    using assms(3) by (metis div_mult_mod_eq)
qed

section \<open>The view\<close>

definition blk :: "'d block_dev \<Rightarrow> 'd fs \<Rightarrow> u64 \<Rightarrow> u8 list" where
  "blk D s l = (case read_blocks D (dev s) l 1 BLOCK_SIZE of Inl _ \<Rightarrow> [] | Inr b \<Rightarrow> b)"

definition inodes :: "'d block_dev \<Rightarrow> 'd fs \<Rightarrow> u32 \<Rightarrow> inode" where
  "inodes D s ino =
     (if ino < inode_count (sb s)
      then inode_of (take 64 (drop (unat ino mod 8 * 64) (blk D s (inode_lba (sb s) ino))))
      else empty_inode KIND_FREE)"

definition used :: "'d block_dev \<Rightarrow> 'd fs \<Rightarrow> u64 \<Rightarrow> bool" where
  "used D s l \<longleftrightarrow> in_data (sb s) l \<and>
     (let i = l - data_start (sb s) in bit (blk D s (bit_lba (sb s) i) ! (unat i div 8 mod 512)) (unat i mod 8))"

definition vdata :: "'d block_dev \<Rightarrow> 'd fs \<Rightarrow> u64 \<Rightarrow> u8 list" where
  "vdata D s l = (if in_data (sb s) l then blk D s l else [])"

text \<open>A sane layout on a working device, with the superblock on disk.\<close>

definition good :: "'d block_dev \<Rightarrow> ('d \<Rightarrow> bool) \<Rightarrow> 'd fs \<Rightarrow> bool" where
  "good D valid s \<longleftrightarrow> valid (dev s) \<and> sb_wf (sb s) (block_count D (dev s)) \<and>
     superblock_read_from (blk D s 0) = Some (Inr (sb s))"

text \<open>The state reached has the given view over the same layout.\<close>

definition shows_view ::
    "'d block_dev \<Rightarrow> ('d \<Rightarrow> bool) \<Rightarrow> superblock \<Rightarrow> 'd fs \<Rightarrow> (u32 \<Rightarrow> inode) \<Rightarrow> (u64 \<Rightarrow> bool) \<Rightarrow> (u64 \<Rightarrow> u8 list) \<Rightarrow> bool" where
  "shows_view D valid b s I U B \<longleftrightarrow> good D valid s \<and> sb s = b \<and> inodes D s = I \<and> used D s = U \<and> vdata D s = B"

lemma direct_inodes [simp]: "length (direct (inodes D s ino)) = 6"
  by (simp add: inodes_def empty_inode_def DIRECT_BLOCKS_def)

lemma in_data_index:
  assumes "in_data b l" "sb_wf b count"
  shows "l - data_start b < data_blocks b" "l < count"
    "data_start b + (l - data_start b) = l"
  using assms by (auto simp: in_data_def sb_wf_def word_less_nat_alt word_le_nat_alt unat_sub)

lemma in_data_of_index:
  assumes "i < data_blocks b" "sb_wf b count"
  shows "in_data b (data_start b + i)" "data_start b + i - data_start b = i"
    "unat (data_start b + i) = unat (data_start b) + unat i"
proof -
  have "unat (data_start b) + unat i < 2 ^ 64"
    using assms unat_u64_less [of count] by (auto simp: sb_wf_def word_less_nat_alt)
  then show e: "unat (data_start b + i) = unat (data_start b) + unat i"
    by (simp add: unat_word_ariths)
  then show "in_data b (data_start b + i)"
    using assms by (simp add: in_data_def word_le_nat_alt word_less_nat_alt)
qed simp
section \<open>The primitives on a fault-free device\<close>

context block_device
begin

lemma read_in_blk:
  assumes "good D valid s" "l < block_count D (dev s)"
  shows "read_blocks D (dev s) l 1 BLOCK_SIZE = Inr (blk D s l)" "length (blk D s l) = 512"
  using read_in [of "dev s" l] assms by (auto simp: good_def blk_def BLOCK_SIZE_def)

lemma dev_read_run:
  "good D valid s \<Longrightarrow> l < block_count D (dev s) \<Longrightarrow> dev_read D l s = Some (Inr (blk D s l), s)"
  by (simp add: dev_read_def read_in_blk ret_def)

lemma dev_write_run:
  assumes "good D valid s" "l < block_count D (dev s)" "l \<noteq> 0" "length buf = 512"
  shows "\<exists>s'. dev_write D l buf s = Some (Inr (), s') \<and> good D valid s' \<and> sb s' = sb s \<and>
    block_count D (dev s') = block_count D (dev s) \<and> blk D s' = (blk D s)(l := buf)"
proof -
  obtain d' where "write_blocks D l 1 buf (dev s) = (Inr (), d')" "valid d'"
    "block_count D d' = block_count D (dev s)"
    "\<forall>k. read_blocks D d' k 1 BLOCK_SIZE = (if k = l then Inr buf else read_blocks D (dev s) k 1 BLOCK_SIZE)"
    using write_in [of "dev s" l buf] assms by (auto simp: good_def BLOCK_SIZE_def)
  then show ?thesis
    using assms(1,3) by (intro exI [of _ "s\<lparr>dev := d'\<rparr>"]) (simp add: dev_write_def ret_def good_def blk_def fun_eq_iff)
qed

lemma good_sb: "good D valid s \<Longrightarrow> sb_wf (sb s) (block_count D (dev s))"
  by (simp add: good_def)

lemma lba_in_device:
  assumes "good D valid s"
  shows "ino < inode_count (sb s) \<Longrightarrow> inode_lba (sb s) ino < block_count D (dev s)"
    and "i < data_blocks (sb s) \<Longrightarrow> bit_lba (sb s) i < block_count D (dev s)"
    and "in_data (sb s) l \<Longrightarrow> l < block_count D (dev s)"
  using inode_lba_bounds(2) [OF good_sb [OF assms]] bit_lba_bounds(3) [OF good_sb [OF assms]] good_sb [OF assms]
    in_data_index(2) [of "sb s" l "block_count D (dev s)"]
  by (fastforce simp: sb_wf_def word_less_nat_alt)+

lemma in_data_nonzero: "sb_wf b count \<Longrightarrow> in_data b l \<Longrightarrow> l \<noteq> 0"
  by (auto simp: sb_wf_def in_data_def word_le_nat_alt)

lemma lba_nonzero:
  assumes "good D valid s"
  shows "ino < inode_count (sb s) \<Longrightarrow> inode_lba (sb s) ino \<noteq> 0" "i < data_blocks (sb s) \<Longrightarrow> bit_lba (sb s) i \<noteq> 0"
    "in_data (sb s) l \<Longrightarrow> l \<noteq> 0"
proof -
  note wf = good_sb [OF assms]
  show "inode_lba (sb s) ino \<noteq> 0" if "ino < inode_count (sb s)"
    using inode_lba_bounds(1) [OF wf that] wf by (auto simp: sb_wf_def)
  show "bit_lba (sb s) i \<noteq> 0" if "i < data_blocks (sb s)"
    using bit_lba_bounds(2) [OF wf that] by auto
  show "in_data (sb s) l \<Longrightarrow> l \<noteq> 0" using in_data_nonzero [OF wf] by blast
qed

lemma off_in_block: "unat (ino :: u32) mod 8 * 64 + 64 \<le> 512"
proof -
  have "unat ino mod 8 \<le> 7" by simp
  then have "unat ino mod 8 * 64 \<le> 7 * 64" by (rule mult_le_mono1)
  then show ?thesis by simp
qed

lemma read_inode_run:
  assumes "good D valid s" "ino < inode_count (sb s)"
  shows "read_inode D ino s = Some (Inr (inodes D s ino), s)"
proof -
  have "length (blk D s (inode_lba (sb s) ino)) = 512" "dev_read D (inode_lba (sb s) ino) s = Some (Inr (blk D s (inode_lba (sb s) ino)), s)"
    using assms lba_in_device(1) read_in_blk(2) dev_read_run by blast+
  then show ?thesis
    using assms(2) off_in_block [of ino]
    unfolding read_inode_def if_not_P [OF assms(2) [folded linorder_not_le]]
    by (simp add: bindE_def inode_off_eq INODE_SIZE_def of_result_def inode_read_from_run inodes_def not_le)
qed

text \<open>Blocks of the three regions are distinct.\<close>

lemma regions_distinct:
  assumes "good D valid s"
  shows "ino < inode_count (sb s) \<Longrightarrow> i < data_blocks (sb s) \<Longrightarrow> inode_lba (sb s) ino \<noteq> bit_lba (sb s) i"
    and "ino < inode_count (sb s) \<Longrightarrow> in_data (sb s) l \<Longrightarrow> inode_lba (sb s) ino \<noteq> l"
    and "i < data_blocks (sb s) \<Longrightarrow> in_data (sb s) l \<Longrightarrow> bit_lba (sb s) i \<noteq> l"
proof -
  note wf = good_sb [OF assms]
  show "ino < inode_count (sb s) \<Longrightarrow> i < data_blocks (sb s) \<Longrightarrow> inode_lba (sb s) ino \<noteq> bit_lba (sb s) i"
    using inode_lba_bounds(3) [OF wf] bit_lba_bounds(3) [OF wf] by fastforce
  show "ino < inode_count (sb s) \<Longrightarrow> in_data (sb s) l \<Longrightarrow> inode_lba (sb s) ino \<noteq> l"
    using inode_lba_bounds(2) [OF wf] by (fastforce simp: in_data_def)
  have "inode_start (sb s) \<le> data_start (sb s)" using wf by (simp add: sb_wf_def word_le_nat_alt)
  then show "i < data_blocks (sb s) \<Longrightarrow> in_data (sb s) l \<Longrightarrow> bit_lba (sb s) i \<noteq> l"
    using bit_lba_bounds(3) [OF wf, of i] by (auto simp: in_data_def)
qed

lemma index_in_range: "good D valid s \<Longrightarrow> in_data (sb s) l \<Longrightarrow> l - data_start (sb s) < data_blocks (sb s)"
  using in_data_index(1) good_sb by blast

lemma view_inode_block:
  assumes s: "good D valid s" and s': "good D valid s'" "sb s' = sb s" and ino: "ino < inode_count (sb s)"
    and blk: "blk D s' = (blk D s)(inode_lba (sb s) ino := take (unat ino mod 8 * 64) (blk D s (inode_lba (sb s) ino)) @
      inode_bytes nd @ drop (unat ino mod 8 * 64 + 64) (blk D s (inode_lba (sb s) ino)))"
    and nd: "length (direct nd) = 6"
  shows "shows_view D valid (sb s) s' ((inodes D s)(ino := nd)) (used D s) (vdata D s)"
proof -
  note wf = good_sb [OF s]
  have "inodes D s' j = ((inodes D s)(ino := nd)) j" for j
  proof (cases "j < inode_count (sb s)")
    case True
    have len: "length (blk D s (inode_lba (sb s) ino)) = 8 * 64"
      using read_in_blk(2) [OF s lba_in_device(1) [OF s ino]] by simp
    have same: "inode_lba (sb s) j = inode_lba (sb s) ino \<Longrightarrow> unat j mod 8 = unat ino mod 8 \<Longrightarrow> j = ino"
      using inode_lba_bounds(1) [OF wf True] inode_lba_bounds(1) [OF wf ino]
      by (metis add_left_cancel div_mult_mod_eq word_unat_eq_iff)
    show ?thesis
      using True same ino block_splice [OF len, of "unat ino mod 8" "unat j mod 8" "inode_bytes nd"]
        length_inode_bytes [OF nd] inode_of_bytes [OF nd]
      by (cases "inode_lba (sb s) j = inode_lba (sb s) ino") (auto simp: inodes_def s'(2) blk)
  qed (use ino in \<open>auto simp: inodes_def s'(2)\<close>)
  moreover have "used D s' l = used D s l" for l
    using regions_distinct(1) [OF s ino, of "l - data_start (sb s)"] index_in_range [OF s, of l]
    by (auto simp: used_def Let_def s'(2) blk)
  moreover have "vdata D s' l = vdata D s l" for l
    using regions_distinct(2) [OF s ino, of l] by (auto simp: vdata_def s'(2) blk)
  ultimately show ?thesis
    using s' by (simp add: shows_view_def fun_eq_iff)
qed

lemma write_inode_run:
  assumes "good D valid s" "ino < inode_count (sb s)" "length (direct nd) = 6"
  shows "\<exists>s'. write_inode D ino nd s = Some (Inr (), s') \<and>
    shows_view D valid (sb s) s' ((inodes D s)(ino := nd)) (used D s) (vdata D s)"
proof -
  let ?l = "inode_lba (sb s) ino"
  note in_dev = lba_in_device(1) [OF assms(1,2)]
  have len: "length (blk D s ?l) = 512" using read_in_blk(2) [OF assms(1) in_dev] .
  let ?buf = "take (unat ino mod 8 * 64) (blk D s ?l) @ inode_bytes nd @ drop (unat ino mod 8 * 64 + 64) (blk D s ?l)"
  have "length ?buf = 512"
    using len off_in_block [of ino] length_inode_bytes [OF assms(3)] by simp
  from dev_write_run [OF assms(1) in_dev lba_nonzero(1) [OF assms(1,2)] this] obtain s' where s': "dev_write D ?l ?buf s = Some (Inr (), s')"
    "good D valid s'" "sb s' = sb s" "blk D s' = (blk D s)(?l := ?buf)" by blast
  have "write_inode D ino nd s = dev_write D ?l ?buf s"
    using assms len off_in_block [of ino] length_inode_bytes [OF assms(3)] dev_read_run [OF assms(1) in_dev]
    unfolding write_inode_def if_not_P [OF assms(2) [folded linorder_not_le]]
    by (simp add: bindE_def inode_off_eq INODE_SIZE_def of_result_def inode_write_to_run not_le)
  then show ?thesis
    using s'(1) view_inode_block [OF assms(1) s'(2,3) assms(2) s'(4) assms(3)] by auto
qed

end
context block_device
begin

lemma bit_off_in_block: "bit_off i < 512"
  by (simp add: bit_off_eq)

lemma bit_get_run:
  assumes "good D valid s" "i < data_blocks (sb s)"
  shows "bit_get D i s = Some (Inr (used D s (data_start (sb s) + i)), s)"
proof -
  note ix = in_data_of_index [OF assms(2) good_sb [OF assms(1)]]
  have "dev_read D (bit_lba (sb s) i) s = Some (Inr (blk D s (bit_lba (sb s) i)), s)"
    "length (blk D s (bit_lba (sb s) i)) = 512"
    using dev_read_run read_in_blk(2) lba_in_device(2) assms by blast+
  then show ?thesis
    using bit_off_in_block [of i] ix
    by (simp add: bit_get_def bindE_def idx_def ret_def used_def Let_def bitmap_bit_test) (simp add: bit_off_eq)
qed

lemma bit_set_run:
  assumes "good D valid s" "i < data_blocks (sb s)"
  shows "\<exists>s'. bit_set D i v s = Some (Inr (), s') \<and>
    shows_view D valid (sb s) s' (inodes D s) ((used D s)(data_start (sb s) + i := v)) (vdata D s)"
proof -
  let ?l = "bit_lba (sb s) i" and ?o = "bit_off i"
  note wf = good_sb [OF assms(1)]
  note ix = in_data_of_index [OF assms(2) wf]
  note in_dev = lba_in_device(2) [OF assms]
  have len: "length (blk D s ?l) = 512" using read_in_blk(2) [OF assms(1) in_dev] .
  let ?byte = "if v then blk D s ?l ! ?o OR bit_mask i else blk D s ?l ! ?o AND NOT (bit_mask i)"
  let ?buf = "(blk D s ?l)[?o := ?byte]"
  have "length ?buf = 512" using len by simp
  from dev_write_run [OF assms(1) in_dev lba_nonzero(2) [OF assms] this] obtain s' where s': "dev_write D ?l ?buf s = Some (Inr (), s')"
    "good D valid s'" "sb s' = sb s" "blk D s' = (blk D s)(?l := ?buf)" by blast
  have run: "bit_set D i v s = Some (Inr (), s')"
    using dev_read_run [OF assms(1) in_dev] s'(1) len bit_off_in_block [of i]
    by (simp add: bit_set_def bindE_def idx_update_def)
  have "used D s' l = ((used D s)(data_start (sb s) + i := v)) l" for l
  proof (cases "in_data (sb s) l")
    case True
    define j where "j = l - data_start (sb s)"
    have j: "j < data_blocks (sb s)" "l = data_start (sb s) + j"
      using in_data_index [OF True wf] by (simp_all add: j_def)
    have u: "used D t l = bit (blk D t (bit_lba (sb s) j) ! bit_off j) (unat j mod 8)" if "sb t = sb s" for t
      using True that by (simp add: used_def Let_def j_def [symmetric] bit_off_eq)
    have inj: "j = i" if "bit_lba (sb s) j = ?l" "bit_off j = ?o" "unat j mod 8 = unat i mod 8"
      using bit_position_inj [of "unat j" "unat i"] that bit_lba_bounds(1) [OF wf j(1)] bit_lba_bounds(1) [OF wf assms(2)]
      by (simp add: bit_off_eq word_unat_eq_iff)
    show ?thesis
    proof (cases "bit_lba (sb s) j = ?l \<and> bit_off j = ?o")
      case same: True
      then have "used D s' l = bit ?byte (unat j mod 8)"
        using len bit_off_in_block [of i] by (simp add: u [OF s'(3)] s'(4))
      moreover have "used D s l = bit (blk D s ?l ! ?o) (unat j mod 8)"
        using same by (simp add: u [OF refl])
      moreover have "l = data_start (sb s) + i \<longleftrightarrow> unat j mod 8 = unat i mod 8"
        using inj same j(2) by auto
      ultimately show ?thesis by (simp add: bit_updated)
    next
      case other: False
      then have "used D s' l = used D s l"
        by (auto simp: u [OF s'(3)] u [OF refl] s'(4))
      moreover have "j \<noteq> i" using other by auto
      ultimately show ?thesis using j(2) by simp
    qed
  next
    case False
    then show ?thesis using ix(1) by (auto simp: used_def s'(3))
  qed
  moreover have "inodes D s' = inodes D s"
    using regions_distinct(1) [OF assms(1) _ assms(2)] by (fastforce simp: inodes_def s'(3,4) fun_eq_iff)
  moreover have "vdata D s' = vdata D s"
    using regions_distinct(3) [OF assms] by (fastforce simp: vdata_def s'(3,4) fun_eq_iff)
  ultimately show ?thesis
    using run s'(2,3) by (simp add: shows_view_def fun_eq_iff)
qed

lemma data_read_run:
  assumes "good D valid s" "in_data (sb s) l"
  shows "dev_read D l s = Some (Inr (vdata D s l), s)" "length (vdata D s l) = 512"
  using dev_read_run [OF assms(1) lba_in_device(3) [OF assms]] read_in_blk(2) [OF assms(1) lba_in_device(3) [OF assms]] assms(2)
  by (simp_all add: vdata_def)

lemma data_write_run:
  assumes "good D valid s" "in_data (sb s) l" "length buf = 512"
  shows "\<exists>s'. dev_write D l buf s = Some (Inr (), s') \<and>
    shows_view D valid (sb s) s' (inodes D s) (used D s) ((vdata D s)(l := buf))"
proof -
  from dev_write_run [OF assms(1) lba_in_device(3) [OF assms(1,2)] lba_nonzero(3) [OF assms(1,2)] assms(3)] obtain s' where s':
    "dev_write D l buf s = Some (Inr (), s')" "good D valid s'" "sb s' = sb s" "blk D s' = (blk D s)(l := buf)" by blast
  have "inodes D s' = inodes D s"
    using regions_distinct(2) [OF assms(1) _ assms(2)] by (fastforce simp: inodes_def s'(3,4) fun_eq_iff)
  moreover have "used D s' k = used D s k" for k
    using regions_distinct(3) [OF assms(1) index_in_range [OF assms(1)] assms(2), of k]
    by (auto simp: used_def Let_def s'(3,4))
  moreover have "vdata D s' = (vdata D s)(l := buf)"
    using assms(2) by (auto simp: vdata_def s'(3,4) fun_eq_iff)
  ultimately show ?thesis
    using s' by (simp add: shows_view_def fun_eq_iff)
qed

end

end
