(* ===== verification/Fs_Data.thy ===== *)
theory Fs_Data
  imports Fs_Volume
begin

text \<open>
  Allocation and file contents: what \<open>alloc_inode\<close>, \<open>alloc_block\<close>, \<open>free_block\<close>,
  \<open>read_inode_data\<close> and \<open>write_inode_data\<close> do to the view of the volume.
\<close>

section \<open>The blocks and the bytes of an inode\<close>

definition blocks :: "inode \<Rightarrow> u64 list" where
  "blocks nd = take (blocks_used nd) (direct nd)"

definition file_bytes :: "(u64 \<Rightarrow> u8 list) \<Rightarrow> inode \<Rightarrow> u8 list" where
  "file_bytes B nd = take (unat (inode_size nd)) (concat (map B (blocks nd)))"

definition chunk :: "u8 list \<Rightarrow> nat \<Rightarrow> u8 list" where
  "chunk d i = take 512 (drop (i * 512) d @ replicate 512 0)"

lemma length_chunk [simp]: "length (chunk d i) = 512"
  by (simp add: chunk_def)

lemma take_chunks: "length d \<le> n * 512 \<Longrightarrow> take (length d) (concat (map (chunk d) [0 ..< n])) = d"
proof (induction n arbitrary: d)
  case (Suc n)
  have split: "concat (map (chunk d) [0 ..< Suc n]) = chunk d 0 @ concat (map (chunk (drop 512 d)) [0 ..< n])"
  proof -
    have "chunk d (Suc i) = chunk (drop 512 d) i" for i by (simp add: chunk_def add.commute)
    then show ?thesis unfolding map_upt_Suc by simp
  qed
  show ?case
  proof (cases "length d \<le> 512")
    case True
    then show ?thesis unfolding split by (simp add: chunk_def)
  next
    case False
    then have "take (length d) (chunk d 0 @ concat (map (chunk (drop 512 d)) [0 ..< n])) =
        take 512 d @ take (length (drop 512 d)) (concat (map (chunk (drop 512 d)) [0 ..< n]))"
      by (simp add: chunk_def)
    then show ?thesis
      using Suc.IH [of "drop 512 d"] Suc.prems unfolding split by simp
  qed
qed simp

lemma div_ceil_block_le: "n \<le> 3072 \<longleftrightarrow> div_ceil n 512 \<le> 6"
  using div_ceil_le_iff [of 512 n 6] by simp

lemma div_ceil_block_bound: "n \<le> div_ceil n 512 * 512"
  using div_ceil_le_iff [of 512 n "div_ceil n 512"] by simp

lemma div_ceil_block_last: "i < div_ceil n 512 \<Longrightarrow> i * 512 < n"
  using div_ceil_le_iff [of 512 n i] by simp

lemma div_ceil_mono: "a \<le> b \<Longrightarrow> div_ceil a 512 \<le> div_ceil b 512"
  using div_ceil_le_iff [of 512 a "div_ceil b 512"] div_ceil_block_bound [of b] by simp

definition free_count :: "'d block_dev \<Rightarrow> 'd fs \<Rightarrow> nat" where
  "free_count D s = card {l. in_data (sb s) l \<and> \<not> used D s l}"

lemma free_count_take:
  assumes "in_data (sb s) l" "\<not> used D s l" "sb s' = sb s" "used D s' = (used D s)(l := True)"
  shows "free_count D s = Suc (free_count D s')"
proof -
  have "{l. in_data (sb s) l \<and> \<not> used D s l} = insert l {l. in_data (sb s') l \<and> \<not> used D s' l}"
    using assms by auto
  moreover have "l \<notin> {l. in_data (sb s') l \<and> \<not> used D s' l}" using assms(4) by simp
  ultimately show ?thesis by (simp add: free_count_def)
qed

section \<open>On a fault-free device\<close>

context block_device
begin

lemma alloc_inode_scan_run:
  assumes "good D valid s" "\<forall>i \<in> set is. i < unat (inode_count (sb s))"
  shows "alloc_inode_scan D is s =
    (case find (\<lambda>i. inode_kind (inodes D s (of_nat i)) = KIND_FREE) is of
       None \<Rightarrow> Some (Inl NoSpace, s)
     | Some i \<Rightarrow> Some (Inr (of_nat i), s))"
  using assms(2)
proof (induction "is")
  case (Cons i "is")
  have "unat (of_nat i :: u32) = i"
    using Cons.prems unsigned_less [of "inode_count (sb s)", where 'a = nat]
    by (simp add: unsigned_of_nat take_bit_nat_eq_self)
  then have "of_nat i < inode_count (sb s)"
    using Cons.prems by (simp add: word_less_nat_alt)
  then show ?case
    using Cons by (simp add: bindE_def read_inode_run [OF assms(1)] ret_def)
qed (simp add: throw_def)

lemma alloc_inode_run:
  assumes "good D valid s"
  shows "(\<exists>ino. alloc_inode D s = Some (Inr ino, s) \<and> ino \<noteq> 0 \<and> ino < inode_count (sb s) \<and>
      inode_kind (inodes D s ino) = KIND_FREE) \<or>
    alloc_inode D s = Some (Inl NoSpace, s) \<and>
      (\<forall>ino. ino \<noteq> 0 \<and> ino < inode_count (sb s) \<longrightarrow> inode_kind (inodes D s ino) \<noteq> KIND_FREE)"
proof (cases "find (\<lambda>i. inode_kind (inodes D s (of_nat i)) = KIND_FREE) [1 ..< unat (inode_count (sb s))]")
  case None
  have "inode_kind (inodes D s ino) \<noteq> KIND_FREE" if "ino \<noteq> 0" "ino < inode_count (sb s)" for ino
  proof -
    have "unat ino \<in> set [1 ..< unat (inode_count (sb s))]"
      using that by (simp add: word_less_nat_alt unat_gt_0 Suc_le_eq)
    then show ?thesis using None unfolding find_None_iff by force
  qed
  then show ?thesis
    using None alloc_inode_scan_run [OF assms, of "[1 ..< unat (inode_count (sb s))]"] by (simp add: alloc_inode_def)
next
  case (Some i)
  then have i: "i \<in> {1 ..< unat (inode_count (sb s))}" "inode_kind (inodes D s (of_nat i)) = KIND_FREE"
    unfolding find_Some_iff by (auto simp: nth_mem)
  then have u: "unat (of_nat i :: u32) = i"
    using unsigned_less [of "inode_count (sb s)", where 'a = nat] by (simp add: unsigned_of_nat take_bit_nat_eq_self)
  have "of_nat i \<noteq> (0 :: u32)" "of_nat i < inode_count (sb s)"
    using u i(1) by (auto simp: word_less_nat_alt)
  then show ?thesis
    using Some i alloc_inode_scan_run [OF assms, of "[1 ..< unat (inode_count (sb s))]"] by (simp add: alloc_inode_def)
qed

lemma alloc_block_scan_run:
  assumes "good D valid s" "\<forall>i \<in> set is. i < unat (data_blocks (sb s))"
  shows "(\<exists>i s'. i \<in> set is \<and> alloc_block_scan D is s = Some (Inr (data_start (sb s) + of_nat i), s') \<and>
      \<not> used D s (data_start (sb s) + of_nat i) \<and> of_nat i < data_blocks (sb s) \<and>
      shows_view D valid (sb s) s' (inodes D s) ((used D s)(data_start (sb s) + of_nat i := True)) (vdata D s)) \<or>
    alloc_block_scan D is s = Some (Inl NoSpace, s) \<and> (\<forall>i \<in> set is. used D s (data_start (sb s) + of_nat i))"
  using assms(2)
proof (induction "is")
  case (Cons i "is")
  have "unat (of_nat i :: u64) = i"
    using Cons.prems unat_u64_less [of "data_blocks (sb s)"] by (simp add: unat_of_nat_u64)
  then have i: "of_nat i < data_blocks (sb s)"
    using Cons.prems by (simp add: word_less_nat_alt)
  show ?case
  proof (cases "used D s (data_start (sb s) + of_nat i)")
    case True
    then have eq: "alloc_block_scan D (i # is) s = alloc_block_scan D is s"
      by (simp add: bindE_def bit_get_run [OF assms(1) i])
    show ?thesis
      using Cons.IH Cons.prems True unfolding eq by (simp del: alloc_block_scan.simps fun_upd_apply) blast
  next
    case False
    obtain s' where s': "bit_set D (of_nat i) True s = Some (Inr (), s')"
      "shows_view D valid (sb s) s' (inodes D s) ((used D s)(data_start (sb s) + of_nat i := True)) (vdata D s)"
      using bit_set_run [OF assms(1) i] by blast
    then have "alloc_block_scan D (i # is) s = Some (Inr (data_start (sb s) + of_nat i), s')"
      using False by (simp add: bindE_def bit_get_run [OF assms(1) i] ret_def shows_view_def)
    then show ?thesis
      using s'(2) False i by (intro disjI1 exI [of _ i] exI [of _ s'] conjI) (assumption | simp)+
  qed
qed (simp add: throw_def)

lemma alloc_block_run:
  assumes "good D valid s"
  shows "(\<exists>l s'. alloc_block D s = Some (Inr l, s') \<and> in_data (sb s) l \<and> \<not> used D s l \<and>
      shows_view D valid (sb s) s' (inodes D s) ((used D s)(l := True)) (vdata D s)) \<or>
    alloc_block D s = Some (Inl NoSpace, s) \<and> (\<forall>l. in_data (sb s) l \<longrightarrow> used D s l)"
proof -
  note wf = good_sb [OF assms]
  have all: "\<forall>l. in_data (sb s) l \<longrightarrow> used D s l"
    if "\<forall>i \<in> set [0 ..< unat (data_blocks (sb s))]. used D s (data_start (sb s) + of_nat i)"
  proof (intro allI impI)
    fix l
    assume l: "in_data (sb s) l"
    have "unat (l - data_start (sb s)) \<in> set [0 ..< unat (data_blocks (sb s))]"
      using in_data_index(1) [OF l wf] by (simp add: word_less_nat_alt)
    then show "used D s l"
      using that in_data_index(3) [OF l wf] by fastforce
  qed
  show ?thesis
    using alloc_block_scan_run [OF assms, of "[0 ..< unat (data_blocks (sb s))]"] all in_data_of_index(1) [OF _ wf]
    by (fastforce simp: alloc_block_def)
qed

lemma free_block_run:
  assumes "good D valid s" "in_data (sb s) l"
  shows "\<exists>s'. free_block D l s = Some (Inr (), s') \<and>
    shows_view D valid (sb s) s' (inodes D s) ((used D s)(l := False)) (vdata D s)"
proof -
  note ix = in_data_index [OF assms(2) good_sb [OF assms(1)]]
  have "(l < data_start (sb s)) = False" using assms(2) by (simp add: in_data_def not_less)
  then have "free_block D l s = bit_set D (l - data_start (sb s)) False s"
    by (simp add: free_block_def)
  then show ?thesis
    using bit_set_run [OF assms(1) ix(1), of False] ix(3) by simp
qed

end
context block_device
begin

lemma read_chunks_run:
  assumes "good D valid s" "\<forall>l \<in> set ls. in_data (sb s) l"
  shows "read_chunks D ls n s = Some (Inr (take n (concat (map (vdata D s) ls))), s)"
  using assms(2)
proof (induction ls arbitrary: n)
  case (Cons l ls)
  note rd = data_read_run [OF assms(1), of l]
  have l: "length (vdata D s l) = 512" using rd(2) Cons.prems by simp
  then have "slice (vdata D s l) 0 (min n BLOCK_SIZE) = Some (take n (vdata D s l))"
    by (simp add: slice_def BLOCK_SIZE_def min_def)
  moreover have "n - min n BLOCK_SIZE = n - 512" by (simp add: BLOCK_SIZE_def min_def)
  ultimately show ?case
    using Cons rd(1) l by (simp add: bindE_def ret_def Let_def)
qed (simp add: ret_def)

lemma read_inode_data_run:
  assumes "good D valid s" "\<forall>l \<in> set (blocks nd). in_data (sb s) l" "unat (inode_size nd) \<le> 3072"
  shows "read_inode_data D nd s = Some (Inr (file_bytes (vdata D s) nd), s)"
  using read_chunks_run [OF assms(1,2)] assms(3)
  by (simp add: read_inode_data_def file_bytes_def blocks_def [symmetric])

text \<open>Growing takes fresh blocks; when they run out, blocks already taken stay marked.\<close>

lemma grow_blocks_run:
  assumes "good D valid s" "a \<le> b" "b \<le> 6" "length (direct nd) = 6"
  shows "(\<exists>ls s'. grow_blocks D [a ..< b] nd s = Some (Inr (nd\<lparr>direct := take a (direct nd) @ ls @ drop b (direct nd)\<rparr>), s') \<and>
      length ls = b - a \<and> distinct ls \<and> (\<forall>l \<in> set ls. in_data (sb s) l \<and> \<not> used D s l) \<and>
      shows_view D valid (sb s) s' (inodes D s) (\<lambda>l. used D s l \<or> l \<in> set ls) (vdata D s)) \<or>
    (\<exists>s' U. free_count D s < b - a \<and> grow_blocks D [a ..< b] nd s = Some (Inl NoSpace, s') \<and> (\<forall>l. used D s l \<longrightarrow> U l) \<and>
      shows_view D valid (sb s) s' (inodes D s) U (vdata D s))"
  using assms
proof (induction "b - a" arbitrary: a s nd)
  case 0
  then have "a = b" by simp
  then show ?case
    using 0 by (intro disjI1 exI [of _ "[]"] exI [of _ s]) (simp add: ret_def shows_view_def)
next
  case (Suc k)
  then have a: "a < b" "a < 6" by auto
  then have upt: "[a ..< b] = a # [Suc a ..< b]" by (simp add: upt_conv_Cons)
  from alloc_block_run [OF Suc.prems(1)] show ?case
  proof (elim disjE exE conjE)
    assume full: "alloc_block D s = Some (Inl NoSpace, s)" "\<forall>l. in_data (sb s) l \<longrightarrow> used D s l"
    then have "{l. in_data (sb s) l \<and> \<not> used D s l} = {}" by blast
    then have "free_count D s = 0" unfolding free_count_def by simp
    then show ?thesis
      using full(1) Suc.prems(1) a by (intro disjI2 exI [of _ s] exI [of _ "used D s"]) (simp add: upt bindE_def shows_view_def)
  next
    fix l s1
    assume l: "alloc_block D s = Some (Inr l, s1)" "in_data (sb s) l" "\<not> used D s l"
      and v: "shows_view D valid (sb s) s1 (inodes D s) ((used D s)(l := True)) (vdata D s)"
    let ?nd = "nd\<lparr>direct := (direct nd)[a := l]\<rparr>"
    have s1: "good D valid s1" "sb s1 = sb s" "inodes D s1 = inodes D s" "vdata D s1 = vdata D s"
      "\<And>x. used D s1 x \<longleftrightarrow> x = l \<or> used D s x"
      using v by (auto simp: shows_view_def)
    have run: "grow_blocks D [a ..< b] nd s = grow_blocks D [Suc a ..< b] ?nd s1"
      using l(1) a Suc.prems(4) by (simp add: upt bindE_def idx_update_def)
    have dir: "direct ?nd = take a (direct nd) @ l # drop (Suc a) (direct nd)"
      using a Suc.prems(4) by (simp add: upd_conv_take_nth_drop)
    have k: "k = b - Suc a" "Suc a \<le> b" "length (direct ?nd) = 6"
      using Suc.hyps(2) Suc.prems(4) a by auto
    from Suc.hyps(1) [OF k(1) s1(1) k(2) Suc.prems(3) k(3)] show ?thesis
    proof (elim disjE exE conjE, goal_cases)
      case (1 ls s')
      have eq: "?nd\<lparr>direct := take (Suc a) (direct ?nd) @ ls @ drop b (direct ?nd)\<rparr> =
          nd\<lparr>direct := take a (direct nd) @ (l # ls) @ drop b (direct nd)\<rparr>"
        using a Suc.prems(4) by (simp add: take_Suc_conv_app_nth)
      have "(\<lambda>x. used D s1 x \<or> x \<in> set ls) = (\<lambda>x. used D s x \<or> x \<in> set (l # ls))"
        using s1(5) by auto
      then show ?case
        using 1 eq run s1 l a by (intro disjI1 exI [of _ "l # ls"] exI [of _ s']) auto
    next
      case (2 s' U)
      then show ?case
        using run s1 a free_count_take [OF l(2,3) s1(2)] v
        by (intro disjI2 exI [of _ s'] exI [of _ U]) (auto simp: shows_view_def)
    qed
  qed
qed

end
context block_device
begin

lemma shrink_blocks_run:
  assumes "good D valid s" "a \<le> b" "b \<le> 6" "length (direct nd) = 6"
    "\<forall>i \<in> {a ..< b}. in_data (sb s) (direct nd ! i)"
  shows "\<exists>s'. shrink_blocks D [a ..< b] nd s =
      Some (Inr (nd\<lparr>direct := take a (direct nd) @ replicate (b - a) 0 @ drop b (direct nd)\<rparr>), s') \<and>
    shows_view D valid (sb s) s' (inodes D s) (\<lambda>l. used D s l \<and> l \<notin> (!) (direct nd) ` {a ..< b}) (vdata D s)"
  using assms
proof (induction "b - a" arbitrary: a s nd)
  case 0
  then have "a = b" by simp
  then show ?case
    using 0 by (intro exI [of _ s]) (simp add: ret_def shows_view_def)
next
  case (Suc k)
  then have a: "a < b" "a < 6" by auto
  then have upt: "[a ..< b] = a # [Suc a ..< b]" by (simp add: upt_conv_Cons)
  have l: "in_data (sb s) (direct nd ! a)" using Suc.prems(5) a by simp
  obtain s1 where s1: "free_block D (direct nd ! a) s = Some (Inr (), s1)"
    "shows_view D valid (sb s) s1 (inodes D s) ((used D s)(direct nd ! a := False)) (vdata D s)"
    using free_block_run [OF Suc.prems(1) l] by blast
  let ?nd = "nd\<lparr>direct := (direct nd)[a := 0]\<rparr>"
  have run: "shrink_blocks D [a ..< b] nd s = shrink_blocks D [Suc a ..< b] ?nd s1"
    using s1(1) a Suc.prems(4) in_data_nonzero [OF good_sb [OF Suc.prems(1)] l] by (simp add: upt bindE_def idx_def)
  have k: "k = b - Suc a" "Suc a \<le> b" "length (direct ?nd) = 6" "good D valid s1"
    "\<forall>i \<in> {Suc a ..< b}. in_data (sb s1) (direct ?nd ! i)"
    using Suc.hyps(2) Suc.prems a s1(2) by (auto simp: shows_view_def)
  have eq: "?nd\<lparr>direct := take (Suc a) (direct ?nd) @ replicate (b - Suc a) 0 @ drop b (direct ?nd)\<rparr> =
      nd\<lparr>direct := take a (direct nd) @ replicate (b - a) 0 @ drop b (direct nd)\<rparr>"
    using a Suc.prems(4) Suc.hyps(2) by (simp add: take_Suc_conv_app_nth k(1) [symmetric] replicate_app_Cons_same Suc.hyps(2) [symmetric])
  have img: "(!) (direct ?nd) ` {Suc a ..< b} = (!) (direct nd) ` {Suc a ..< b}" "{a ..< b} = insert a {Suc a ..< b}"
    using a by auto
  have U: "(\<lambda>l. used D s1 l \<and> l \<notin> (!) (direct ?nd) ` {Suc a ..< b}) =
      (\<lambda>l. used D s l \<and> l \<notin> (!) (direct nd) ` {a ..< b})"
    using s1(2) unfolding img by (auto simp: shows_view_def)
  show ?case
    using Suc.hyps(1) [OF k(1,4,2) Suc.prems(3) k(3,5)] s1(2) unfolding run eq U by (simp add: shows_view_def)
qed

lemma write_chunks_run:
  assumes "good D valid s" "distinct ds" "length ds = n" "n = div_ceil (length d) 512" "k \<le> n"
    "\<forall>l \<in> set ds. in_data (sb s) l"
  shows "\<exists>s'. write_chunks D (ds @ rest) d [k ..< n] s = Some (Inr (), s') \<and>
    shows_view D valid (sb s) s' (inodes D s) (used D s)
      (\<lambda>l. if l \<in> (!) ds ` {k ..< n} then chunk d (THE i. i < n \<and> ds ! i = l) else vdata D s l)"
  using assms
proof (induction "n - k" arbitrary: k s)
  case 0
  then have "k = n" by simp
  then show ?case
    using 0 by (intro exI [of _ s]) (simp add: ret_def shows_view_def)
next
  case (Suc m)
  then have k: "k < n" by simp
  then have upt: "[k ..< n] = k # [Suc k ..< n]" by (simp add: upt_conv_Cons)
  have lk: "k * 512 < length d" using div_ceil_block_last k Suc.prems(4) by simp
  have "slice d (k * BLOCK_SIZE) (min (k * BLOCK_SIZE + BLOCK_SIZE) (length d)) = Some (take 512 (drop (k * 512) d))"
    using lk by (simp add: slice_def BLOCK_SIZE_def min_def)
  moreover have "splice_at 0 (take 512 (drop (k * 512) d)) (replicate BLOCK_SIZE 0) = Some (chunk d k)"
    by (simp add: splice_at_def BLOCK_SIZE_def chunk_def min_def)
  moreover have "idx (ds @ rest) k = Some (ds ! k)"
    using k Suc.prems(3) by (simp add: idx_def nth_append)
  moreover obtain s1 where s1: "dev_write D (ds ! k) (chunk d k) s = Some (Inr (), s1)"
    "shows_view D valid (sb s) s1 (inodes D s) (used D s) ((vdata D s)(ds ! k := chunk d k))"
    using data_write_run [OF Suc.prems(1), of "ds ! k" "chunk d k"] Suc.prems(3,6) k by auto
  ultimately have run: "write_chunks D (ds @ rest) d [k ..< n] s = write_chunks D (ds @ rest) d [Suc k ..< n] s1"
    by (simp add: upt bindE_def Let_def)
  have k': "m = n - Suc k" "Suc k \<le> n" "good D valid s1" "\<forall>l \<in> set ds. in_data (sb s1) l"
    using Suc.hyps(2) k s1(2) Suc.prems(6) by (auto simp: shows_view_def)
  have the: "(THE i. i < n \<and> ds ! i = ds ! k) = k"
    using Suc.prems(2,3) k nth_eq_iff_index_eq [of ds] by (intro the_equality) auto
  have "(\<lambda>l. if l \<in> (!) ds ` {Suc k ..< n} then chunk d (THE i. i < n \<and> ds ! i = l) else vdata D s1 l) =
      (\<lambda>l. if l \<in> (!) ds ` {k ..< n} then chunk d (THE i. i < n \<and> ds ! i = l) else vdata D s l)"
  proof
    fix l
    have "{k ..< n} = insert k {Suc k ..< n}" using k by auto
    then have "l \<in> (!) ds ` {k ..< n} \<longleftrightarrow> l = ds ! k \<or> l \<in> (!) ds ` {Suc k ..< n}" by auto
    then show "(if l \<in> (!) ds ` {Suc k ..< n} then chunk d (THE i. i < n \<and> ds ! i = l) else vdata D s1 l) =
      (if l \<in> (!) ds ` {k ..< n} then chunk d (THE i. i < n \<and> ds ! i = l) else vdata D s l)"
      using s1(2) the by (auto simp: shows_view_def)
  qed
  then show ?case
    using Suc.hyps(1) [OF k'(1,3) Suc.prems(2,3,4) k'(2,4)] s1(2) unfolding run by (simp add: shows_view_def)
qed

end
section \<open>Replacing the contents of an inode\<close>

text \<open>An inode whose blocks are its own: allocated data blocks, each used once.\<close>

definition inode_ok :: "'d block_dev \<Rightarrow> 'd fs \<Rightarrow> inode \<Rightarrow> bool" where
  "inode_ok D s nd \<longleftrightarrow> unat (inode_size nd) \<le> 3072 \<and> length (direct nd) = 6 \<and> distinct (blocks nd) \<and>
     (\<forall>l \<in> set (blocks nd). in_data (sb s) l \<and> used D s l)"

lemma blocks_used_le: "unat (inode_size nd) \<le> 3072 \<Longrightarrow> blocks_used nd \<le> 6"
  using div_ceil_block_le by (simp add: blocks_used_def BLOCK_SIZE_def)

lemma length_blocks: "inode_ok D s nd \<Longrightarrow> length (blocks nd) = blocks_used nd"
  using blocks_used_le by (simp add: inode_ok_def blocks_def)

context block_device
begin

text \<open>
  Growing followed by shrinking: the inode keeps the blocks it still needs and takes fresh ones for
  the rest.
\<close>

lemma resize_run:
  assumes s: "good D valid s" and ok: "inode_ok D s nd" and n: "n \<le> 6"
  shows "(\<exists>nd' s'. bindE (grow_blocks D [blocks_used nd ..< n] nd) (shrink_blocks D [n ..< blocks_used nd]) s = Some (Inr nd', s') \<and>
      inode_kind nd' = inode_kind nd \<and> length (direct nd') = 6 \<and> distinct (take n (direct nd')) \<and>
      (\<forall>l \<in> set (take n (direct nd')). in_data (sb s) l \<and> (l \<in> set (blocks nd) \<or> \<not> used D s l)) \<and>
      (n \<le> blocks_used nd \<longrightarrow> set (take n (direct nd')) \<subseteq> set (blocks nd)) \<and>
      card {l \<in> set (take n (direct nd')). \<not> used D s l} \<le> n - blocks_used nd \<and>
      shows_view D valid (sb s) s' (inodes D s)
        (\<lambda>l. used D s l \<and> l \<notin> set (blocks nd) \<or> l \<in> set (take n (direct nd'))) (vdata D s)) \<or>
    (\<exists>s' U. free_count D s < n - blocks_used nd \<and> bindE (grow_blocks D [blocks_used nd ..< n] nd) (shrink_blocks D [n ..< blocks_used nd]) s = Some (Inl NoSpace, s') \<and>
      (\<forall>l. used D s l \<longrightarrow> U l) \<and> shows_view D valid (sb s) s' (inodes D s) U (vdata D s))"
proof (cases "blocks_used nd \<le> n")
  case True
  have len: "length (direct nd) = 6" using ok by (simp add: inode_ok_def)
  from grow_blocks_run [OF s True n len] show ?thesis
  proof (elim disjE exE conjE, goal_cases)
    case (1 ls s')
    let ?nd = "nd\<lparr>direct := take (blocks_used nd) (direct nd) @ ls @ drop n (direct nd)\<rparr>"
    have tk: "take n (direct ?nd) = blocks nd @ ls"
      using 1(2) True n len by (simp add: blocks_def)
    have "used D s l \<or> l \<in> set ls \<longleftrightarrow> used D s l \<and> l \<notin> set (blocks nd) \<or> l \<in> set (blocks nd @ ls)" for l
      using ok by (auto simp: inode_ok_def)
    then have "shows_view D valid (sb s) s' (inodes D s)
        (\<lambda>l. used D s l \<and> l \<notin> set (blocks nd) \<or> l \<in> set (take n (direct ?nd))) (vdata D s)"
      using 1(5) unfolding tk by simp
    moreover have "distinct (take n (direct ?nd))"
      using 1 ok unfolding tk by (auto simp: inode_ok_def)
    moreover have "\<forall>l \<in> set (take n (direct ?nd)). in_data (sb s) l \<and> (l \<in> set (blocks nd) \<or> \<not> used D s l)"
      using 1 ok unfolding tk by (auto simp: inode_ok_def)
    moreover have "length (direct ?nd) = 6" using 1(2) True n len by simp
    moreover have "n \<le> blocks_used nd \<longrightarrow> set (take n (direct ?nd)) \<subseteq> set (blocks nd)"
      using 1(2) True unfolding tk by auto
    moreover have "{l \<in> set (take n (direct ?nd)). \<not> used D s l} = set ls"
      using 1(4) ok unfolding tk by (auto simp: inode_ok_def)
    then have "card {l \<in> set (take n (direct ?nd)). \<not> used D s l} \<le> n - blocks_used nd"
      using card_length [of ls] 1(2) by simp
    ultimately show ?case
      using 1(1) True by (intro disjI1 exI [of _ ?nd] exI [of _ s']) (simp add: bindE_def ret_def)
  next
    case (2 s' U)
    then show ?case
      by (intro disjI2 exI [of _ s'] exI [of _ U]) (simp add: bindE_def)
  qed
next
  case False
  then have le: "n \<le> blocks_used nd" "blocks_used nd \<le> 6"
    using ok blocks_used_le by (auto simp: inode_ok_def)
  have len: "length (direct nd) = 6" using ok by (simp add: inode_ok_def)
  have bl: "length (blocks nd) = blocks_used nd" by (rule length_blocks [OF ok])
  have nth: "direct nd ! i = blocks nd ! i" if "i < blocks_used nd" for i
    using that by (simp add: blocks_def)
  have "\<forall>i \<in> {n ..< blocks_used nd}. in_data (sb s) (direct nd ! i)"
    using ok nth bl by (auto simp: inode_ok_def)
  from shrink_blocks_run [OF s le len this] obtain s' where s':
    "shrink_blocks D [n ..< blocks_used nd] nd s =
      Some (Inr (nd\<lparr>direct := take n (direct nd) @ replicate (blocks_used nd - n) 0 @ drop (blocks_used nd) (direct nd)\<rparr>), s')"
    "shows_view D valid (sb s) s' (inodes D s) (\<lambda>l. used D s l \<and> l \<notin> (!) (direct nd) ` {n ..< blocks_used nd}) (vdata D s)"
    by blast
  let ?nd = "nd\<lparr>direct := take n (direct nd) @ replicate (blocks_used nd - n) 0 @ drop (blocks_used nd) (direct nd)\<rparr>"
  have tk: "take n (direct ?nd) = take n (blocks nd)"
    using le len by (simp add: blocks_def min_def)
  have img: "(!) (direct nd) ` {n ..< blocks_used nd} = set (drop n (blocks nd))"
  proof -
    have "drop n (blocks nd) = map ((!) (blocks nd)) [n ..< length (blocks nd)]"
      by (metis add_0 drop_map drop_upt map_nth)
    then have "set (drop n (blocks nd)) = (!) (blocks nd) ` {n ..< blocks_used nd}"
      unfolding bl by (metis atLeastLessThan_upt list.set_map)
    then show ?thesis using nth by auto
  qed
  have parts: "set (blocks nd) = set (take n (blocks nd)) \<union> set (drop n (blocks nd))"
    "set (take n (blocks nd)) \<inter> set (drop n (blocks nd)) = {}"
    using ok set_take_disj_set_drop_if_distinct [of "blocks nd" n n] by (simp_all add: inode_ok_def set_append [symmetric] del: set_append)
  have "(\<lambda>l. used D s l \<and> l \<notin> (!) (direct nd) ` {n ..< blocks_used nd}) =
      (\<lambda>l. used D s l \<and> l \<notin> set (blocks nd) \<or> l \<in> set (take n (direct ?nd)))"
    using parts ok unfolding tk img by (auto simp: inode_ok_def)
  moreover have "distinct (take n (direct ?nd))"
    "\<forall>l \<in> set (take n (direct ?nd)). in_data (sb s) l \<and> (l \<in> set (blocks nd) \<or> \<not> used D s l)"
    "set (take n (direct ?nd)) \<subseteq> set (blocks nd)"
    using ok parts unfolding tk by (auto simp: inode_ok_def)
  moreover have "length (direct ?nd) = 6" using le len by simp
  moreover have "{l \<in> set (take n (direct ?nd)). \<not> used D s l} = {}"
    using ok parts unfolding tk by (auto simp: inode_ok_def)
  then have "card {l \<in> set (take n (direct ?nd)). \<not> used D s l} \<le> n - blocks_used nd"
    by (simp only: card.empty zero_le)
  ultimately show ?thesis
    using s' False by (intro disjI1 exI [of _ ?nd] exI [of _ s']) (simp add: bindE_def ret_def)
qed

end
text \<open>
  What a successful \<open>write_inode_data\<close> leaves: the inode holds exactly the given bytes, in its old
  blocks or in blocks that were free, and nothing else changed.
\<close>

definition rewritten ::
    "'d block_dev \<Rightarrow> ('d \<Rightarrow> bool) \<Rightarrow> 'd fs \<Rightarrow> u32 \<Rightarrow> inode \<Rightarrow> u8 list \<Rightarrow> 'd fs \<Rightarrow> bool" where
  "rewritten D valid s ino nd d s' \<longleftrightarrow> (\<exists>nd' B.
     shows_view D valid (sb s) s' ((inodes D s)(ino := nd'))
       (\<lambda>l. used D s l \<and> l \<notin> set (blocks nd) \<or> l \<in> set (blocks nd')) B \<and>
     inode_ok D s' nd' \<and> inode_kind nd' = inode_kind nd \<and> file_bytes B nd' = d \<and>
     (\<forall>l \<in> set (blocks nd'). l \<in> set (blocks nd) \<or> \<not> used D s l) \<and>
     (length d \<le> unat (inode_size nd) \<longrightarrow> set (blocks nd') \<subseteq> set (blocks nd)) \<and>
     card {l \<in> set (blocks nd'). \<not> used D s l} \<le> div_ceil (length d) 512 - blocks_used nd \<and>
     (\<forall>l. l \<notin> set (blocks nd') \<longrightarrow> B l = vdata D s l))"

text \<open>What a failed one leaves: the same inodes and contents, possibly with free blocks lost.\<close>

definition blocks_lost :: "'d block_dev \<Rightarrow> ('d \<Rightarrow> bool) \<Rightarrow> 'd fs \<Rightarrow> 'd fs \<Rightarrow> bool" where
  "blocks_lost D valid s s' \<longleftrightarrow> (\<exists>U. shows_view D valid (sb s) s' (inodes D s) U (vdata D s) \<and> (\<forall>l. used D s l \<longrightarrow> U l))"

lemma concat_chunks:
  assumes "distinct ds" "length ds = n"
  shows "map (\<lambda>l. if l \<in> (!) ds ` {0 ..< n} then chunk d (THE i. i < n \<and> ds ! i = l) else B l) ds = map (chunk d) [0 ..< n]"
proof (rule nth_equalityI)
  fix i
  assume "i < length (map (\<lambda>l. if l \<in> (!) ds ` {0 ..< n} then chunk d (THE i. i < n \<and> ds ! i = l) else B l) ds)"
  then have i: "i < n" using assms(2) by simp
  have "(THE j. j < n \<and> ds ! j = ds ! i) = i"
    using assms i nth_eq_iff_index_eq [of ds] by (intro the_equality) auto
  then show "map (\<lambda>l. if l \<in> (!) ds ` {0 ..< n} then chunk d (THE i. i < n \<and> ds ! i = l) else B l) ds ! i = map (chunk d) [0 ..< n] ! i"
    using i assms(2) by simp
qed (simp add: assms)

context block_device
begin

lemma write_inode_data_run:
  assumes s: "good D valid s" and ok: "inode_ok D s nd" and ino: "ino < inode_count (sb s)" and d: "length d \<le> 3072"
  shows "(\<exists>s'. write_inode_data D ino nd d s = Some (Inr (), s') \<and> rewritten D valid s ino nd d s') \<or>
    (\<exists>s'. free_count D s < div_ceil (length d) 512 - blocks_used nd \<and> write_inode_data D ino nd d s = Some (Inl NoSpace, s') \<and>
      blocks_lost D valid s s')"
proof -
  define n where "n = div_ceil (length d) 512"
  have n: "n \<le> 6" using d div_ceil_block_le by (simp add: n_def)
  have assoc: "write_inode_data D ino nd d s =
      bindE (bindE (grow_blocks D [blocks_used nd ..< n] nd) (shrink_blocks D [n ..< blocks_used nd]))
        (\<lambda>nd. bindE (write_chunks D (direct nd) d [0 ..< n]) (\<lambda>_. write_inode D ino (nd\<lparr>inode_size := of_nat (length d)\<rparr>))) s"
    using d by (simp add: write_inode_data_def MAX_FILE_SIZE_def DIRECT_BLOCKS_def BLOCK_SIZE_def n_def Let_def bindE_def
        split: option.split sum.split)
  from resize_run [OF s ok n] show ?thesis
  proof (elim disjE exE conjE, goal_cases)
    case (1 nd1 s1)
    let ?bl = "take n (direct nd1)"
    have s1: "good D valid s1" "sb s1 = sb s" "inodes D s1 = inodes D s" "vdata D s1 = vdata D s"
      "used D s1 = (\<lambda>l. used D s l \<and> l \<notin> set (blocks nd) \<or> l \<in> set ?bl)"
      using 1(8) by (simp_all add: shows_view_def)
    have bl: "length ?bl = n" using 1(3) n by simp
    let ?B = "\<lambda>l. if l \<in> (!) ?bl ` {0 ..< n} then chunk d (THE i. i < n \<and> ?bl ! i = l) else vdata D s1 l"
    have "\<forall>l \<in> set ?bl. in_data (sb s1) l" using 1(5) s1(2) by simp
    from write_chunks_run [OF s1(1) 1(4) bl n_def _ this, of 0 "drop n (direct nd1)"] obtain s2 where s2:
      "write_chunks D (direct nd1) d [0 ..< n] s1 = Some (Inr (), s2)"
      "shows_view D valid (sb s1) s2 (inodes D s1) (used D s1) ?B" by auto
    let ?nd = "nd1\<lparr>inode_size := of_nat (length d)\<rparr>"
    have g2: "good D valid s2" "ino < inode_count (sb s2)" "length (direct ?nd) = 6"
      using s2(2) s1(2) ino 1(3) by (simp_all add: shows_view_def)
    obtain s3 where s3: "write_inode D ino ?nd s2 = Some (Inr (), s3)"
      "shows_view D valid (sb s2) s3 ((inodes D s2)(ino := ?nd)) (used D s2) (vdata D s2)"
      using write_inode_run [OF g2] by blast
    have size: "unat (inode_size ?nd) = length d" using d by (simp add: unat_of_nat_u64)
    then have blk': "blocks ?nd = ?bl" by (simp add: blocks_def blocks_used_def n_def BLOCK_SIZE_def)
    have "length d \<le> n * 512" using div_ceil_block_bound by (simp add: n_def)
    then have "file_bytes ?B ?nd = d"
      unfolding file_bytes_def size blk' concat_chunks [OF 1(4) bl] by (rule take_chunks)
    moreover have view: "shows_view D valid (sb s) s3 ((inodes D s)(ino := ?nd)) (used D s1) ?B"
      using s3(2) s2(2) s1 by (simp add: shows_view_def)
    moreover have "(!) ?bl ` {0 ..< n} = set ?bl"
      using bl by (metis atLeastLessThan_upt list.set_map map_nth)
    moreover have "inode_ok D s3 ?nd"
      unfolding inode_ok_def blk' size using 1(3,4,5) d view s1(5) by (auto simp: shows_view_def)
    moreover have "length d \<le> unat (inode_size nd) \<longrightarrow> set ?bl \<subseteq> set (blocks nd)"
      using 1(6) div_ceil_mono [of "length d" "unat (inode_size nd)"] by (simp add: n_def blocks_used_def BLOCK_SIZE_def)
    ultimately have "rewritten D valid s ino nd d s3"
      unfolding rewritten_def using 1(2,5,7) s1(4,5) by (intro exI [of _ ?nd] exI [of _ ?B]) (simp add: blk' n_def)
    then show ?case
      using 1(1) s2(1) s3(1) by (intro disjI1 exI [of _ s3]) (simp add: assoc bindE_def)
  next
    case (2 s' U)
    then show ?case
      unfolding blocks_lost_def by (intro disjI2 exI [of _ s']) (auto simp: assoc bindE_def n_def)
  qed
qed

lemma rewritten_free:
  assumes "rewritten D valid s ino nd d s'"
  shows "free_count D s \<le> free_count D s' + (div_ceil (length d) 512 - blocks_used nd)"
proof -
  obtain nd' where v: "sb s' = sb s" "used D s' = (\<lambda>l. used D s l \<and> l \<notin> set (blocks nd) \<or> l \<in> set (blocks nd'))"
    and c: "card {l \<in> set (blocks nd'). \<not> used D s l} \<le> div_ceil (length d) 512 - blocks_used nd"
    using assms by (auto simp: rewritten_def shows_view_def)
  have "{l. in_data (sb s) l \<and> \<not> used D s l} \<subseteq>
      {l. in_data (sb s') l \<and> \<not> used D s' l} \<union> {l \<in> set (blocks nd'). \<not> used D s l}"
    using v by auto
  then have "free_count D s \<le> card ({l. in_data (sb s') l \<and> \<not> used D s' l} \<union> {l \<in> set (blocks nd'). \<not> used D s l})"
    unfolding free_count_def by (rule card_mono [rotated]) simp
  also have "\<dots> \<le> free_count D s' + card {l \<in> set (blocks nd'). \<not> used D s l}"
    unfolding free_count_def by (rule card_Un_le)
  finally show ?thesis using c by linarith
qed

lemma write_inode_data_too_large:
  "3072 < length d \<Longrightarrow> write_inode_data D ino nd d s = Some (Inl FsTooLarge, s)"
  by (simp add: write_inode_data_def MAX_FILE_SIZE_def DIRECT_BLOCKS_def BLOCK_SIZE_def throw_def)

end

end
