(* ===== verification/Fs_Tree.thy ===== *)
theory Fs_Tree
  imports Fs_Data
begin

unbundle bit_operations_syntax

text \<open>
  Directories as lists of links, paths as walks along them, and the invariant of a well-formed
  volume: blocks belong to one inode, links lead to live inodes, and every inode has at most one
  link. The pure functions \<open>dir_find\<close>, \<open>tree_walk\<close> and \<open>content\<close> say what a volume means; the
  operations are shown to compute and update exactly that.
\<close>

section \<open>Directory contents\<close>

type_synonym link = "u32 \<times> u8 list"

definition slot_ino :: "u8 list \<Rightarrow> u32" where
  "slot_ino e = from_le (take 4 e)"

definition slot_len :: "u8 list \<Rightarrow> nat" where
  "slot_len e = unat (e ! 4)"

function links_of :: "u8 list \<Rightarrow> link list" where
  "links_of d =
     (if length d < 32 then []
      else
        (if slot_ino d \<noteq> 0 \<and> slot_len d \<le> 23 then [(slot_ino d, take (slot_len d) (drop 5 d))] else []) @
        links_of (drop 32 d))"
  by pat_completeness auto
termination
  by (relation "measure length") auto

declare links_of.simps [simp del]

definition slot_bytes :: "link \<Rightarrow> u8 list" where
  "slot_bytes ln = (case ln of (i, n) \<Rightarrow> to_le 4 i @ [of_nat (length n)] @ n @ replicate (23 - length n) 0 @ replicate 4 0)"

lemma length_slot_bytes: "length n \<le> 23 \<Longrightarrow> length (slot_bytes (i, n)) = 32"
  by (simp add: slot_bytes_def)

lemma links_of_Nil [simp]: "links_of [] = []"
  by (subst links_of.simps) simp

lemma links_of_slot:
  assumes "i \<noteq> 0" "length n \<le> 23"
  shows "links_of (slot_bytes (i, n) @ d) = (i, n) # links_of d"
proof -
  let ?e = "slot_bytes (i, n)"
  have len: "length ?e = 32" by (rule length_slot_bytes [OF assms(2)])
  have "slot_ino (?e @ d) = i"
    by (simp add: slot_ino_def slot_bytes_def from_le_to_le)
  moreover have "slot_len (?e @ d) = length n"
    using assms(2) by (simp add: slot_len_def slot_bytes_def nth_append unsigned_of_nat take_bit_nat_eq_self)
  moreover have "take (length n) (drop 5 (?e @ d)) = n"
    by (simp add: slot_bytes_def)
  moreover have "drop 32 (?e @ d) = d" using len by simp
  ultimately show ?thesis
    using assms len by (subst links_of.simps) simp
qed

lemma links_of_encoded:
  "\<forall>(i, n) \<in> set es. i \<noteq> 0 \<and> length n \<le> 23 \<Longrightarrow> links_of (concat (map slot_bytes es)) = es"
proof (induction es)
  case (Cons e es)
  then show ?case by (cases e) (simp add: links_of_slot)
qed simp

lemma links_of_names: "(i, n) \<in> set (links_of d) \<Longrightarrow> i \<noteq> 0 \<and> length n \<le> 23"
proof (induction d rule: links_of.induct)
  case (1 d)
  then show ?case
    by (subst (asm) (2) links_of.simps) (auto split: if_splits)
qed

lemma length_links_of: "32 * length (links_of d) \<le> length d"
proof (induction d rule: links_of.induct)
  case (1 d)
  then show ?case
    by (subst links_of.simps) auto
qed

lemma encode_slot_run:
  assumes "length n \<le> 23"
  shows "encode_slot i n = Some (Inr (slot_bytes (i, n)))"
proof -
  let ?nb = "n @ replicate (23 - length n) 0"
  let ?fs = "[FU32 i, FU8 (of_nat (length n)), FBytes ?nb, FU16 0, FU8 0]"
  have one: "bindE m ret = (m :: writer_action)" for m
    by (auto simp: fun_eq_iff bindE_def ret_def split: option.split sum.split)
  have bytes: "concat (map field_bytes ?fs) = to_le 4 i @ [of_nat (length n)] @ ?nb @ [0, 0, 0]"
    by (simp add: to_le_def upt_rec)
  have "bindE (put_u32 i) (\<lambda>_. bindE (put_u8 (of_nat (length n))) (\<lambda>_. bindE (put_bytes ?nb) (\<lambda>_. bindE (put_u16 0) (\<lambda>_. put_u8 0)))) = put_fields ?fs"
    by (simp add: one)
  moreover have "concat (map field_bytes ?fs) @ drop (length (concat (map field_bytes ?fs))) (replicate 32 0) = slot_bytes (i, n)"
    unfolding bytes using assms by (simp add: slot_bytes_def numeral_eq_Suc)
  moreover have "splice_at 0 n (replicate NAME_MAX 0) = Some ?nb"
    using assms by (simp add: splice_at_def NAME_MAX_def)
  ultimately show ?thesis
    using put_fields_whole [of ?fs "replicate 32 0"] assms
    by (simp add: encode_slot_def as_corrupt_def DIR_ENTRY_SIZE_def del: put_fields.simps)
qed

lemma encode_dir_run:
  "\<forall>(i, n) \<in> set es. length n \<le> 23 \<Longrightarrow> encode_dir es = Some (Inr (concat (map slot_bytes es)))"
proof (induction es)
  case (Cons e es)
  then show ?case by (cases e) (simp add: encode_slot_run)
qed simp

lemma length_encoded: "\<forall>(i, n) \<in> set es. length n \<le> 23 \<Longrightarrow> length (concat (map slot_bytes es)) = 32 * length es"
proof (induction es)
  case (Cons e es)
  then show ?case by (cases e) (simp add: length_slot_bytes)
qed simp

lemma decode_slot_run:
  assumes "32 \<le> length d"
  shows "decode_slot (take DIR_ENTRY_SIZE d) = Some (Inr (slot_ino d, slot_len d, take 23 (drop 5 d)))"
  using assms
  by (simp add: decode_slot_def as_corrupt_def bindE_def ret_def reader_new_def DIR_ENTRY_SIZE_def NAME_MAX_def
      get_u32_run get_u8_run get_slice_run reader_wf_def reader_remaining_def slot_ino_def slot_len_def take_take drop_take)
section \<open>The meaning of a volume\<close>

text \<open>
  \<open>K\<close> gives the kind of an inode, \<open>E\<close> the links of a directory and \<open>F\<close> the bytes of an inode.
\<close>

definition kinds :: "'d block_dev \<Rightarrow> 'd fs \<Rightarrow> u32 \<Rightarrow> u32" where
  "kinds D s ino = inode_kind (inodes D s ino)"

definition bytes_of :: "'d block_dev \<Rightarrow> 'd fs \<Rightarrow> u32 \<Rightarrow> u8 list" where
  "bytes_of D s ino = file_bytes (vdata D s) (inodes D s ino)"

definition entries :: "'d block_dev \<Rightarrow> 'd fs \<Rightarrow> u32 \<Rightarrow> link list" where
  "entries D s ino = links_of (bytes_of D s ino)"

definition dir_find :: "(u32 \<Rightarrow> u32) \<Rightarrow> (u32 \<Rightarrow> link list) \<Rightarrow> u32 \<Rightarrow> u8 list \<Rightarrow> fs_error + u32" where
  "dir_find K E ino name =
     (if K ino \<noteq> KIND_DIR then Inl WrongKind
      else case find (\<lambda>(_, n). n = name) (E ino) of None \<Rightarrow> Inl FsNotFound | Some (i, _) \<Rightarrow> Inr i)"

fun tree_walk :: "(u32 \<Rightarrow> u32) \<Rightarrow> (u32 \<Rightarrow> link list) \<Rightarrow> u32 \<Rightarrow> u8 list list \<Rightarrow> fs_error + u32" where
  "tree_walk K E ino [] = Inr ino"
| "tree_walk K E ino (c # cs) = (case dir_find K E ino c of Inl e \<Rightarrow> Inl e | Inr i \<Rightarrow> tree_walk K E i cs)"

definition content ::
    "(u32 \<Rightarrow> u32) \<Rightarrow> (u32 \<Rightarrow> link list) \<Rightarrow> (u32 \<Rightarrow> u8 list) \<Rightarrow> u8 list list \<Rightarrow> fs_error + u8 list" where
  "content K E F cs =
     (case tree_walk K E ROOT_INODE cs of
        Inl e \<Rightarrow> Inl e
      | Inr ino \<Rightarrow> if K ino = KIND_FILE then Inr (F ino) else Inl WrongKind)"

definition tree_wf :: "u32 \<Rightarrow> (u32 \<Rightarrow> u32) \<Rightarrow> (u32 \<Rightarrow> link list) \<Rightarrow> bool" where
  "tree_wf count K E \<longleftrightarrow> K ROOT_INODE = KIND_DIR \<and>
     (\<forall>d < count. K d = KIND_DIR \<longrightarrow> distinct (map snd (E d)) \<and> (\<forall>(i, n) \<in> set (E d). i \<noteq> ROOT_INODE \<and> i < count \<and> K i \<noteq> KIND_FREE)) \<and>
     (\<forall>d < count. \<forall>d' < count. \<forall>i n n'. K d = KIND_DIR \<longrightarrow> K d' = KIND_DIR \<longrightarrow>
        (i, n) \<in> set (E d) \<longrightarrow> (i, n') \<in> set (E d') \<longrightarrow> d = d' \<and> n = n')"

definition alloc_wf :: "'d block_dev \<Rightarrow> 'd fs \<Rightarrow> bool" where
  "alloc_wf D s \<longleftrightarrow>
     (\<forall>ino < inode_count (sb s). kinds D s ino \<noteq> KIND_FREE \<longrightarrow> inode_ok D s (inodes D s ino)) \<and>
     (\<forall>i < inode_count (sb s). \<forall>j < inode_count (sb s). i \<noteq> j \<longrightarrow> kinds D s i \<noteq> KIND_FREE \<longrightarrow> kinds D s j \<noteq> KIND_FREE \<longrightarrow>
        set (blocks (inodes D s i)) \<inter> set (blocks (inodes D s j)) = {})"

definition fs_wf :: "'d block_dev \<Rightarrow> ('d \<Rightarrow> bool) \<Rightarrow> 'd fs \<Rightarrow> bool" where
  "fs_wf D valid s \<longleftrightarrow> good D valid s \<and> alloc_wf D s \<and> tree_wf (inode_count (sb s)) (kinds D s) (entries D s)"

definition links_live :: "'d block_dev \<Rightarrow> 'd fs \<Rightarrow> u32 \<Rightarrow> bool" where
  "links_live D s dir \<longleftrightarrow> (\<forall>(i, n) \<in> set (entries D s dir). i < inode_count (sb s))"

lemma kinds_distinct [simp]:
  "KIND_DIR \<noteq> KIND_FREE" "KIND_FILE \<noteq> KIND_FREE" "KIND_DIR \<noteq> KIND_FILE"
  "KIND_FREE \<noteq> KIND_DIR" "KIND_FREE \<noteq> KIND_FILE" "KIND_FILE \<noteq> KIND_DIR"
  by (simp_all add: KIND_DIR_def KIND_FREE_def KIND_FILE_def)

context block_device
begin

lemma parse_entries_run:
  assumes "good D valid s" "\<forall>(i, n) \<in> set (links_of d). i < inode_count (sb s)"
  shows "parse_entries D d s = Some (Inr (map (\<lambda>(i, n). (i, kinds D s i = KIND_DIR, n)) (links_of d)), s)"
  using assms(2)
proof (induction d rule: links_of.induct)
  case (1 d)
  show ?case
  proof (cases "length d < 32")
    case True
    then show ?thesis
      by (subst parse_entries.simps, subst links_of.simps) (simp add: DIR_ENTRY_SIZE_def ret_def)
  next
    case False
    then have len: "32 \<le> length d" by simp
    let ?rest = "drop 32 d"
    have sub: "set (links_of ?rest) \<subseteq> set (links_of d)"
      using len by (subst (2) links_of.simps) auto
    then have ih: "parse_entries D ?rest s = Some (Inr (map (\<lambda>(i, n). (i, kinds D s i = KIND_DIR, n)) (links_of ?rest)), s)"
      using 1 False by blast
    show ?thesis
    proof (cases "slot_ino d \<noteq> 0 \<and> slot_len d \<le> 23")
      case True
      have eq: "links_of d = (slot_ino d, take (slot_len d) (drop 5 d)) # links_of ?rest"
        using len True by (subst links_of.simps) simp
      then have "slot_ino d < inode_count (sb s)" using 1(2) by auto
      moreover have "slice (take 23 (drop 5 d)) 0 (slot_len d) = Some (take (slot_len d) (drop 5 d))"
      proof -
        have "length (take 23 (drop 5 d)) = 23" using len by simp
        then show ?thesis using True by (simp add: slice_def min.absorb1)
      qed
      ultimately show ?thesis
        using True len ih decode_slot_run [OF len] unfolding eq
        by (subst parse_entries.simps)
          (simp add: DIR_ENTRY_SIZE_def NAME_MAX_def bindE_def of_result_def read_inode_run [OF assms(1)] ret_def kinds_def)
    next
      case slot: False
      have eq: "links_of d = links_of ?rest"
        using len slot by (subst links_of.simps) auto
      show ?thesis
        using slot len ih decode_slot_run [OF len] unfolding eq
        by (subst parse_entries.simps) (auto simp: DIR_ENTRY_SIZE_def NAME_MAX_def bindE_def of_result_def)
    qed
  qed
qed

lemma read_dir_entries_run:
  assumes "good D valid s" "dir < inode_count (sb s)" "inode_ok D s (inodes D s dir)" "kinds D s dir = KIND_DIR" "links_live D s dir"
  shows "read_dir_entries D dir s = Some (Inr (map (\<lambda>(i, n). (i, kinds D s i = KIND_DIR, n)) (entries D s dir)), s)"
  using assms parse_entries_run [OF assms(1), of "bytes_of D s dir"] read_inode_data_run [OF assms(1), of "inodes D s dir"]
  by (simp add: read_dir_entries_def bindE_def read_inode_run kinds_def inode_ok_def links_live_def entries_def bytes_of_def)

lemma read_dir_entries_wrong:
  assumes "good D valid s" "dir < inode_count (sb s)" "kinds D s dir \<noteq> KIND_DIR"
  shows "read_dir_entries D dir s = Some (Inl WrongKind, s)"
  using assms by (simp add: read_dir_entries_def bindE_def read_inode_run kinds_def throw_def)

lemma wf_parts:
  assumes "fs_wf D valid s"
  shows "good D valid s"
    and "\<And>ino. ino < inode_count (sb s) \<Longrightarrow> kinds D s ino \<noteq> KIND_FREE \<Longrightarrow> inode_ok D s (inodes D s ino)"
    and "\<And>dir. dir < inode_count (sb s) \<Longrightarrow> kinds D s dir = KIND_DIR \<Longrightarrow> links_live D s dir"
    and "ROOT_INODE < inode_count (sb s)" "kinds D s ROOT_INODE = KIND_DIR"
  using assms good_sb [of s]
  by (auto simp: fs_wf_def alloc_wf_def tree_wf_def links_live_def sb_wf_def ROOT_INODE_def)

lemma dir_lookup_run:
  assumes "fs_wf D valid s" "dir < inode_count (sb s)"
  shows "dir_lookup D dir name s = Some (dir_find (kinds D s) (entries D s) dir name, s)"
proof (cases "kinds D s dir = KIND_DIR")
  case True
  note wf = wf_parts [OF assms(1)]
  have find: "find (\<lambda>(_, _, n). n = name) (map (\<lambda>(i, n). (i, kinds D s i = KIND_DIR, n)) es) =
      map_option (\<lambda>(i, n). (i, kinds D s i = KIND_DIR, n)) (find (\<lambda>(_, n). n = name) es)" for es :: "link list"
    by (induction es) auto
  show ?thesis
    using True read_dir_entries_run [OF wf(1) assms(2) wf(2) True wf(3)] assms(2)
    by (auto simp: dir_lookup_def bindE_def dir_find_def find ret_def throw_def split: option.split)
next
  case False
  then show ?thesis
    using read_dir_entries_wrong [OF wf_parts(1) [OF assms(1)] assms(2)] by (simp add: dir_lookup_def bindE_def dir_find_def)
qed

lemma lookup_in_table:
  assumes "fs_wf D valid s" "dir < inode_count (sb s)" "dir_find (kinds D s) (entries D s) dir name = Inr i"
  shows "i < inode_count (sb s)" "kinds D s i \<noteq> KIND_FREE" "i \<noteq> ROOT_INODE" "(i, name) \<in> set (entries D s dir)" "kinds D s dir = KIND_DIR"
proof -
  have "kinds D s dir = KIND_DIR" "find (\<lambda>(_, n). n = name) (entries D s dir) = Some (i, name)"
    using assms(3) by (auto simp: dir_find_def find_Some_iff split: if_splits option.splits)
  then show k: "kinds D s dir = KIND_DIR" and m: "(i, name) \<in> set (entries D s dir)"
    by (auto simp: find_Some_iff) (metis nth_mem)
  show "i < inode_count (sb s)" "kinds D s i \<noteq> KIND_FREE" "i \<noteq> ROOT_INODE"
    using assms(1,2) k m by (auto simp: fs_wf_def tree_wf_def)
qed

lemma resolve_from_run:
  assumes "fs_wf D valid s" "ino < inode_count (sb s)"
  shows "resolve_from D ino cs s = Some (tree_walk (kinds D s) (entries D s) ino cs, s)"
  using assms(2)
proof (induction cs arbitrary: ino)
  case (Cons c cs)
  then show ?case
    using lookup_in_table(1) [OF assms(1)] by (auto simp: bindE_def dir_lookup_run [OF assms(1)] split: sum.split)
qed (simp add: ret_def)

lemma walk_in_table:
  assumes "fs_wf D valid s" "ino < inode_count (sb s)" "kinds D s ino \<noteq> KIND_FREE" "tree_walk (kinds D s) (entries D s) ino cs = Inr i"
  shows "i < inode_count (sb s)" "kinds D s i \<noteq> KIND_FREE"
  using assms(2-4)
proof (induction cs arbitrary: ino)
  case (Cons c cs)
  {
    case 1
    then obtain j where j: "dir_find (kinds D s) (entries D s) ino c = Inr j" "tree_walk (kinds D s) (entries D s) j cs = Inr i"
      by (auto split: sum.splits)
    show ?case
      by (rule Cons.IH(1) [OF lookup_in_table(1,2) [OF assms(1) 1(1) j(1)] j(2)])
  next
    case 2
    then obtain j where j: "dir_find (kinds D s) (entries D s) ino c = Inr j" "tree_walk (kinds D s) (entries D s) j cs = Inr i"
      by (auto split: sum.splits)
    show ?case
      by (rule Cons.IH(2) [OF lookup_in_table(1,2) [OF assms(1) 2(1) j(1)] j(2)])
  }
qed simp_all

lemma read_file_run:
  assumes "fs_wf D valid s"
  shows "read_file D path s = Some (content (kinds D s) (entries D s) (bytes_of D s) (components path), s)"
proof -
  note wf = wf_parts [OF assms]
  show ?thesis
  proof (cases "tree_walk (kinds D s) (entries D s) ROOT_INODE (components path)")
    case (Inl e)
    then show ?thesis
      by (simp add: read_file_def resolve_def bindE_def resolve_from_run [OF assms wf(4)] content_def)
  next
    case (Inr ino)
    then have ino: "ino < inode_count (sb s)" "kinds D s ino \<noteq> KIND_FREE"
      using walk_in_table [OF assms wf(4) _ Inr] wf(5) by simp_all
    then have "read_inode_data D (inodes D s ino) s = Some (Inr (bytes_of D s ino), s)"
      using wf(2) [OF ino] by (simp add: read_inode_data_run [OF wf(1)] inode_ok_def bytes_of_def)
    then show ?thesis
      using Inr ino(1) by (simp add: read_file_def resolve_def bindE_def resolve_from_run [OF assms wf(4)] content_def
          read_inode_run [OF wf(1)] kinds_def throw_def)
  qed
qed

end
section \<open>Walks in a well-formed tree\<close>

lemma tree_walk_append: "tree_walk K E i (xs @ ys) = (case tree_walk K E i xs of Inl e \<Rightarrow> Inl e | Inr j \<Rightarrow> tree_walk K E j ys)"
  by (induction xs arbitrary: i) (auto split: sum.split)

lemma lookup_link:
  "dir_find K E d n = Inr i \<Longrightarrow> K d = KIND_DIR \<and> (i, n) \<in> set (E d)"
  by (auto simp: dir_find_def find_Some_iff split: if_splits option.splits) (metis nth_mem)

lemma link_lookup:
  assumes "tree_wf count K E" "d < count" "K d = KIND_DIR" "(i, n) \<in> set (E d)"
  shows "dir_find K E d n = Inr i"
proof -
  have dist: "distinct (map snd (E d))" using assms(1-3) by (auto simp: tree_wf_def)
  have "find (\<lambda>(_, m). m = n) es = Some (i, n)" if "distinct (map snd es)" "(i, n) \<in> set es" for es
    using that by (induction es) force+
  then show ?thesis using dist assms by (simp add: dir_find_def)
qed

lemma lookup_not_found:
  "K d = KIND_DIR \<Longrightarrow> dir_find K E d n = Inl FsNotFound \<longleftrightarrow> n \<notin> snd ` set (E d)"
proof -
  have "find (\<lambda>(_, m). m = n) es = None \<longleftrightarrow> n \<notin> snd ` set es" for es :: "link list"
    by (force simp: find_None_iff)
  from this [of "E d"] show "K d = KIND_DIR \<Longrightarrow> ?thesis"
    by (cases "find (\<lambda>(_, m). m = n) (E d)") (auto simp: dir_find_def)
qed

lemma lookup_cases:
  "dir_find K E d n = Inl WrongKind \<and> K d \<noteq> KIND_DIR \<or> dir_find K E d n = Inl FsNotFound \<and> K d = KIND_DIR \<or>
   (\<exists>i. dir_find K E d n = Inr i \<and> K d = KIND_DIR)"
  by (auto simp: dir_find_def split: option.split)

lemma tree_link:
  assumes "tree_wf count K E" "d < count" "dir_find K E d n = Inr i"
  shows "i < count" "K i \<noteq> KIND_FREE" "i \<noteq> ROOT_INODE"
  using assms lookup_link [OF assms(3)] by (auto simp: tree_wf_def)

lemma walk_live:
  assumes "tree_wf count K E" "ROOT_INODE < count" "tree_walk K E ROOT_INODE cs = Inr i"
  shows "i < count \<and> K i \<noteq> KIND_FREE"
  using assms(3)
proof (induction cs arbitrary: i rule: rev_induct)
  case Nil
  then show ?case using assms by (auto simp: tree_wf_def)
next
  case (snoc c cs)
  then obtain d where "tree_walk K E ROOT_INODE cs = Inr d" "dir_find K E d c = Inr i"
    by (auto simp: tree_walk_append split: sum.splits)
  then show ?case using snoc.IH tree_link [OF assms(1)] by blast
qed

text \<open>Every inode has one path.\<close>

lemma walk_unique:
  assumes "tree_wf count K E" "ROOT_INODE < count" "tree_walk K E ROOT_INODE xs = Inr i" "tree_walk K E ROOT_INODE ys = Inr i"
  shows "xs = ys"
  using assms(3,4)
proof (induction xs arbitrary: i ys rule: rev_induct)
  case Nil
  show ?case
  proof (cases ys rule: rev_cases)
    case (snoc zs c)
    then obtain d where "tree_walk K E ROOT_INODE zs = Inr d" "dir_find K E d c = Inr i"
      using Nil by (auto simp: tree_walk_append split: sum.splits)
    then have "i \<noteq> ROOT_INODE" using tree_link(3) walk_live assms(1,2) by blast
    then show ?thesis using Nil by simp
  qed simp
next
  case (snoc c xs)
  then obtain d where d: "tree_walk K E ROOT_INODE xs = Inr d" "dir_find K E d c = Inr i"
    by (auto simp: tree_walk_append split: sum.splits)
  have dlive: "d < count" using walk_live [OF assms(1,2) d(1)] by simp
  show ?case
  proof (cases ys rule: rev_cases)
    case Nil
    then show ?thesis using snoc.prems(2) tree_link(3) [OF assms(1) dlive d(2)] by simp
  next
    case ys: (snoc zs c')
    then obtain d' where d': "tree_walk K E ROOT_INODE zs = Inr d'" "dir_find K E d' c' = Inr i"
      using snoc.prems by (auto simp: tree_walk_append split: sum.splits)
    have "d' < count" using walk_live [OF assms(1,2) d'(1)] by simp
    then have "d = d' \<and> c = c'"
      using assms(1) dlive lookup_link [OF d(2)] lookup_link [OF d'(2)] by (auto simp: tree_wf_def)
    then show ?thesis using snoc.IH d d' ys by simp
  qed
qed

definition within :: "u8 list list \<Rightarrow> u8 list list \<Rightarrow> bool" where
  "within cs ps \<longleftrightarrow> (\<exists>zs. cs = ps @ zs)"

text \<open>
  A change that only affects the name \<open>n\<close> of directory \<open>p\<close> is invisible to every path that does
  not pass through it.
\<close>

lemma walk_frame:
  assumes wf: "tree_wf count K E" "ROOT_INODE < count" and p: "tree_walk K E ROOT_INODE ps = Inr p"
    and agree: "\<And>d m. d < count \<Longrightarrow> K d \<noteq> KIND_FREE \<Longrightarrow> (d, m) \<noteq> (p, n) \<Longrightarrow> dir_find K' E' d m = dir_find K E d m"
    and "\<not> within cs (ps @ [n])"
  shows "tree_walk K' E' ROOT_INODE cs = tree_walk K E ROOT_INODE cs"
  using assms(5)
proof (induction cs rule: rev_induct)
  case (snoc c cs)
  have "\<not> within cs (ps @ [n])" using snoc.prems by (auto simp: within_def)
  then have ih: "tree_walk K' E' ROOT_INODE cs = tree_walk K E ROOT_INODE cs" by (rule snoc.IH)
  show ?case
  proof (cases "tree_walk K E ROOT_INODE cs")
    case (Inr d)
    have "(d, c) \<noteq> (p, n)"
    proof
      assume "(d, c) = (p, n)"
      then have "cs = ps" using walk_unique [OF wf] Inr p by blast
      then show False using snoc.prems \<open>(d, c) = (p, n)\<close> by (auto simp: within_def)
    qed
    then show ?thesis using agree walk_live [OF wf Inr] ih Inr by (simp add: tree_walk_append split: sum.split)
  qed (simp add: tree_walk_append ih)
qed simp

lemma walk_same:
  assumes wf: "tree_wf count K E" "ROOT_INODE < count"
    and agree: "\<And>d m. d < count \<Longrightarrow> K d \<noteq> KIND_FREE \<Longrightarrow> dir_find K' E' d m = dir_find K E d m"
  shows "tree_walk K' E' ROOT_INODE cs = tree_walk K E ROOT_INODE cs"
proof (induction cs rule: rev_induct)
  case (snoc c cs)
  then show ?case
    using agree walk_live [OF wf, of cs] by (auto simp: tree_walk_append split: sum.split)
qed simp

section \<open>Updating the tree\<close>

lemma tree_dest:
  assumes "tree_wf count K E" "d < count" "K d = KIND_DIR"
  shows "distinct (map snd (E d))"
    and "\<And>j m. (j, m) \<in> set (E d) \<Longrightarrow> j \<noteq> ROOT_INODE \<and> j < count \<and> K j \<noteq> KIND_FREE"
    and "\<And>d' j m m'. d' < count \<Longrightarrow> K d' = KIND_DIR \<Longrightarrow> (j, m) \<in> set (E d) \<Longrightarrow> (j, m') \<in> set (E d') \<Longrightarrow> d = d' \<and> m = m'"
proof -
  show "distinct (map snd (E d))" using assms by (simp add: tree_wf_def)
  have "\<forall>(j, m) \<in> set (E d). j \<noteq> ROOT_INODE \<and> j < count \<and> K j \<noteq> KIND_FREE" using assms by (simp add: tree_wf_def)
  then show "\<And>j m. (j, m) \<in> set (E d) \<Longrightarrow> j \<noteq> ROOT_INODE \<and> j < count \<and> K j \<noteq> KIND_FREE" by blast
  show "\<And>d' j m m'. d' < count \<Longrightarrow> K d' = KIND_DIR \<Longrightarrow> (j, m) \<in> set (E d) \<Longrightarrow> (j, m') \<in> set (E d') \<Longrightarrow> d = d' \<and> m = m'"
    using assms unfolding tree_wf_def by blast
qed

lemma tree_cong:
  assumes "tree_wf count K E" "\<And>d. d < count \<Longrightarrow> K d = KIND_DIR \<Longrightarrow> E' d = E d"
  shows "tree_wf count K E'"
  using assms by (simp add: tree_wf_def)

lemma tree_fresh:
  assumes "tree_wf count K E" "K i = KIND_FREE" "k \<noteq> KIND_FREE" "\<And>d. d \<noteq> i \<Longrightarrow> K d = KIND_DIR \<Longrightarrow> E' d = E d" "E' i = []"
  shows "tree_wf count (K(i := k)) E'"
  unfolding tree_wf_def
proof (intro conjI allI impI)
  have e: "E' d = [] \<or> K d = KIND_DIR \<and> E' d = E d" if "(K(i := k)) d = KIND_DIR" for d
    using that assms(4,5) by (cases "d = i") auto
  show "(K(i := k)) ROOT_INODE = KIND_DIR"
    using assms(1,2) by (auto simp: tree_wf_def)
  fix d
  assume d: "d < count" "(K(i := k)) d = KIND_DIR"
  show "distinct (map snd (E' d))" using e [OF d(2)] tree_dest(1) [OF assms(1) d(1)] by auto
  show "\<forall>(j, m) \<in> set (E' d). j \<noteq> ROOT_INODE \<and> j < count \<and> (K(i := k)) j \<noteq> KIND_FREE"
    using e [OF d(2)] tree_dest(2) [OF assms(1) d(1)] assms(3) by (fastforce split: if_splits)
  fix d' j m m'
  assume d': "d' < count" "(K(i := k)) d' = KIND_DIR" and j: "(j, m) \<in> set (E' d)" "(j, m') \<in> set (E' d')"
  have "K d = KIND_DIR \<and> E' d = E d" "K d' = KIND_DIR \<and> E' d' = E d'"
    using e [OF d(2)] e [OF d'(2)] j by auto
  then show "d = d'" "m = m'"
    using tree_dest(3) [OF assms(1) d(1) _ d'(1), of j m m'] j by auto
qed

lemma tree_add:
  assumes wf: "tree_wf count K E" and p: "p < count" "K p = KIND_DIR" and i: "i < count" "i \<noteq> ROOT_INODE" "K i \<noteq> KIND_FREE"
    and unlinked: "\<And>d n. d < count \<Longrightarrow> K d = KIND_DIR \<Longrightarrow> (i, n) \<notin> set (E d)" and n: "n \<notin> snd ` set (E p)"
    and E': "\<And>d. d < count \<Longrightarrow> K d = KIND_DIR \<Longrightarrow> E' d = (if d = p then E p @ [(i, n)] else E d)"
  shows "tree_wf count K E'"
  unfolding tree_wf_def
proof (intro conjI allI impI)
  show "K ROOT_INODE = KIND_DIR" using wf by (simp add: tree_wf_def)
  fix d
  assume d: "d < count" "K d = KIND_DIR"
  show "distinct (map snd (E' d))" "\<forall>(i, n) \<in> set (E' d). i \<noteq> ROOT_INODE \<and> i < count \<and> K i \<noteq> KIND_FREE"
    using tree_dest(1,2) [OF wf d] d i n by (auto simp: E')
next
  fix d d' j m m'
  assume d: "d < count" "d' < count" "K d = KIND_DIR" "K d' = KIND_DIR" and j: "(j, m) \<in> set (E' d)" "(j, m') \<in> set (E' d')"
  have "(j, m) \<in> set (E d) \<or> (d = p \<and> j = i \<and> m = n)" "(j, m') \<in> set (E d') \<or> (d' = p \<and> j = i \<and> m' = n)"
    using j d by (auto simp: E' split: if_splits)
  then show "d = d'" "m = m'"
    using tree_dest(3) [OF wf d(1,3,2,4)] unlinked [OF d(1,3)] unlinked [OF d(2,4)] by blast+
qed

lemma tree_remove:
  assumes wf: "tree_wf count K E" and p: "p < count" "K p = KIND_DIR" "(i, n) \<in> set (E p)" and i: "K i = KIND_FILE"
    and E': "\<And>d. d < count \<Longrightarrow> K d = KIND_DIR \<Longrightarrow> E' d = (if d = p then filter (\<lambda>(_, m). m \<noteq> n) (E p) else E d)"
  shows "tree_wf count (K(i := KIND_FREE)) E'"
  unfolding tree_wf_def
proof (intro conjI allI impI)
  show "(K(i := KIND_FREE)) ROOT_INODE = KIND_DIR" using wf i by (auto simp: tree_wf_def)
  fix d
  assume d: "d < count" "(K(i := KIND_FREE)) d = KIND_DIR"
  then have kd: "K d = KIND_DIR" by (auto split: if_splits)
  have sub: "set (E' d) \<subseteq> set (E d)" using d kd by (auto simp: E')
  show "distinct (map snd (E' d))" using tree_dest(1) [OF wf d(1) kd] d kd by (auto simp: E' distinct_map_filter)
  have "j \<noteq> i" if "(j, m) \<in> set (E' d)" for j m
  proof
    assume "j = i"
    then have "d = p \<and> m = n" using tree_dest(3) [OF wf d(1) kd p(1,2), of i m n] p(3) sub that by auto
    then show False using that d kd by (auto simp: E')
  qed
  then show "\<forall>(j, m) \<in> set (E' d). j \<noteq> ROOT_INODE \<and> j < count \<and> (K(i := KIND_FREE)) j \<noteq> KIND_FREE"
    using tree_dest(2) [OF wf d(1) kd] sub by fastforce
  fix d' j m m'
  assume d': "d' < count" "(K(i := KIND_FREE)) d' = KIND_DIR" and j: "(j, m) \<in> set (E' d)" "(j, m') \<in> set (E' d')"
  then have kd': "K d' = KIND_DIR" by (auto split: if_splits)
  have "set (E' d') \<subseteq> set (E d')" using d' kd' by (auto simp: E')
  then show "d = d'" "m = m'" using tree_dest(3) [OF wf d(1) kd d'(1) kd', of j m m'] sub j by blast+
qed

end
