(* ===== verification/Fs_Ops.thy ===== *)
theory Fs_Ops
  imports Fs_Tree
begin

text \<open>
  The path operations on a well-formed volume. Each is described by how the kinds and the bytes of
  the inodes evolve; the meaning of every path follows.
\<close>

section \<open>Evolution of a volume\<close>

definition evolves :: "'d block_dev \<Rightarrow> ('d \<Rightarrow> bool) \<Rightarrow> 'd fs \<Rightarrow> 'd fs \<Rightarrow> (u32 \<Rightarrow> u32) \<Rightarrow> (u32 \<Rightarrow> u8 list) \<Rightarrow> bool" where
  "evolves D valid s s' K F \<longleftrightarrow> good D valid s' \<and> sb s' = sb s \<and> alloc_wf D s' \<and> kinds D s' = K \<and>
     (\<forall>j < inode_count (sb s). K j \<noteq> KIND_FREE \<longrightarrow> bytes_of D s' j = F j)"

lemma lookup_cong: "K d = K' d \<Longrightarrow> (K d = KIND_DIR \<Longrightarrow> E d = E' d) \<Longrightarrow> dir_find K E d n = dir_find K' E' d n"
  by (simp add: dir_find_def)

lemma content_cong:
  assumes "tree_wf count K (links_of \<circ> F)" "ROOT_INODE < count" "\<And>j. j < count \<Longrightarrow> K j \<noteq> KIND_FREE \<Longrightarrow> F' j = F j"
  shows "content K (links_of \<circ> F') F' cs = content K (links_of \<circ> F) F cs"
proof -
  have "tree_walk K (links_of \<circ> F') ROOT_INODE cs = tree_walk K (links_of \<circ> F) ROOT_INODE cs"
    by (rule walk_same [OF assms(1,2)]) (simp add: dir_find_def assms(3))
  then show ?thesis
    using walk_live [OF assms(1,2), of cs] assms(3) by (auto simp: content_def split: sum.split)
qed

lemma entries_comp: "entries D s = links_of \<circ> bytes_of D s"
  by (simp add: fun_eq_iff entries_def)

definition meaning :: "'d block_dev \<Rightarrow> 'd fs \<Rightarrow> u8 list list \<Rightarrow> fs_error + u8 list" where
  "meaning D s = content (kinds D s) (entries D s) (bytes_of D s)"

context block_device
begin

lemma evolves_wf:
  assumes "evolves D valid s s' K F" "good D valid s" "tree_wf (inode_count (sb s)) K (links_of \<circ> F)"
  shows "fs_wf D valid s'" "meaning D s' cs = content K (links_of \<circ> F) F cs"
proof -
  have root: "ROOT_INODE < inode_count (sb s)"
    using good_sb [OF assms(2)] by (simp add: sb_wf_def ROOT_INODE_def)
  have "tree_wf (inode_count (sb s)) K (links_of \<circ> bytes_of D s')"
    by (rule tree_cong [OF assms(3)]) (use assms(1) in \<open>simp add: evolves_def\<close>)
  then show "fs_wf D valid s'"
    using assms(1) by (simp add: fs_wf_def evolves_def entries_comp)
  show "meaning D s' cs = content K (links_of \<circ> F) F cs"
    unfolding meaning_def entries_comp using assms(1) content_cong [OF assms(3) root, of "bytes_of D s'"]
    by (simp add: evolves_def)
qed

lemma evolves_trans:
  assumes "evolves D valid s s1 K F" "evolves D valid s1 s2 K' F'"
    "\<And>j. j < inode_count (sb s) \<Longrightarrow> K' j \<noteq> KIND_FREE \<Longrightarrow> F' j = F'' j"
  shows "evolves D valid s s2 K' F''"
  using assms by (simp add: evolves_def)

text \<open>The blocks of live inodes are apart from those a rewritten inode ends up with.\<close>

lemma rewritten_evolves:
  assumes s: "good D valid s" "alloc_wf D s" and ino: "ino < inode_count (sb s)" "kinds D s ino \<noteq> KIND_FREE"
    and rw: "rewritten D valid s ino (inodes D s ino) d s'"
  shows "evolves D valid s s' (kinds D s) ((bytes_of D s)(ino := d))"
proof -
  obtain nd B where v: "shows_view D valid (sb s) s' ((inodes D s)(ino := nd))
       (\<lambda>l. used D s l \<and> l \<notin> set (blocks (inodes D s ino)) \<or> l \<in> set (blocks nd)) B"
    and nd: "inode_ok D s' nd" "inode_kind nd = inode_kind (inodes D s ino)" "file_bytes B nd = d"
      "\<forall>l \<in> set (blocks nd). l \<in> set (blocks (inodes D s ino)) \<or> \<not> used D s l"
    and B: "\<forall>l. l \<notin> set (blocks nd) \<longrightarrow> B l = vdata D s l"
    using rw unfolding rewritten_def by blast
  have s': "good D valid s'" "sb s' = sb s" "inodes D s' = (inodes D s)(ino := nd)" "vdata D s' = B"
    "used D s' = (\<lambda>l. used D s l \<and> l \<notin> set (blocks (inodes D s ino)) \<or> l \<in> set (blocks nd))"
    using v by (simp_all add: shows_view_def)
  have K: "kinds D s' = kinds D s"
    using nd(2) by (auto simp: kinds_def s'(3) fun_eq_iff)
  have ok: "inode_ok D s (inodes D s j)" if "j < inode_count (sb s)" "kinds D s j \<noteq> KIND_FREE" for j
    using s(2) that by (simp add: alloc_wf_def)
  have apart: "set (blocks (inodes D s j)) \<inter> set (blocks (inodes D s i)) = {}"
    if "i < inode_count (sb s)" "j < inode_count (sb s)" "i \<noteq> j" "kinds D s i \<noteq> KIND_FREE" "kinds D s j \<noteq> KIND_FREE" for i j
    using s(2) that unfolding alloc_wf_def by blast
  have apart': "set (blocks (inodes D s j)) \<inter> set (blocks nd) = {}"
    if j: "j < inode_count (sb s)" "kinds D s j \<noteq> KIND_FREE" "j \<noteq> ino" for j
    using nd(4) ok [OF j(1,2)] apart [OF ino(1) j(1) _ ino(2) j(2)] j(3) by (auto simp: inode_ok_def)
  have keep: "inode_ok D s' (inodes D s j)" if j: "j < inode_count (sb s)" "kinds D s j \<noteq> KIND_FREE" "j \<noteq> ino" for j
    using ok [OF j(1,2)] apart [OF ino(1) j(1) _ ino(2) j(2)] j(3) by (auto simp: inode_ok_def s'(2,5))
  have "alloc_wf D s'"
    unfolding alloc_wf_def K s'(2)
  proof (intro conjI allI impI)
    fix j
    assume "j < inode_count (sb s)" "kinds D s j \<noteq> KIND_FREE"
    then show "inode_ok D s' (inodes D s' j)"
      using keep nd(1) by (cases "j = ino") (simp_all add: s'(3))
  next
    fix i j
    assume ij: "i < inode_count (sb s)" "j < inode_count (sb s)" "i \<noteq> j" "kinds D s i \<noteq> KIND_FREE" "kinds D s j \<noteq> KIND_FREE"
    show "set (blocks (inodes D s' i)) \<inter> set (blocks (inodes D s' j)) = {}"
      using apart [OF ij] apart' [of i] apart' [of j] ij by (cases "i = ino"; cases "j = ino") (auto simp: s'(3))
  qed
  moreover have "bytes_of D s' j = ((bytes_of D s)(ino := d)) j" if j: "j < inode_count (sb s)" "kinds D s j \<noteq> KIND_FREE" for j
  proof (cases "j = ino")
    case True
    then show ?thesis using nd(3) by (simp add: bytes_of_def s'(3,4))
  next
    case False
    then have "map B (blocks (inodes D s j)) = map (vdata D s) (blocks (inodes D s j))"
      using apart' [OF j False] B by (intro map_cong) auto
    then show ?thesis using False by (simp del: map_eq_conv add: bytes_of_def s'(3,4) file_bytes_def)
  qed
  ultimately show ?thesis
    using s'(1,2) K by (simp add: evolves_def)
qed

lemma lost_evolves:
  assumes "alloc_wf D s" "blocks_lost D valid s s'"
  shows "evolves D valid s s' (kinds D s) (bytes_of D s)"
proof -
  have s': "good D valid s'" "sb s' = sb s" "inodes D s' = inodes D s" "vdata D s' = vdata D s" "\<forall>l. used D s l \<longrightarrow> used D s' l"
    using assms(2) by (auto simp: blocks_lost_def shows_view_def)
  then have "inode_ok D s nd \<Longrightarrow> inode_ok D s' nd" for nd
    by (simp add: inode_ok_def)
  then have "alloc_wf D s'" using assms(1) s' by (simp add: alloc_wf_def kinds_def)
  moreover have "kinds D s' = kinds D s" "bytes_of D s' = bytes_of D s"
    by (rule ext, simp add: kinds_def bytes_of_def s')+
  ultimately show ?thesis using s' by (simp add: evolves_def)
qed

lemma refl_evolves: "good D valid s \<Longrightarrow> alloc_wf D s \<Longrightarrow> evolves D valid s s (kinds D s) (bytes_of D s)"
  by (simp add: evolves_def)

lemma blocks_empty [simp]: "blocks (empty_inode k) = []"
  by (simp add: blocks_def blocks_used_def empty_inode_def div_ceil_def)

lemma empty_inode_ok [simp]: "inode_ok D s (empty_inode k)"
  using blocks_empty [of k] by (simp add: inode_ok_def) (simp add: empty_inode_def DIRECT_BLOCKS_def)

text \<open>Overwriting a slot of the inode table with an empty inode, once its blocks are nobody's.\<close>

lemma empty_evolves:
  assumes s: "good D valid s" and ino: "ino < inode_count (sb s)"
    and ok: "\<And>j. j < inode_count (sb s) \<Longrightarrow> j \<noteq> ino \<Longrightarrow> kinds D s j \<noteq> KIND_FREE \<Longrightarrow> inode_ok D s (inodes D s j)"
    and apart: "\<And>i j. i < inode_count (sb s) \<Longrightarrow> j < inode_count (sb s) \<Longrightarrow> i \<noteq> j \<Longrightarrow> kinds D s i \<noteq> KIND_FREE \<Longrightarrow> kinds D s j \<noteq> KIND_FREE \<Longrightarrow>
      set (blocks (inodes D s i)) \<inter> set (blocks (inodes D s j)) = {}"
  shows "\<exists>s'. write_inode D ino (empty_inode k) s = Some (Inr (), s') \<and>
    evolves D valid s s' ((kinds D s)(ino := k)) ((bytes_of D s)(ino := [])) \<and> used D s' = used D s"
proof -
  have "length (direct (empty_inode k)) = 6" by (simp add: empty_inode_def DIRECT_BLOCKS_def)
  from write_inode_run [OF s ino this] obtain s' where run: "write_inode D ino (empty_inode k) s = Some (Inr (), s')"
    and v: "shows_view D valid (sb s) s' ((inodes D s)(ino := empty_inode k)) (used D s) (vdata D s)" by blast
  then have s': "good D valid s'" "sb s' = sb s" "inodes D s' = (inodes D s)(ino := empty_inode k)" "used D s' = used D s" "vdata D s' = vdata D s"
    by (simp_all add: shows_view_def)
  have K: "kinds D s' = (kinds D s)(ino := k)" by (auto simp: kinds_def s'(3) fun_eq_iff empty_inode_def)
  have keep: "inode_ok D s nd \<Longrightarrow> inode_ok D s' nd" for nd
    by (simp add: inode_ok_def s')
  have "alloc_wf D s'"
    unfolding alloc_wf_def s'(2) K using keep ok apart by (auto simp: s'(3))
  moreover have "bytes_of D s' = (bytes_of D s)(ino := [])"
    by (auto simp: bytes_of_def s'(3,5) fun_eq_iff file_bytes_def)
  ultimately show ?thesis
    using run s'(1,2,4) K by (auto simp: evolves_def)
qed

end
section \<open>Directory updates\<close>

definition enc :: "link list \<Rightarrow> u8 list" where
  "enc es = concat (map slot_bytes es)"

lemma links_of_enc: "\<forall>(i, n) \<in> set es. i \<noteq> 0 \<and> length n \<le> 23 \<Longrightarrow> links_of (enc es) = es"
  by (simp add: enc_def links_of_encoded)

lemma length_file_bytes: "length (file_bytes B nd) \<le> unat (inode_size nd)"
  by (simp add: file_bytes_def)

lemma entries_names: "(i, n) \<in> set (entries D s d) \<Longrightarrow> i \<noteq> 0 \<and> length n \<le> 23"
  using links_of_names by (simp add: entries_def)

context block_device
begin

lemma dir_add_run:
  assumes s: "good D valid s" "alloc_wf D s" and p: "p < inode_count (sb s)" "kinds D s p = KIND_DIR" "links_live D s p"
    and i: "i \<noteq> 0"
  shows "(\<exists>s'. dir_add D p i n s = Some (Inr (), s') \<and> length n \<le> 23 \<and> free_count D s \<le> Suc (free_count D s') \<and>
      evolves D valid s s' (kinds D s) ((bytes_of D s)(p := enc (entries D s p @ [(i, n)])))) \<or>
    (\<exists>e s'. dir_add D p i n s = Some (Inl e, s') \<and> evolves D valid s s' (kinds D s) (bytes_of D s) \<and>
      (e = FsTooLarge \<and> s' = s \<and> (23 < length n \<or> 96 \<le> length (entries D s p)) \<or> e = NoSpace \<and> free_count D s = 0))"
proof (cases "length n \<le> 23")
  case False
  then show ?thesis
    using refl_evolves [OF s] by (simp add: dir_add_def NAME_MAX_def throw_def)
next
  case True
  let ?es = "entries D s p @ [(i, n)]" and ?nd = "inodes D s p"
  have ok: "inode_ok D s ?nd" using s(2) p by (simp add: alloc_wf_def)
  have live: "kinds D s p \<noteq> KIND_FREE" using p(2) by simp
  have names: "\<forall>(i, n) \<in> set ?es. length n \<le> 23"
    using entries_names True by fastforce
  have m: "map (\<lambda>(i, _, n). (i, n)) (map (\<lambda>(i, n). (i, kinds D s i = KIND_DIR, n)) es) = es" for es :: "link list"
    by (induction es) auto
  have run: "dir_add D p i n s = write_inode_data D p ?nd (enc ?es) s"
    using True names read_dir_entries_run [OF s(1) p(1) ok p(2,3)]
    by (simp add: dir_add_def NAME_MAX_def bindE_def m of_result_def encode_dir_run read_inode_run [OF s(1) p(1)] enc_def del: map_map)
  have len: "length (enc ?es) = 32 * length (entries D s p) + 32"
    using length_encoded [OF names] by (simp add: enc_def)
  show ?thesis
  proof (cases "length (enc ?es) \<le> 3072")
    case False
    then show ?thesis
      using run len write_inode_data_too_large refl_evolves [OF s] by (intro disjI2 exI [of _ FsTooLarge] exI [of _ s]) simp
  next
    case fits: True
    have "32 * length (entries D s p) \<le> length (bytes_of D s p)" unfolding entries_def by (rule length_links_of)
    also have "\<dots> \<le> unat (inode_size ?nd)" unfolding bytes_of_def by (rule length_file_bytes)
    finally have "div_ceil (length (enc ?es)) 512 - blocks_used ?nd \<le> 1"
      using div_ceil_le_iff [of 512 "length (enc ?es)" "blocks_used ?nd + 1"] div_ceil_block_bound [of "unat (inode_size ?nd)"]
      by (simp add: len blocks_used_def BLOCK_SIZE_def)
    then show ?thesis
      using write_inode_data_run [OF s(1) ok p(1) fits] run True rewritten_evolves [OF s p(1) live] lost_evolves [OF s(2)]
        rewritten_free [of s p ?nd "enc ?es"] by fastforce
  qed
qed

lemma rewritten_shrinks:
  assumes "inode_ok D s nd" "rewritten D valid s ino nd d s'" "length d \<le> unat (inode_size nd)" "used D s' l"
  shows "used D s l"
  using assms by (auto simp: rewritten_def shows_view_def inode_ok_def)

lemma dir_remove_run:
  assumes s: "good D valid s" "alloc_wf D s" and p: "p < inode_count (sb s)" "kinds D s p = KIND_DIR" "links_live D s p"
    and n: "n \<in> snd ` set (entries D s p)"
  shows "\<exists>s'. dir_remove D p n s = Some (Inr (), s') \<and>
    evolves D valid s s' (kinds D s) ((bytes_of D s)(p := enc (filter (\<lambda>(_, m). m \<noteq> n) (entries D s p)))) \<and>
    (\<forall>l. used D s' l \<longrightarrow> used D s l)"
proof -
  let ?es = "filter (\<lambda>(_, m). m \<noteq> n) (entries D s p)" and ?nd = "inodes D s p"
  have ok: "inode_ok D s ?nd" using s(2) p by (simp add: alloc_wf_def)
  have live: "kinds D s p \<noteq> KIND_FREE" using p(2) by simp
  have names: "\<forall>(i, n) \<in> set ?es. length n \<le> 23"
    using entries_names by fastforce
  have m: "map (\<lambda>(i, _, n). (i, n)) (filter (\<lambda>(_, _, m). m \<noteq> n) (map (\<lambda>(i, n). (i, kinds D s i = KIND_DIR, n)) es)) =
      filter (\<lambda>(_, m). m \<noteq> n) es" for es :: "link list"
    by (induction es) auto
  have lt: "length ?es < length (entries D s p)"
    using n by (force intro: length_filter_less)
  have c: "(\<lambda>(_, _, m). m \<noteq> n) \<circ> (\<lambda>(i, n). (i, kinds D s i = KIND_DIR, n)) = (\<lambda>(_ :: u32, m). m \<noteq> n)"
    by auto
  have run: "dir_remove D p n s = write_inode_data D p ?nd (enc ?es) s"
    using lt names read_dir_entries_run [OF s(1) p(1) ok p(2,3)]
    by (simp add: dir_remove_def bindE_def m c Let_def of_result_def encode_dir_run read_inode_run [OF s(1) p(1)] enc_def del: map_map)
  have "length (enc ?es) = 32 * length ?es" unfolding enc_def by (rule length_encoded [OF names])
  also have "\<dots> \<le> 32 * length (entries D s p)" using lt by simp
  also have "\<dots> \<le> length (bytes_of D s p)" unfolding entries_def by (rule length_links_of)
  also have "\<dots> \<le> unat (inode_size ?nd)" unfolding bytes_of_def by (rule length_file_bytes)
  finally have le: "length (enc ?es) \<le> unat (inode_size ?nd)" .
  then have fits: "length (enc ?es) \<le> 3072" "div_ceil (length (enc ?es)) 512 \<le> blocks_used ?nd"
    using ok div_ceil_mono by (simp_all add: inode_ok_def blocks_used_def BLOCK_SIZE_def)
  then obtain s' where s': "write_inode_data D p ?nd (enc ?es) s = Some (Inr (), s')" "rewritten D valid s p ?nd (enc ?es) s'"
    using write_inode_data_run [OF s(1) ok p(1) fits(1)] by auto
  show ?thesis
    using run s' rewritten_evolves [OF s p(1) live s'(2)] rewritten_shrinks [OF ok s'(2) le] by auto
qed

end
section \<open>Creating a link\<close>

text \<open>
  The pure effect of creating inode \<open>i\<close> of kind \<open>k\<close> under the name \<open>n\<close> in directory \<open>p\<close>,
  reached by \<open>ps\<close>.
\<close>

lemma created_tree:
  assumes wf: "tree_wf count K (links_of \<circ> F)" "ROOT_INODE < count"
    and p: "tree_walk K (links_of \<circ> F) ROOT_INODE ps = Inr p" "K p = KIND_DIR" "n \<notin> snd ` set (links_of (F p))"
    and i: "i < count" "i \<noteq> 0" "K i = KIND_FREE" and k: "k \<noteq> KIND_FREE" and n: "length n \<le> 23"
    and K': "K' = K(i := k)" and F': "F' = F(i := [], p := enc (links_of (F p) @ [(i, n)]))"
  shows "tree_wf count K' (links_of \<circ> F')"
    and "tree_walk K' (links_of \<circ> F') ROOT_INODE (ps @ [n]) = Inr i"
    and "\<not> within cs (ps @ [n]) \<Longrightarrow> tree_walk K' (links_of \<circ> F') ROOT_INODE cs = tree_walk K (links_of \<circ> F) ROOT_INODE cs"
    and "\<not> within cs (ps @ [n]) \<Longrightarrow> content K' (links_of \<circ> F') F' cs = content K (links_of \<circ> F) F cs"
proof -
  have pc: "p < count" using walk_live [OF wf p(1)] by simp
  have ip: "i \<noteq> p" using i(3) p(2) by auto
  have links: "links_of (F' p) = links_of (F p) @ [(i, n)]"
    using ip i(2) n links_of_names [of _ _ "F p"] by (simp add: F') (rule links_of_enc, fastforce)
  have E': "(links_of \<circ> F') d = (if d = p then (links_of \<circ> F) p @ [(i, n)] else (links_of \<circ> F) d)" if "d \<noteq> i" for d
    using that links by (simp add: F')
  have unlinked: "(i, m) \<notin> set ((links_of \<circ> F) d)" if "d < count" "K d = KIND_DIR" for d m
    using tree_dest(2) [OF wf(1) that, of i m] i(3) by auto
  let ?E1 = "(links_of \<circ> F)(i := [])"
  have wf1: "tree_wf count K' ?E1"
    unfolding K' by (rule tree_fresh [OF wf(1) i(3) k]) simp_all
  show wf': "tree_wf count K' (links_of \<circ> F')"
  proof (rule tree_add [OF wf1 pc _ i(1)])
    show "K' p = KIND_DIR" "i \<noteq> ROOT_INODE" "K' i \<noteq> KIND_FREE" "n \<notin> snd ` set (?E1 p)"
      using p i k ip by (simp_all add: K' ROOT_INODE_def)
    show "(i, m) \<notin> set (?E1 d)" if "d < count" "K' d = KIND_DIR" for d m
      using unlinked [of d m] that by (cases "d = i") (simp_all add: K')
    show "(links_of \<circ> F') d = (if d = p then ?E1 p @ [(i, n)] else ?E1 d)" if "d < count" "K' d = KIND_DIR" for d
      using E' [of d] ip by (cases "d = i") (simp_all add: F')
  qed
  have agree: "dir_find K' (links_of \<circ> F') d m = dir_find K (links_of \<circ> F) d m"
    if "K d \<noteq> KIND_FREE" "(d, m) \<noteq> (p, n)" for d m
  proof -
    have di: "d \<noteq> i" using that(1) i(3) by auto
    have f: "find (\<lambda>(_, m'). m' = m) (es @ [(i, n)]) = find (\<lambda>(_, m'). m' = m) es" if "m \<noteq> n" for es :: "link list"
      using that by (induction es) auto
    show ?thesis
      using that di E' [OF di] f by (auto simp: dir_find_def K')
  qed
  show frame: "\<not> within cs (ps @ [n]) \<Longrightarrow> tree_walk K' (links_of \<circ> F') ROOT_INODE cs = tree_walk K (links_of \<circ> F) ROOT_INODE cs" for cs
    by (rule walk_frame [OF wf p(1), where n = n]) (use agree in auto)
  have "tree_walk K' (links_of \<circ> F') ROOT_INODE ps = Inr p"
    using frame [of ps] p(1) by (simp add: within_def)
  moreover have "dir_find K' (links_of \<circ> F') p n = Inr i"
    using pc p(2) ip E' [of p] by (intro link_lookup [OF wf']) (auto simp: K')
  ultimately show "tree_walk K' (links_of \<circ> F') ROOT_INODE (ps @ [n]) = Inr i"
    by (simp add: tree_walk_append)
  show "content K' (links_of \<circ> F') F' cs = content K (links_of \<circ> F) F cs" if "\<not> within cs (ps @ [n])"
    using frame [OF that] walk_live [OF wf, of cs] i(3) p(2) by (auto simp: content_def K' F' split: sum.split)
qed

text \<open>The pure effect of replacing the bytes of a file.\<close>

lemma replaced_tree:
  assumes wf: "tree_wf count K (links_of \<circ> F)" "ROOT_INODE < count" and i: "tree_walk K (links_of \<circ> F) ROOT_INODE ps = Inr i" "K i = KIND_FILE"
  shows "tree_wf count K (links_of \<circ> F(i := d))"
    and "content K (links_of \<circ> F(i := d)) (F(i := d)) cs = (if cs = ps then Inr d else content K (links_of \<circ> F) F cs)"
proof -
  show "tree_wf count K (links_of \<circ> F(i := d))"
    by (rule tree_cong [OF wf(1)]) (use i(2) in auto)
  have w: "tree_walk K (links_of \<circ> F(i := d)) ROOT_INODE cs = tree_walk K (links_of \<circ> F) ROOT_INODE cs" for cs
    by (rule walk_same [OF wf]) (use i(2) in \<open>auto simp: dir_find_def\<close>)
  show "content K (links_of \<circ> F(i := d)) (F(i := d)) cs = (if cs = ps then Inr d else content K (links_of \<circ> F) F cs)"
  proof (cases "cs = ps")
    case True
    then show ?thesis using i by (simp add: content_def w)
  next
    case False
    then have "tree_walk K (links_of \<circ> F) ROOT_INODE cs \<noteq> Inr i"
      using walk_unique [OF wf] i(1) by blast
    then show ?thesis using False by (auto simp: content_def w split: sum.split)
  qed
qed

text \<open>An inode that is marked but linked nowhere changes no path.\<close>

lemma unlinked_tree:
  assumes wf: "tree_wf count K (links_of \<circ> F)" "ROOT_INODE < count" and i: "K i = KIND_FREE" "k \<noteq> KIND_FREE"
  shows "tree_wf count (K(i := k)) (links_of \<circ> F(i := []))"
    and "content (K(i := k)) (links_of \<circ> F(i := [])) (F(i := [])) cs = content K (links_of \<circ> F) F cs"
proof -
  show "tree_wf count (K(i := k)) (links_of \<circ> F(i := []))"
    by (rule tree_fresh [OF wf(1) i]) auto
  have "tree_walk (K(i := k)) (links_of \<circ> F(i := [])) ROOT_INODE cs = tree_walk K (links_of \<circ> F) ROOT_INODE cs"
    by (rule walk_same [OF wf]) (use i(1) in \<open>auto simp: dir_find_def\<close>)
  then show "content (K(i := k)) (links_of \<circ> F(i := [])) (F(i := [])) cs = content K (links_of \<circ> F) F cs"
    using walk_live [OF wf, of cs] i(1) by (auto simp: content_def split: sum.split)
qed

text \<open>The pure effect of removing a file.\<close>

lemma removed_tree:
  assumes wf: "tree_wf count K (links_of \<circ> F)" "ROOT_INODE < count"
    and p: "tree_walk K (links_of \<circ> F) ROOT_INODE ps = Inr p" "dir_find K (links_of \<circ> F) p n = Inr i" and i: "K i = KIND_FILE"
    and K': "K' = K(i := KIND_FREE)" and F': "F' = F(p := enc (filter (\<lambda>(_, m). m \<noteq> n) (links_of (F p))))"
  shows "tree_wf count K' (links_of \<circ> F')"
    and "content K' (links_of \<circ> F') F' (ps @ [n]) = Inl FsNotFound"
    and "\<not> within cs (ps @ [n]) \<Longrightarrow> content K' (links_of \<circ> F') F' cs = content K (links_of \<circ> F) F cs"
proof -
  have pc: "p < count" using walk_live [OF wf p(1)] by simp
  have kp: "K p = KIND_DIR" "(i, n) \<in> set ((links_of \<circ> F) p)" using lookup_link [OF p(2)] by simp_all
  have ip: "i \<noteq> p" using i kp by auto
  have links: "links_of (F' p) = filter (\<lambda>(_, m). m \<noteq> n) (links_of (F p))"
    using links_of_names [of _ _ "F p"] by (simp add: F') (rule links_of_enc, fastforce)
  have E': "(links_of \<circ> F') d = (if d = p then filter (\<lambda>(_, m). m \<noteq> n) ((links_of \<circ> F) p) else (links_of \<circ> F) d)" for d
    using links by (simp add: F')
  show wf': "tree_wf count K' (links_of \<circ> F')"
    unfolding K' by (rule tree_remove [OF wf(1) pc kp i]) (simp only: E')
  have agree: "dir_find K' (links_of \<circ> F') d m = dir_find K (links_of \<circ> F) d m" if "(d, m) \<noteq> (p, n)" for d m
  proof -
    have f: "find (\<lambda>(_, m'). m' = m) (filter (\<lambda>(_, m'). m' \<noteq> n) es) = find (\<lambda>(_, m'). m' = m) es" if "m \<noteq> n" for es :: "link list"
      using that by (induction es) auto
    show ?thesis
      using that i E' [of d] f by (auto simp: dir_find_def K')
  qed
  have frame: "tree_walk K' (links_of \<circ> F') ROOT_INODE cs = tree_walk K (links_of \<circ> F) ROOT_INODE cs" if "\<not> within cs (ps @ [n])" for cs
    by (rule walk_frame [OF wf p(1) _ that]) (use agree in auto)
  have "tree_walk K' (links_of \<circ> F') ROOT_INODE ps = Inr p"
    using frame [of ps] p(1) by (simp add: within_def)
  moreover have "dir_find K' (links_of \<circ> F') p n = Inl FsNotFound"
    using kp(1) ip E' [of p] by (subst lookup_not_found) (auto simp: K')
  ultimately show "content K' (links_of \<circ> F') F' (ps @ [n]) = Inl FsNotFound"
    by (simp add: content_def tree_walk_append)
  have "tree_walk K (links_of \<circ> F) ROOT_INODE cs \<noteq> Inr i" if "\<not> within cs (ps @ [n])"
  proof
    assume "tree_walk K (links_of \<circ> F) ROOT_INODE cs = Inr i"
    moreover have "tree_walk K (links_of \<circ> F) ROOT_INODE (ps @ [n]) = Inr i" using p by (simp add: tree_walk_append)
    ultimately have "cs = ps @ [n]" using walk_unique [OF wf] by blast
    then show False using that by (simp add: within_def)
  qed
  then show "content K' (links_of \<circ> F') F' cs = content K (links_of \<circ> F) F cs" if "\<not> within cs (ps @ [n])"
    using frame [OF that] that kp(1) by (auto simp: content_def K' F' split: sum.split)
qed
section \<open>The operations\<close>

definition create :: "'d block_dev \<Rightarrow> u32 \<Rightarrow> u8 list \<Rightarrow> u32 \<Rightarrow> ('d, u32) fs_action" where
  "create D p n k =
     bindE (alloc_inode D) (\<lambda>ino.
     bindE (write_inode D ino (empty_inode k)) (\<lambda>_.
     bindE (dir_add D p ino n) (\<lambda>_. ret ino)))"

definition overwrite :: "'d block_dev \<Rightarrow> u8 list \<Rightarrow> u32 \<Rightarrow> ('d, u32) fs_action" where
  "overwrite D d i =
     bindE (read_inode D i) (\<lambda>nd.
       if inode_kind nd \<noteq> KIND_FILE then throw WrongKind else bindE (write_inode_data D i nd d) (\<lambda>_. ret i))"

definition fresh_inode :: "'d block_dev \<Rightarrow> 'd fs \<Rightarrow> u32 \<Rightarrow> bool" where
  "fresh_inode D s ino \<longleftrightarrow> ino < inode_count (sb s) \<and> ino \<noteq> 0 \<and> kinds D s ino = KIND_FREE"

context block_device
begin

lemma resolve_parent_run:
  assumes "fs_wf D valid s"
  shows "resolve_parent D path s = Some
    (if components path = [] then Inl FsNotFound
     else case tree_walk (kinds D s) (entries D s) ROOT_INODE (butlast (components path)) of
       Inl e \<Rightarrow> Inl e | Inr p \<Rightarrow> Inr (p, last (components path)), s)"
  using resolve_from_run [OF assms wf_parts(4) [OF assms], of "butlast (components path)"]
  by (cases "components path") (auto simp: resolve_parent_def throw_def bindE_def ret_def split: sum.split)

lemma create_run:
  assumes wf: "fs_wf D valid s" and p: "p < inode_count (sb s)" "kinds D s p \<noteq> KIND_FREE" and k: "k \<noteq> KIND_FREE"
  shows "(\<exists>ino s'. create D p n k s = Some (Inr ino, s') \<and> fresh_inode D s ino \<and> kinds D s p = KIND_DIR \<and> length n \<le> 23 \<and>
      free_count D s \<le> Suc (free_count D s') \<and>
      evolves D valid s s' ((kinds D s)(ino := k)) ((bytes_of D s)(ino := [], p := enc (entries D s p @ [(ino, n)])))) \<or>
    (\<exists>e s'. create D p n k s = Some (Inl e, s') \<and>
      (s' = s \<and> e = NoSpace \<and> (\<forall>ino. \<not> fresh_inode D s ino) \<or>
       (\<exists>ino. fresh_inode D s ino \<and> evolves D valid s s' ((kinds D s)(ino := k)) ((bytes_of D s)(ino := []))) \<and>
         (e = FsTooLarge \<and> (23 < length n \<or> 96 \<le> length (entries D s p)) \<or>
          length n \<le> 23 \<and> e = NoSpace \<and> free_count D s = 0 \<or> length n \<le> 23 \<and> e = WrongKind \<and> kinds D s p \<noteq> KIND_DIR)))"
proof -
  note g = wf_parts [OF wf]
  have alloc: "alloc_wf D s" using wf by (simp add: fs_wf_def)
  from alloc_inode_run [OF g(1)] show ?thesis
  proof (elim disjE exE conjE, goal_cases)
    case 2
    then show ?case by (auto simp: create_def bindE_def fresh_inode_def kinds_def)
  next
    case (1 ino)
    then have fresh: "fresh_inode D s ino" by (simp add: fresh_inode_def kinds_def)
    have ap: "set (blocks (inodes D s i)) \<inter> set (blocks (inodes D s j)) = {}"
      if "i < inode_count (sb s)" "j < inode_count (sb s)" "i \<noteq> j" "kinds D s i \<noteq> KIND_FREE" "kinds D s j \<noteq> KIND_FREE" for i j
      using alloc that unfolding alloc_wf_def by blast
    obtain s1 where s1: "write_inode D ino (empty_inode k) s = Some (Inr (), s1)"
      "evolves D valid s s1 ((kinds D s)(ino := k)) ((bytes_of D s)(ino := []))" "used D s1 = used D s"
      using empty_evolves [OF g(1) 1(3) g(2) ap, of k] by blast
    have e1: "good D valid s1" "sb s1 = sb s" "alloc_wf D s1" "kinds D s1 = (kinds D s)(ino := k)"
      "\<And>j. j < inode_count (sb s) \<Longrightarrow> ((kinds D s)(ino := k)) j \<noteq> KIND_FREE \<Longrightarrow> bytes_of D s1 j = ((bytes_of D s)(ino := [])) j"
      using s1(2) by (auto simp: evolves_def)
    have free: "free_count D s1 = free_count D s" using e1(2) s1(3) by (simp add: free_count_def)
    have pi: "p \<noteq> ino" using p(2) fresh by (auto simp: fresh_inode_def)
    have run: "create D p n k s = bindE (dir_add D p ino n) (\<lambda>_. ret ino) s1"
      using 1(1) s1(1) by (simp add: create_def bindE_def)
    show ?case
    proof (cases "kinds D s p = KIND_DIR")
      case True
      have b1: "bytes_of D s1 p = bytes_of D s p" using e1(5) [OF p(1)] p(2) pi by simp
      then have ent: "entries D s1 p = entries D s p" by (simp add: entries_def)
      have live: "links_live D s1 p" using g(3) [OF p(1) True] ent e1(2) by (simp add: links_live_def)
      have p1: "p < inode_count (sb s1)" "kinds D s1 p = KIND_DIR" using p(1) True pi e1(2,4) by simp_all
      from dir_add_run [OF e1(1,3) p1 live 1(2), of n] show ?thesis
      proof (elim disjE exE conjE, goal_cases)
        case (1 s2)
        have "evolves D valid s s2 ((kinds D s)(ino := k)) ((bytes_of D s)(ino := [], p := enc (entries D s p @ [(ino, n)])))"
          by (rule evolves_trans [OF s1(2) 1(4) [unfolded e1(4) ent]]) (use e1(5) in simp)
        then show ?case using 1 run fresh True free by (intro disjI1 exI [of _ ino] exI [of _ s2]) (simp add: bindE_def ret_def)
      next
        case (2 e s2)
        have "evolves D valid s s2 ((kinds D s)(ino := k)) ((bytes_of D s)(ino := []))"
          by (rule evolves_trans [OF s1(2) 2(2) [unfolded e1(4)]]) (use e1(5) in simp)
        then show ?case using 2 run fresh ent by (intro disjI2 exI [of _ FsTooLarge] exI [of _ s2]) (auto simp: bindE_def)
      next
        case (3 e s2)
        have "evolves D valid s s2 ((kinds D s)(ino := k)) ((bytes_of D s)(ino := []))"
          by (rule evolves_trans [OF s1(2) 3(2) [unfolded e1(4)]]) (use e1(5) in simp)
        then show ?case using 3 run fresh ent by (intro disjI2 exI [of _ FsTooLarge] exI [of _ s2]) (auto simp: bindE_def)
      next
        case (4 e s2)
        have ev: "evolves D valid s s2 ((kinds D s)(ino := k)) ((bytes_of D s)(ino := []))"
          by (rule evolves_trans [OF s1(2) 4(2) [unfolded e1(4)]]) (use e1(5) in simp)
        have "dir_add D p ino n s1 = Some (Inl FsTooLarge, s1)" if "23 < length n"
          using that by (simp add: dir_add_def NAME_MAX_def throw_def)
        then have "length n \<le> 23" using 4 by fastforce
        then show ?case using 4 ev run fresh free by (intro disjI2 exI [of _ NoSpace] exI [of _ s2]) (auto simp: bindE_def)
      qed
    next
      case False
      have p1: "p < inode_count (sb s1)" "kinds D s1 p \<noteq> KIND_DIR" using p(1) False pi e1(2,4) by simp_all
      have "dir_add D p ino n s1 = Some (Inl (if 23 < length n then FsTooLarge else WrongKind), s1)"
        using read_dir_entries_wrong [OF e1(1) p1] by (simp add: dir_add_def NAME_MAX_def throw_def bindE_def)
      then show ?thesis using run s1(2) fresh False by (auto simp: bindE_def)
    qed
  qed
qed

text \<open>What a volume means after a creation, successful or not.\<close>

lemma created_meaning:
  assumes wf: "fs_wf D valid s" and p: "tree_walk (kinds D s) (entries D s) ROOT_INODE ps = Inr p" "kinds D s p = KIND_DIR" "dir_find (kinds D s) (entries D s) p n = Inl FsNotFound"
    and i: "fresh_inode D s i" and k: "k \<noteq> KIND_FREE" and n: "length n \<le> 23"
    and ev: "evolves D valid s s' ((kinds D s)(i := k)) ((bytes_of D s)(i := [], p := enc (entries D s p @ [(i, n)])))"
  shows "fs_wf D valid s'" "tree_walk (kinds D s') (entries D s') ROOT_INODE (ps @ [n]) = Inr i"
    "\<not> within cs (ps @ [n]) \<Longrightarrow> meaning D s' cs = meaning D s cs"
    "kinds D s' = (kinds D s)(i := k)" "bytes_of D s' i = []"
proof -
  let ?K = "(kinds D s)(i := k)" and ?F = "(bytes_of D s)(i := [], p := enc (links_of (bytes_of D s p) @ [(i, n)]))"
  note g = wf_parts [OF wf]
  have t: "tree_wf (inode_count (sb s)) (kinds D s) (links_of \<circ> bytes_of D s)" using wf by (simp add: fs_wf_def entries_comp)
  have ev': "evolves D valid s s' ?K ?F" using ev by (simp add: entries_def)
  have nin: "n \<notin> snd ` set (links_of (bytes_of D s p))"
    using p(2,3) lookup_not_found [of "kinds D s" p "entries D s" n] by (simp add: entries_def)
  have i': "i < inode_count (sb s)" "i \<noteq> 0" "kinds D s i = KIND_FREE" using i by (simp_all add: fresh_inode_def)
  note tree = created_tree [OF t g(4) p(1) [unfolded entries_comp] p(2) nin i' k n refl refl]
  show "fs_wf D valid s'" by (rule evolves_wf(1) [OF ev' g(1) tree(1)])
  show K: "kinds D s' = (kinds D s)(i := k)" using ev by (simp add: evolves_def)
  have "i \<noteq> p" using i' p(2) by auto
  then show "bytes_of D s' i = []" using ev' i' k by (simp add: evolves_def)
  have "tree_walk ?K (links_of \<circ> bytes_of D s') ROOT_INODE (ps @ [n]) = tree_walk ?K (links_of \<circ> ?F) ROOT_INODE (ps @ [n])"
    by (rule walk_same [OF tree(1) g(4)]) (use ev' in \<open>simp add: dir_find_def evolves_def\<close>)
  then show "tree_walk (kinds D s') (entries D s') ROOT_INODE (ps @ [n]) = Inr i"
    using tree(2) by (simp add: K entries_comp)
  show "meaning D s' cs = meaning D s cs" if "\<not> within cs (ps @ [n])"
    using evolves_wf(2) [OF ev' g(1) tree(1)] tree(4) [OF that] by (simp add: meaning_def entries_comp)
qed

lemma leaked_meaning:
  assumes wf: "fs_wf D valid s" and i: "fresh_inode D s i" and k: "k \<noteq> KIND_FREE"
    and ev: "evolves D valid s s' ((kinds D s)(i := k)) ((bytes_of D s)(i := []))"
  shows "fs_wf D valid s'" "meaning D s' cs = meaning D s cs"
proof -
  note g = wf_parts [OF wf]
  have t: "tree_wf (inode_count (sb s)) (kinds D s) (links_of \<circ> bytes_of D s)" using wf by (simp add: fs_wf_def entries_comp)
  have "kinds D s i = KIND_FREE" using i by (simp add: fresh_inode_def)
  note tree = unlinked_tree [OF t g(4) this k]
  show "fs_wf D valid s'" by (rule evolves_wf(1) [OF ev g(1) tree(1)])
  show "meaning D s' cs = meaning D s cs"
    using evolves_wf(2) [OF ev g(1) tree(1)] tree(2) by (simp add: meaning_def entries_comp)
qed

end
section \<open>Writing, creating and removing\<close>

text \<open>Why an operation on \<open>path\<close> may report an error.\<close>

definition unreachable :: "'d block_dev \<Rightarrow> 'd fs \<Rightarrow> u8 list list \<Rightarrow> fs_error \<Rightarrow> bool" where
  "unreachable D s cs e \<longleftrightarrow>
     cs = [] \<and> e = FsNotFound \<or> cs \<noteq> [] \<and> tree_walk (kinds D s) (entries D s) ROOT_INODE (butlast cs) = Inl e"

definition parent_full :: "'d block_dev \<Rightarrow> 'd fs \<Rightarrow> u8 list list \<Rightarrow> bool" where
  "parent_full D s cs \<longleftrightarrow> 23 < length (last cs) \<or>
     (\<exists>p. tree_walk (kinds D s) (entries D s) ROOT_INODE (butlast cs) = Inr p \<and> 96 \<le> length (entries D s p))"

definition not_kind :: "'d block_dev \<Rightarrow> 'd fs \<Rightarrow> u8 list list \<Rightarrow> u32 \<Rightarrow> bool" where
  "not_kind D s cs k \<longleftrightarrow> (\<exists>i. tree_walk (kinds D s) (entries D s) ROOT_INODE cs = Inr i \<and> kinds D s i \<noteq> k)"

definition no_room :: "'d block_dev \<Rightarrow> 'd fs \<Rightarrow> nat \<Rightarrow> bool" where
  "no_room D s n \<longleftrightarrow> (\<forall>ino. \<not> fresh_inode D s ino) \<or> free_count D s < n"

context block_device
begin

lemma put_data_run:
  assumes wf: "fs_wf D valid s" and i: "tree_walk (kinds D s) (entries D s) ROOT_INODE ps = Inr i"
  shows "(\<exists>s'. overwrite D d i s = Some (Inr i, s') \<and> fs_wf D valid s' \<and>
      (\<forall>cs. meaning D s' cs = (if cs = ps then Inr d else meaning D s cs))) \<or>
    (\<exists>e s'. overwrite D d i s = Some (Inl e, s') \<and> fs_wf D valid s' \<and> (\<forall>cs. meaning D s' cs = meaning D s cs) \<and>
      (e = WrongKind \<and> kinds D s i \<noteq> KIND_FILE \<or> e = FsTooLarge \<and> 3072 < length d \<or> e = NoSpace \<and> free_count D s < 6))"
proof -
  note g = wf_parts [OF wf]
  have alloc: "alloc_wf D s" using wf by (simp add: fs_wf_def)
  have t: "tree_wf (inode_count (sb s)) (kinds D s) (links_of \<circ> bytes_of D s)" using wf by (simp add: fs_wf_def entries_comp)
  have ic: "i < inode_count (sb s)" "kinds D s i \<noteq> KIND_FREE"
    using walk_live [OF t g(4) i [unfolded entries_comp]] by simp_all
  have rd: "read_inode D i s = Some (Inr (inodes D s i), s)" by (rule read_inode_run [OF g(1) ic(1)])
  show ?thesis
  proof (cases "kinds D s i = KIND_FILE")
    case False
    then show ?thesis using rd wf by (simp add: overwrite_def bindE_def kinds_def throw_def)
  next
    case True
    have run: "overwrite D d i s = bindE (write_inode_data D i (inodes D s i) d) (\<lambda>_. ret i) s"
      using True rd by (simp add: overwrite_def bindE_def kinds_def)
    show ?thesis
    proof (cases "length d \<le> 3072")
      case False
      then show ?thesis using run write_inode_data_too_large wf by (simp add: bindE_def)
    next
      case fits: True
      from write_inode_data_run [OF g(1) g(2) [OF ic] ic(1) fits] show ?thesis
      proof (elim disjE exE conjE, goal_cases)
        case (1 s')
        note ev = rewritten_evolves [OF g(1) alloc ic 1(2)]
        note tree = replaced_tree [OF t g(4) i [unfolded entries_comp] True, of d]
        show ?case
          using 1(1) run evolves_wf [OF ev g(1) tree(1)] tree(2)
          by (intro disjI1 exI [of _ s']) (simp add: bindE_def ret_def meaning_def entries_comp)
      next
        case (2 s')
        note ev = lost_evolves [OF alloc 2(3)]
        have "div_ceil (length d) 512 \<le> 6" using fits div_ceil_block_le by simp
        then have "free_count D s < 6" using 2(1) by linarith
        then show ?case
          using 2(2) run evolves_wf [OF ev g(1) t]
          by (intro disjI2 exI [of _ NoSpace] exI [of _ s']) (simp add: bindE_def meaning_def entries_comp)
      qed
    qed
  qed
qed

lemma write_file_run:
  assumes wf: "fs_wf D valid s"
  shows "\<exists>r s'. write_file D path d s = Some (r, s') \<and> fs_wf D valid s' \<and>
    (\<forall>cs. \<not> within cs (components path) \<longrightarrow> meaning D s' cs = meaning D s cs) \<and>
    (case r of
       Inr _ \<Rightarrow> meaning D s' (components path) = Inr d
     | Inl e \<Rightarrow>
         (\<forall>x. meaning D s (components path) = Inr x \<longrightarrow> meaning D s' (components path) = Inr x) \<and>
         (unreachable D s (components path) e \<or>
          e = WrongKind \<and> (not_kind D s (components path) KIND_FILE \<or> not_kind D s (butlast (components path)) KIND_DIR) \<or>
          e = FsTooLarge \<and> (3072 < length d \<or> parent_full D s (components path)) \<or>
          e = NoSpace \<and> no_room D s 7))"
proof (cases "components path = [] \<or> (\<exists>e. tree_walk (kinds D s) (entries D s) ROOT_INODE (butlast (components path)) = Inl e)")
  case True
  then show ?thesis
    using wf by (auto simp: write_file_def bindE_def resolve_parent_run [OF wf] unreachable_def)
next
  case False
  define ps n where "ps = butlast (components path)" and "n = last (components path)"
  have path: "components path = ps @ [n]" using False by (simp add: ps_def n_def)
  obtain p where p: "tree_walk (kinds D s) (entries D s) ROOT_INODE ps = Inr p"
    using False unfolding ps_def by (cases "tree_walk (kinds D s) (entries D s) ROOT_INODE (butlast (components path))") auto
  note g = wf_parts [OF wf]
  have pl: "p < inode_count (sb s)" "kinds D s p \<noteq> KIND_FREE"
    using walk_in_table [OF wf g(4) _ p] g(5) by simp_all
  have run: "write_file D path d s =
      bindE (case dir_find (kinds D s) (entries D s) p n of
          Inr i \<Rightarrow> ret i | Inl FsNotFound \<Rightarrow> create D p n KIND_FILE | Inl e \<Rightarrow> throw e) (overwrite D d) s"
  proof -
    have rp: "resolve_parent D path s = Some (Inr (p, n), s)"
      using False p by (simp add: resolve_parent_run [OF wf] ps_def n_def)
    have la: "attempt (dir_lookup D p n) s = Some (Inr (dir_find (kinds D s) (entries D s) p n), s)"
      by (simp add: attempt_def dir_lookup_run [OF wf pl(1)])
    show ?thesis
      unfolding write_file_def create_def overwrite_def [abs_def]
      by (simp only: bindE_simps(3) [where m = "resolve_parent D path", OF rp] prod.case
          bindE_simps(3) [where m = "attempt (dir_lookup D p n)", OF la])
  qed
  have nk: "not_kind D s (butlast (components path)) KIND_DIR" if "kinds D s p \<noteq> KIND_DIR"
    using that p by (simp add: not_kind_def ps_def)
  have pfull: "parent_full D s (components path)" if "23 < length n \<or> 96 \<le> length (entries D s p)"
    using that p by (auto simp: parent_full_def ps_def n_def)
  from lookup_cases [of "kinds D s" "entries D s" p n] show ?thesis
  proof (elim disjE exE conjE, goal_cases)
    case 1
    then show ?case using run wf nk by (simp add: bindE_def throw_def path meaning_def content_def tree_walk_append p)
  next
    case (3 i)
    have w: "tree_walk (kinds D s) (entries D s) ROOT_INODE (ps @ [n]) = Inr i" using p 3(1) by (simp add: tree_walk_append)
    have r: "write_file D path d s = overwrite D d i s" using run 3(1) by (simp add: bindE_def ret_def)
    from put_data_run [OF wf w, of d] show ?case
    proof (elim disjE exE conjE, goal_cases)
      case (1 s')
      then show ?case using r by (auto simp: path within_def)
    qed (use r w in \<open>auto simp: path not_kind_def no_room_def\<close>)
  next
    case 2
    have fileok: "KIND_FILE \<noteq> KIND_FREE" by simp
    have nomean: "meaning D s (ps @ [n]) = Inl FsNotFound"
      using 2(1) p by (simp add: meaning_def content_def tree_walk_append)
    have r: "write_file D path d s = bindE (create D p n KIND_FILE) (overwrite D d) s" using run 2(1) by simp
    from create_run [OF wf pl fileok, of n] show ?case
    proof (elim disjE exE conjE, goal_cases)
      case (1 ino s1)
      note made = created_meaning [OF wf p 2(2,1) 1(2) fileok 1(4,6)]
      have r1: "write_file D path d s = overwrite D d ino s1" using r 1(1) by (simp add: bindE_def)
      have same: "meaning D s1 cs = meaning D s cs" if "\<not> within cs (ps @ [n])" for cs
        by (rule made(3) [OF that])
      from put_data_run [OF made(1,2), of d] show ?case
      proof (elim disjE exE conjE, goal_cases)
        case (1 s')
        then show ?case using r1 same by (auto simp: path within_def)
      next
        case (4 e s')
        then show ?case using r1 same nomean \<open>free_count D s \<le> Suc (free_count D s1)\<close>
          by (auto simp: path no_room_def)
      qed (use r1 same nomean made(4) in \<open>auto simp: path\<close>)
    qed (use r wf nomean leaked_meaning [OF wf _ fileok] pfull nk in \<open>auto simp: bindE_def path no_room_def\<close>)
  qed
qed

end
context block_device
begin

lemma mkdir_run:
  assumes wf: "fs_wf D valid s"
  shows "\<exists>r s'. mkdir D path s = Some (r, s') \<and> fs_wf D valid s' \<and>
    (case r of
       Inr ino \<Rightarrow>
         (\<forall>cs. \<not> within cs (components path) \<longrightarrow> meaning D s' cs = meaning D s cs) \<and>
         tree_walk (kinds D s') (entries D s') ROOT_INODE (components path) = Inr ino \<and>
         kinds D s' ino = KIND_DIR \<and> entries D s' ino = []
     | Inl e \<Rightarrow>
         (\<forall>cs. meaning D s' cs = meaning D s cs) \<and>
         (unreachable D s (components path) e \<or>
          e = Exists \<and> (\<exists>i. tree_walk (kinds D s) (entries D s) ROOT_INODE (components path) = Inr i) \<or>
          e = WrongKind \<and> not_kind D s (butlast (components path)) KIND_DIR \<or>
          e = FsTooLarge \<and> parent_full D s (components path) \<or>
          e = NoSpace \<and> no_room D s 1))"
proof (cases "components path = [] \<or> (\<exists>e. tree_walk (kinds D s) (entries D s) ROOT_INODE (butlast (components path)) = Inl e)")
  case True
  then show ?thesis
    using wf by (auto simp: mkdir_def bindE_def resolve_parent_run [OF wf] unreachable_def)
next
  case False
  define ps n where "ps = butlast (components path)" and "n = last (components path)"
  have path: "components path = ps @ [n]" using False by (simp add: ps_def n_def)
  obtain p where p: "tree_walk (kinds D s) (entries D s) ROOT_INODE ps = Inr p"
    using False unfolding ps_def by (cases "tree_walk (kinds D s) (entries D s) ROOT_INODE (butlast (components path))") auto
  note g = wf_parts [OF wf]
  have pl: "p < inode_count (sb s)" "kinds D s p \<noteq> KIND_FREE"
    using walk_in_table [OF wf g(4) _ p] g(5) by simp_all
  have rp: "resolve_parent D path s = Some (Inr (p, n), s)"
    using False p by (simp add: resolve_parent_run [OF wf] ps_def n_def)
  have la: "attempt (dir_lookup D p n) s = Some (Inr (dir_find (kinds D s) (entries D s) p n), s)"
    by (simp add: attempt_def dir_lookup_run [OF wf pl(1)])
  have run: "mkdir D path s =
      (case dir_find (kinds D s) (entries D s) p n of Inr _ \<Rightarrow> throw Exists | Inl _ \<Rightarrow> create D p n KIND_DIR) s"
    unfolding mkdir_def create_def
    by (simp only: bindE_simps(3) [where m = "resolve_parent D path", OF rp] prod.case
        bindE_simps(3) [where m = "attempt (dir_lookup D p n)", OF la] split: sum.split)
  have nk: "not_kind D s (butlast (components path)) KIND_DIR" if "kinds D s p \<noteq> KIND_DIR"
    using that p by (simp add: not_kind_def ps_def)
  have pfull: "parent_full D s (components path)" if "23 < length n \<or> 96 \<le> length (entries D s p)"
    using that p by (auto simp: parent_full_def ps_def n_def)
  have dirok: "KIND_DIR \<noteq> KIND_FREE" by simp
  show ?thesis
  proof (cases "dir_find (kinds D s) (entries D s) p n")
    case (Inr i)
    then show ?thesis using run wf p by (simp add: throw_def path tree_walk_append)
  next
    case (Inl e0)
    then have r: "mkdir D path s = create D p n KIND_DIR s" using run by simp
    from create_run [OF wf pl dirok, of n] show ?thesis
    proof (elim disjE exE conjE, goal_cases)
      case (1 ino s1)
      then have nf: "dir_find (kinds D s) (entries D s) p n = Inl FsNotFound"
        using Inl lookup_cases [of "kinds D s" "entries D s" p n] by auto
      note made = created_meaning [OF wf p 1(3) nf 1(2) dirok 1(4,6)]
      show ?case
        using r 1(1) made by (auto simp: path entries_def)
    qed (use r wf leaked_meaning [OF wf _ dirok] pfull nk in \<open>auto simp: path no_room_def\<close>)
  qed
qed

lemma free_all_blocks_run:
  assumes "good D valid s" "\<forall>l \<in> set ls. in_data (sb s) l"
  shows "\<exists>s'. free_all_blocks D ls s = Some (Inr (), s') \<and>
    shows_view D valid (sb s) s' (inodes D s) (\<lambda>l. used D s l \<and> l \<notin> set ls) (vdata D s)"
  using assms
proof (induction ls arbitrary: s)
  case Nil
  then show ?case by (simp add: ret_def shows_view_def)
next
  case (Cons l ls)
  have l: "in_data (sb s) l" using Cons.prems(2) by simp
  obtain s1 where s1: "free_block D l s = Some (Inr (), s1)"
    "shows_view D valid (sb s) s1 (inodes D s) ((used D s)(l := False)) (vdata D s)"
    using free_block_run [OF Cons.prems(1) l] by blast
  have "good D valid s1" "\<forall>l \<in> set ls. in_data (sb s1) l" using s1(2) Cons.prems(2) by (simp_all add: shows_view_def)
  from Cons.IH [OF this] obtain s2 where s2: "free_all_blocks D ls s1 = Some (Inr (), s2)"
    "shows_view D valid (sb s1) s2 (inodes D s1) (\<lambda>l. used D s1 l \<and> l \<notin> set ls) (vdata D s1)" by blast
  have "(\<lambda>x. used D s1 x \<and> x \<notin> set ls) = (\<lambda>x. used D s x \<and> x \<notin> set (l # ls))"
    using s1(2) by (auto simp: shows_view_def)
  then show ?case
    using s1 s2 in_data_nonzero [OF good_sb [OF Cons.prems(1)] l] by (auto simp: bindE_def shows_view_def)
qed

lemma remove_file_run:
  assumes wf: "fs_wf D valid s"
  shows "(\<exists>i s'. remove_file D path s = Some (Inr (), s') \<and> tree_walk (kinds D s) (entries D s) ROOT_INODE (components path) = Inr i \<and>
      kinds D s i = KIND_FILE \<and> fs_wf D valid s' \<and> meaning D s' (components path) = Inl FsNotFound \<and>
      (\<forall>cs. \<not> within cs (components path) \<longrightarrow> meaning D s' cs = meaning D s cs) \<and>
      kinds D s' = (kinds D s)(i := KIND_FREE) \<and> (\<forall>l \<in> set (blocks (inodes D s i)). \<not> used D s' l) \<and> sb s' = sb s) \<or>
    (\<exists>e. remove_file D path s = Some (Inl e, s) \<and>
      (tree_walk (kinds D s) (entries D s) ROOT_INODE (components path) = Inl e \<or>
       e = FsNotFound \<and> components path = [] \<or> e = WrongKind \<and> not_kind D s (components path) KIND_FILE))"
proof (cases "components path = [] \<or> (\<exists>e. tree_walk (kinds D s) (entries D s) ROOT_INODE (butlast (components path)) = Inl e)")
  case True
  then show ?thesis
    using tree_walk_append [of "kinds D s" "entries D s" ROOT_INODE "butlast (components path)" "[last (components path)]"]
    by (cases "components path = []") (auto simp: remove_file_def bindE_def resolve_parent_run [OF wf])
next
  case False
  define ps n where "ps = butlast (components path)" and "n = last (components path)"
  have path: "components path = ps @ [n]" using False by (simp add: ps_def n_def)
  obtain p where p: "tree_walk (kinds D s) (entries D s) ROOT_INODE ps = Inr p"
    using False unfolding ps_def by (cases "tree_walk (kinds D s) (entries D s) ROOT_INODE (butlast (components path))") auto
  note g = wf_parts [OF wf]
  have t: "tree_wf (inode_count (sb s)) (kinds D s) (links_of \<circ> bytes_of D s)" using wf by (simp add: fs_wf_def entries_comp)
  have alloc: "alloc_wf D s" using wf by (simp add: fs_wf_def)
  have pl: "p < inode_count (sb s)" using walk_in_table [OF wf g(4) _ p] g(5) by simp
  have rp: "resolve_parent D path s = Some (Inr (p, n), s)"
    using False p by (simp add: resolve_parent_run [OF wf] ps_def n_def)
  show ?thesis
  proof (cases "dir_find (kinds D s) (entries D s) p n")
    case (Inl e)
    then show ?thesis
      using rp p by (simp add: remove_file_def bindE_def dir_lookup_run [OF wf pl] path tree_walk_append)
  next
    case (Inr i)
    note li = lookup_in_table [OF wf pl Inr]
    have w: "tree_walk (kinds D s) (entries D s) ROOT_INODE (ps @ [n]) = Inr i" using p Inr by (simp add: tree_walk_append)
    let ?bl = "blocks (inodes D s i)"
    have run: "remove_file D path s = (if kinds D s i \<noteq> KIND_FILE then throw WrongKind else
        bindE (free_all_blocks D ?bl) (\<lambda>_. bindE (write_inode D i (empty_inode KIND_FREE)) (\<lambda>_. dir_remove D p n))) s"
      using rp Inr read_inode_run [OF g(1) li(1)] by (simp add: remove_file_def bindE_def dir_lookup_run [OF wf pl] kinds_def blocks_def)
    show ?thesis
    proof (cases "kinds D s i = KIND_FILE")
      case False
      then show ?thesis using run w by (simp add: throw_def path not_kind_def)
    next
      case True
      have ok: "inode_ok D s (inodes D s i)" by (rule g(2) [OF li(1,2)])
      obtain s1 where s1: "free_all_blocks D ?bl s = Some (Inr (), s1)"
        "shows_view D valid (sb s) s1 (inodes D s) (\<lambda>l. used D s l \<and> l \<notin> set ?bl) (vdata D s)"
        using free_all_blocks_run [OF g(1), of ?bl] ok by (auto simp: inode_ok_def)
      have v1: "good D valid s1" "sb s1 = sb s" "inodes D s1 = inodes D s" "kinds D s1 = kinds D s" "bytes_of D s1 = bytes_of D s"
        "used D s1 = (\<lambda>l. used D s l \<and> l \<notin> set ?bl)"
        using s1(2) unfolding shows_view_def kinds_def [abs_def] bytes_of_def [abs_def] by simp_all
      have apart: "set (blocks (inodes D s1 a)) \<inter> set (blocks (inodes D s1 b)) = {}"
        if "a < inode_count (sb s1)" "b < inode_count (sb s1)" "a \<noteq> b" "kinds D s1 a \<noteq> KIND_FREE" "kinds D s1 b \<noteq> KIND_FREE" for a b
        using alloc that unfolding v1(2,3,4) alloc_wf_def by blast
      have ok1: "inode_ok D s1 (inodes D s1 j)" if "j < inode_count (sb s1)" "j \<noteq> i" "kinds D s1 j \<noteq> KIND_FREE" for j
        using apart [OF that(1) _ that(2) that(3)] g(2) [of j] that li(1,2) by (auto simp: v1 inode_ok_def)
      have "i < inode_count (sb s1)" using li(1) v1(2) by simp
      from empty_evolves [OF v1(1) this ok1 apart, of KIND_FREE] obtain s2 where s2: "write_inode D i (empty_inode KIND_FREE) s1 = Some (Inr (), s2)"
        "evolves D valid s1 s2 ((kinds D s1)(i := KIND_FREE)) ((bytes_of D s1)(i := []))" "used D s2 = used D s1" by blast
      have v2: "good D valid s2" "sb s2 = sb s" "alloc_wf D s2" "kinds D s2 = (kinds D s)(i := KIND_FREE)"
        "\<And>j. j < inode_count (sb s) \<Longrightarrow> ((kinds D s)(i := KIND_FREE)) j \<noteq> KIND_FREE \<Longrightarrow> bytes_of D s2 j = bytes_of D s j"
        using s2(2) v1 by (auto simp: evolves_def)
      have pi: "p \<noteq> i" using True li(5) by auto
      have p2: "p < inode_count (sb s2)" "kinds D s2 p = KIND_DIR" "entries D s2 p = entries D s p"
        using pl li(5) pi v2(5) [OF pl] by (simp_all add: v2(2,4) entries_def)
      have live: "links_live D s2 p" using g(3) [OF pl li(5)] p2(3) v2(2) by (simp add: links_live_def)
      have nin: "n \<in> snd ` set (entries D s2 p)" using li(4) unfolding p2(3) by force
      obtain s3 where s3: "dir_remove D p n s2 = Some (Inr (), s3)"
        "evolves D valid s2 s3 (kinds D s2) ((bytes_of D s2)(p := enc (filter (\<lambda>(_, m). m \<noteq> n) (entries D s2 p))))"
        "\<forall>l. used D s3 l \<longrightarrow> used D s2 l"
        using dir_remove_run [OF v2(1,3) p2(1,2) live nin] by blast
      let ?F = "(bytes_of D s)(p := enc (filter (\<lambda>(_, m). m \<noteq> n) (links_of (bytes_of D s p))))"
      have ev: "evolves D valid s s3 ((kinds D s)(i := KIND_FREE)) ?F"
        using s3(2) v2 p2(3) unfolding evolves_def entries_def by (simp add: v2(4))
      note tree = removed_tree [OF t g(4) p [unfolded entries_comp] Inr [unfolded entries_comp] True refl refl]
      note after = evolves_wf [OF ev g(1) tree(1)]
      have freed: "\<forall>l \<in> set ?bl. \<not> used D s3 l" using s3(3) s2(3) v1(6) by auto
      have "remove_file D path s = Some (Inr (), s3)"
        using run True s1(1) s2(1) s3(1) by (simp add: bindE_def)
      then show ?thesis
        using w True after tree(2,3) freed ev unfolding path
        by (intro disjI1 exI [of _ i] exI [of _ s3]) (simp add: meaning_def entries_comp evolves_def)
    qed
  qed
qed

end

end
