(* ===== verification/Fs_Format.thy ===== *)
theory Fs_Format
  imports Fs_Ops
begin

text \<open>
  Creating and opening a volume: the search for the bitmap size stops after at most two rounds, a
  formatted volume is well formed and empty, and mounting a device gives back the volume that was
  last written to it.
\<close>

section \<open>The layout\<close>

lemma div_ceil_le: "0 < b \<Longrightarrow> div_ceil a b \<le> a"
  by (simp add: div_ceil_le_iff)

lemma unat_div_ceil: "0 < unat b \<Longrightarrow> unat (u64_div_ceil a b) = div_ceil (unat a) (unat b)"
  using div_ceil_le [of "unat b" "unat a"] unat_u64_less [of a]
  by (simp add: u64_div_ceil_def unat_of_nat_u64 order.strict_trans1)

definition bitmap_fits :: "u64 \<Rightarrow> u64 \<Rightarrow> u64 \<Rightarrow> bool" where
  "bitmap_fits tot ib bb \<longleftrightarrow> 1 \<le> unat bb \<and> 1 + unat bb + unat ib < unat tot \<and>
     unat tot - (1 + unat bb + unat ib) \<le> 4096 * unat bb"

lemma needed_bits:
  "unat (max (u64_div_ceil a (of_nat (BLOCK_SIZE * 8))) 1) = max (div_ceil (unat a) 4096) 1"
  using unat_div_ceil [of "of_nat (BLOCK_SIZE * 8)" a]
  by (auto simp: BLOCK_SIZE_def max_def word_le_nat_alt)

lemma bitmap_round:
  assumes "unat bb + unat ib < 2 ^ 63"
  shows "bitmap_loop tot ib bb =
    (if unat tot \<le> 1 + unat bb + unat ib then Some (Inl NoSpace)
     else let needed = of_nat (max (div_ceil (unat tot - (1 + unat bb + unat ib)) 4096) 1) in
       if unat (needed :: u64) \<le> unat bb then Some (Inr bb) else bitmap_loop tot ib needed)"
proof -
  have o: "unat (1 + bb + ib) = 1 + unat bb + unat ib"
    using assms by (simp add: unat_word_ariths)
  have n: "max (u64_div_ceil a (of_nat (BLOCK_SIZE * 8))) 1 = of_nat (max (div_ceil (unat a) 4096) 1)" for a
    by (metis needed_bits of_nat_unat ucast_id)
  have d: "unat (tot - (1 + bb + ib)) = unat tot - (1 + unat bb + unat ib)" if "1 + unat bb + unat ib < unat tot"
    using that o by (subst unat_sub) (simp_all add: word_le_nat_alt)
  show ?thesis
  proof (cases "1 + unat bb + unat ib < unat tot")
    case True
    then show ?thesis
      unfolding Let_def by (subst bitmap_loop.simps) (simp only: Let_def n word_le_nat_alt o d not_le simp_thms if_False)
  next
    case False
    then show ?thesis
      by (subst bitmap_loop.simps) (simp add: Let_def word_le_nat_alt o)
  qed
qed

text \<open>
  The second round asks for no more than the first, so the loop stops there. It refuses exactly the
  devices that cannot hold the metadata and one data block.
\<close>

lemma bitmap_loop_stops:
  assumes "unat ib \<le> 2 ^ 32"
  shows "unat tot \<le> 2 + unat ib \<Longrightarrow> bitmap_loop tot ib 1 = Some (Inl NoSpace)"
    and "2 + unat ib < unat tot \<Longrightarrow> \<exists>bb. bitmap_loop tot ib 1 = Some (Inr bb) \<and> bitmap_fits tot ib bb"
proof -
  let ?x = "unat tot - (2 + unat ib)"
  let ?n = "max (div_ceil ?x 4096) 1"
  have "div_ceil ?x 4096 \<le> 2 ^ 52"
    using unat_u64_less [of tot] by (simp add: div_ceil_le_iff)
  then have small: "?n \<le> 2 ^ 52" by simp
  have un: "unat (of_nat ?n :: u64) = ?n" by (rule unat_of_nat_u64, rule order.strict_trans1 [OF small]) simp
  have bound: "?x \<le> 4096 * ?n" "4096 * ?n \<le> ?x + 4096"
    using div_ceil_bounds [of 4096 ?x] by linarith+
  have first: "bitmap_loop tot ib 1 =
      (if unat tot \<le> 2 + unat ib then Some (Inl NoSpace) else if ?n \<le> 1 then Some (Inr 1) else bitmap_loop tot ib (of_nat ?n))"
    using bitmap_round [of 1 ib tot] assms un by (simp add: Let_def)
  then show "bitmap_loop tot ib 1 = Some (Inl NoSpace)" if "unat tot \<le> 2 + unat ib" using that by simp
  assume big: "2 + unat ib < unat tot"
  show "\<exists>bb. bitmap_loop tot ib 1 = Some (Inr bb) \<and> bitmap_fits tot ib bb"
  proof (cases "?n \<le> 1")
    case True
    then have "bitmap_fits tot ib 1" using big bound by (simp add: bitmap_fits_def)
    then show ?thesis using first big True by simp
  next
    case False
    define n :: u64 where "n = of_nat ?n"
    define m where "m = max (div_ceil (unat tot - (1 + unat n + unat ib)) 4096) 1"
    have nn: "unat n = ?n" unfolding n_def by (rule un)
    have room: "1 + unat n + unat ib < unat tot" using False bound big unfolding nn by linarith
    have "unat tot - (1 + unat n + unat ib) \<le> ?x" using False unfolding nn by linarith
    then have "m \<le> unat n" using bound(1) unfolding m_def nn by (simp add: div_ceil_le_iff)
    moreover from this have "unat (of_nat m :: u64) = m"
      using unat_u64_less [of n] by (intro unat_of_nat_u64) linarith
    moreover have "unat n + unat ib < 2 ^ 63"
      unfolding nn by (rule order.strict_trans1 [OF add_mono [OF small assms]]) simp
    ultimately have "bitmap_loop tot ib n = Some (Inr n)"
      using bitmap_round [of n ib tot, folded m_def] room by (simp add: Let_def)
    moreover have "bitmap_fits tot ib n"
    proof -
      have "?x \<le> 4096 * unat n" "1 < unat n" using bound(1) False unfolding nn by simp_all
      then show ?thesis using room by (simp add: bitmap_fits_def)
    qed
    moreover have "bitmap_loop tot ib 1 = bitmap_loop tot ib n"
      unfolding n_def using first False big by (simp only: not_le [symmetric] if_False)
    ultimately show ?thesis by auto
  qed
qed

definition inode_table_blocks :: "u32 \<Rightarrow> nat" where
  "inode_table_blocks n = div_ceil (unat n) 8"

lemma layout_run:
  shows "unat tot \<le> 2 + inode_table_blocks n \<Longrightarrow> layout tot n = Some (Inl NoSpace)"
    and "2 + inode_table_blocks n < unat tot \<Longrightarrow> \<exists>b. layout tot n = Some (Inr b) \<and> inode_count b = n \<and>
      total_blocks b = tot \<and> (0 < n \<longrightarrow> sb_wf b tot) \<and> bitmap_start b = 1 \<and> unat (inode_start b) = 1 + unat (bitmap_blocks b) \<and>
      unat (data_start b) = unat (inode_start b) + inode_table_blocks n \<and> unat (data_start b) + unat (data_blocks b) = unat tot \<and>
      0 < data_blocks b"
proof -
  let ?ib = "u64_div_ceil (ucast n) (of_nat (BLOCK_SIZE div INODE_SIZE)) :: u64"
  have n32: "unat n < 2 ^ 32" using unsigned_less [of n, where 'a = nat] by simp
  then have "unat n < 2 ^ 64" by simp
  then have "unat (ucast n :: u64) = unat n" by (simp add: unsigned_ucast_eq take_bit_nat_eq_self)
  then have ib: "unat ?ib = inode_table_blocks n"
    using unat_div_ceil [of "of_nat (BLOCK_SIZE div INODE_SIZE)" "ucast n :: u64"]
    by (simp add: BLOCK_SIZE_def INODE_SIZE_def inode_table_blocks_def)
  have "unat ?ib \<le> 2 ^ 32"
    unfolding ib inode_table_blocks_def using div_ceil_le [of 8 "unat n"] n32 by simp
  note stops = bitmap_loop_stops [OF this, of tot, unfolded ib]
  show "layout tot n = Some (Inl NoSpace)" if "unat tot \<le> 2 + inode_table_blocks n"
    using stops(1) [OF that] by (simp add: layout_def Let_def)
  assume "2 + inode_table_blocks n < unat tot"
  then obtain bb where bb: "bitmap_loop tot ?ib 1 = Some (Inr bb)" "bitmap_fits tot ?ib bb"
    using stops(2) by blast
  have le: "1 \<le> unat bb" "1 + unat bb + inode_table_blocks n < unat tot"
    "unat tot - (1 + unat bb + inode_table_blocks n) \<le> 4096 * unat bb"
    using bb(2) by (simp_all add: bitmap_fits_def ib)
  have sum: "1 + unat bb + inode_table_blocks n < 2 ^ 64" using le(2) unat_u64_less [of tot] by linarith
  then have u: "unat (1 + bb) = 1 + unat bb" "unat (1 + bb + ?ib) = 1 + unat bb + inode_table_blocks n"
    by (simp_all add: unat_word_ariths ib)
  have d: "unat (tot - (1 + bb + ?ib)) = unat tot - (1 + unat bb + inode_table_blocks n)"
    using le(2) u(2) by (subst unat_sub) (simp_all add: word_le_nat_alt)
  let ?b = "\<lparr>total_blocks = tot, bitmap_start = 1, bitmap_blocks = bb, inode_start = 1 + bb, inode_count = n,
    data_start = 1 + bb + ?ib, data_blocks = tot - (1 + bb + ?ib)\<rparr>"
  have "layout tot n = Some (Inr ?b)" using bb(1) by (simp add: layout_def Let_def)
  moreover have "0 < n \<longrightarrow> sb_wf ?b tot"
    using u d le by (simp add: sb_wf_def inode_blocks_def inode_table_blocks_def)
  moreover have "0 < tot - (1 + bb + ?ib)"
    using le(2) by (simp add: word_less_nat_alt [of 0] d)
  ultimately show "\<exists>b. layout tot n = Some (Inr b) \<and> inode_count b = n \<and>
      total_blocks b = tot \<and> (0 < n \<longrightarrow> sb_wf b tot) \<and> bitmap_start b = 1 \<and> unat (inode_start b) = 1 + unat (bitmap_blocks b) \<and>
      unat (data_start b) = unat (inode_start b) + inode_table_blocks n \<and> unat (data_start b) + unat (data_blocks b) = unat tot \<and>
      0 < data_blocks b"
    using u d le(2) by (intro exI [of _ ?b]) simp
qed

section \<open>The superblock on disk\<close>

definition superblock_bytes :: "superblock \<Rightarrow> u8 list" where
  "superblock_bytes b = to_le 8 FS_MAGIC @ to_le 4 FS_VERSION @ to_le 4 (inode_count b) @ to_le 8 (total_blocks b) @
     to_le 8 (bitmap_start b) @ to_le 8 (bitmap_blocks b) @ to_le 8 (inode_start b) @ to_le 8 (data_start b) @ to_le 8 (data_blocks b)"

lemma superblock_write_to_run:
  "64 \<le> length buf \<Longrightarrow> superblock_write_to b buf = Some (Inr (superblock_bytes b @ drop 64 buf))"
proof -
  assume len: "64 \<le> length buf"
  let ?fs = "[FU64 FS_MAGIC, FU32 FS_VERSION, FU32 (inode_count b), FU64 (total_blocks b), FU64 (bitmap_start b),
    FU64 (bitmap_blocks b), FU64 (inode_start b), FU64 (data_start b), FU64 (data_blocks b)]"
  have bytes: "concat (map field_bytes ?fs) = superblock_bytes b"
    by (simp add: superblock_bytes_def)
  have "length (superblock_bytes b) = 64" by (simp add: superblock_bytes_def)
  moreover have "bindE (put_u64 x) ret = put_u64 x" for x
    by (simp add: fun_eq_iff bindE_def ret_def split: option.split prod.split sum.split)
  ultimately show ?thesis
    using put_fields_whole [of ?fs buf] len unfolding bytes
    by (simp add: superblock_write_to_def as_corrupt_def)
qed

lemma from_le_replicate: "from_le (replicate n 0) = (0 :: 'a::len word)"
  by (induction n) simp_all

lemma superblock_read_from_bytes: "superblock_read_from (superblock_bytes b @ rest) = Some (Inr b)"
  by (simp add: superblock_read_from_def as_corrupt_def bindE_def ret_def reader_new_def reader_wf_def reader_remaining_def
      get_u32_run get_u64_run superblock_bytes_def from_le_to_le)

section \<open>Format and mount\<close>

context block_device
begin

lemma device_write:
  assumes "valid (dev s)" "l < block_count D (dev s)" "length buf = 512"
  shows "\<exists>s'. dev_write D l buf s = Some (Inr (), s') \<and> valid (dev s') \<and> sb s' = sb s \<and>
    block_count D (dev s') = block_count D (dev s) \<and> blk D s' = (blk D s)(l := buf)"
proof -
  obtain d' where "write_blocks D l 1 buf (dev s) = (Inr (), d')" "valid d'"
    "block_count D d' = block_count D (dev s)"
    "\<forall>k. read_blocks D d' k 1 BLOCK_SIZE = (if k = l then Inr buf else read_blocks D (dev s) k 1 BLOCK_SIZE)"
    using write_in [of "dev s" l buf] assms by (auto simp: BLOCK_SIZE_def)
  then show ?thesis
    by (intro exI [of _ "s\<lparr>dev := d'\<rparr>"]) (simp add: dev_write_def ret_def blk_def fun_eq_iff)
qed

lemma zero_blocks_run:
  assumes "valid (dev s)" "\<forall>b \<in> set bs. start + of_nat b < block_count D (dev s)"
  shows "\<exists>s'. zero_blocks D start bs s = Some (Inr (), s') \<and> valid (dev s') \<and> sb s' = sb s \<and>
    block_count D (dev s') = block_count D (dev s) \<and>
    (\<forall>l. blk D s' l = (if \<exists>b \<in> set bs. l = start + of_nat b then replicate 512 0 else blk D s l))"
  using assms
proof (induction bs arbitrary: s)
  case (Cons b bs)
  then obtain s1 where s1: "dev_write D (start + of_nat b) (replicate BLOCK_SIZE 0) s = Some (Inr (), s1)" "valid (dev s1)"
      "sb s1 = sb s" "block_count D (dev s1) = block_count D (dev s)"
      "blk D s1 = (blk D s)(start + of_nat b := replicate 512 0)"
    using device_write [of s "start + of_nat b" "replicate BLOCK_SIZE 0"] by (auto simp: BLOCK_SIZE_def)
  then obtain s2 where "zero_blocks D start bs s1 = Some (Inr (), s2)" "valid (dev s2)" "sb s2 = sb s1"
      "block_count D (dev s2) = block_count D (dev s1)"
      "\<forall>l. blk D s2 l = (if \<exists>b \<in> set bs. l = start + of_nat b then replicate 512 0 else blk D s1 l)"
    using Cons.IH [of s1] Cons.prems by auto
  then show ?case
    using s1 by (intro exI [of _ s2]) (auto simp: bindE_def)
qed (simp add: ret_def)

text \<open>A contiguous run of blocks is zeroed, and no other block.\<close>

lemma zero_region_run:
  assumes "valid (dev s)" "unat start + n \<le> unat (block_count D (dev s))"
  shows "\<exists>s'. zero_blocks D start [0 ..< n] s = Some (Inr (), s') \<and> valid (dev s') \<and> sb s' = sb s \<and>
    block_count D (dev s') = block_count D (dev s) \<and>
    (\<forall>l. blk D s' l = (if unat start \<le> unat l \<and> unat l < unat start + n then replicate 512 0 else blk D s l))"
proof -
  have lt: "unat start + n < 2 ^ 64" using assms(2) unat_u64_less [of "block_count D (dev s)"] by linarith
  have u: "unat (start + of_nat b) = unat start + b" if "b < n" for b
    using that lt unat_of_nat_u64 [of b] by (simp add: unat_word_ariths)
  have in_dev: "\<forall>b \<in> set [0 ..< n]. start + of_nat b < block_count D (dev s)"
    using u assms(2) by (auto simp: word_less_nat_alt)
  have mem: "(\<exists>b \<in> set [0 ..< n]. l = start + of_nat b) \<longleftrightarrow> unat start \<le> unat l \<and> unat l < unat start + n" for l
  proof
    assume "unat start \<le> unat l \<and> unat l < unat start + n"
    then have "unat l - unat start < n" "unat (start + of_nat (unat l - unat start)) = unat l" using u by auto
    then show "\<exists>b \<in> set [0 ..< n]. l = start + of_nat b" by (intro bexI [of _ "unat l - unat start"]) (simp_all add: word_unat_eq_iff)
  qed (auto simp: u)
  from zero_blocks_run [OF assms(1) in_dev] show ?thesis unfolding mem .
qed

lemma fresh_volume:
  assumes g: "good D valid s" and i: "inodes D s = (\<lambda>_. empty_inode KIND_FREE)(ROOT_INODE := empty_inode KIND_DIR)"
  shows "fs_wf D valid s" "entries D s ROOT_INODE = []"
proof -
  have k: "kinds D s ino = (if ino = ROOT_INODE then KIND_DIR else KIND_FREE)" for ino
    by (simp add: kinds_def i empty_inode_def)
  have "bytes_of D s ROOT_INODE = []" by (simp add: bytes_of_def i file_bytes_def empty_inode_def)
  then show e: "entries D s ROOT_INODE = []" by (simp add: entries_def links_of.simps)
  have "alloc_wf D s" by (auto simp: alloc_wf_def k i split: if_splits)
  moreover have "tree_wf (inode_count (sb s)) (kinds D s) (entries D s)"
    by (auto simp: tree_wf_def k e split: if_splits)
  ultimately show "fs_wf D valid s" using g by (simp add: fs_wf_def)
qed

lemma zeroed_inode: "inode_of (replicate 64 0) = empty_inode KIND_FREE"
  by (simp add: inode_of_def empty_inode_def KIND_FREE_def DIRECT_BLOCKS_def upt_rec from_le_replicate)
    (simp add: eval_nat_numeral)

lemma zeroed_view:
  assumes g: "good D valid s"
    and z: "\<And>l. 1 \<le> unat l \<Longrightarrow> unat l < unat (data_start (sb s)) \<Longrightarrow> blk D s l = replicate 512 0"
  shows "inodes D s = (\<lambda>_. empty_inode KIND_FREE)" "used D s = (\<lambda>_. False)"
proof -
  note wf = good_sb [OF g]
  have "inodes D s ino = empty_inode KIND_FREE" for ino
  proof (cases "ino < inode_count (sb s)")
    case True
    have "blk D s (inode_lba (sb s) ino) = replicate 512 0"
      using inode_lba_bounds [OF wf True] wf by (intro z) (auto simp: sb_wf_def word_less_nat_alt)
    then show ?thesis
      using True off_in_block [of ino] zeroed_inode by (simp add: inodes_def inode_off_eq)
  qed (simp add: inodes_def)
  then show "inodes D s = (\<lambda>_. empty_inode KIND_FREE)" by blast
  have "\<not> used D s l" for l
  proof
    assume u: "used D s l"
    let ?i = "l - data_start (sb s)"
    have i: "?i < data_blocks (sb s)" using u in_data_index(1) [OF _ wf] by (auto simp: used_def)
    have "blk D s (bit_lba (sb s) ?i) = replicate 512 0"
      using bit_lba_bounds [OF wf i] wf by (intro z) (auto simp: sb_wf_def word_less_nat_alt)
    then show False using u by (simp add: used_def Let_def)
  qed
  then show "used D s = (\<lambda>_. False)" by blast
qed

text \<open>The metadata as it is before the root directory is written.\<close>

lemma format_metadata:
  assumes "valid d" and big: "2 + inode_table_blocks n < unat (block_count D d)"
  shows "\<exists>b s. layout (block_count D d) n = Some (Inr b) \<and> inode_count b = n \<and> total_blocks b = block_count D d \<and>
    (0 < n \<longrightarrow> sb_wf b (block_count D d)) \<and> valid (dev s) \<and> sb s = b \<and> block_count D (dev s) = block_count D d \<and>
    superblock_read_from (blk D s 0) = Some (Inr b) \<and>
    (\<forall>l. 1 \<le> unat l \<longrightarrow> unat l < unat (data_start b) \<longrightarrow> blk D s l = replicate 512 0) \<and>
    format D d n = map_option (\<lambda>(r, s). (case r of Inl e \<Rightarrow> Inl e | Inr _ \<Rightarrow> Inr s, dev s)) (write_inode D ROOT_INODE (empty_inode KIND_DIR) s)"
proof -
  obtain b where b: "layout (block_count D d) n = Some (Inr b)" "inode_count b = n" "total_blocks b = block_count D d"
      "0 < n \<longrightarrow> sb_wf b (block_count D d)" "bitmap_start b = 1" "unat (inode_start b) = 1 + unat (bitmap_blocks b)"
      "unat (data_start b) = unat (inode_start b) + inode_table_blocks n"
      "unat (data_start b) + unat (data_blocks b) = unat (block_count D d)" "0 < data_blocks b"
    using layout_run(2) [OF big] by blast
  let ?s = "\<lparr>dev = d, sb = b\<rparr>"
  have table: "unat (data_start b - inode_start b) = inode_table_blocks n"
    using b(7) by (subst unat_sub) (simp_all add: word_le_nat_alt)
  obtain s1 where s1: "zero_blocks D (bitmap_start b) [0 ..< unat (bitmap_blocks b)] ?s = Some (Inr (), s1)" "valid (dev s1)" "sb s1 = b"
      "block_count D (dev s1) = block_count D d"
      "\<forall>l. blk D s1 l = (if 1 \<le> unat l \<and> unat l < 1 + unat (bitmap_blocks b) then replicate 512 0 else blk D ?s l)"
    using zero_region_run [of ?s "bitmap_start b" "unat (bitmap_blocks b)"] assms b by auto
  obtain s2 where s2: "zero_blocks D (inode_start b) [0 ..< unat (data_start b - inode_start b)] s1 = Some (Inr (), s2)" "valid (dev s2)"
      "sb s2 = b" "block_count D (dev s2) = block_count D d"
      "\<forall>l. blk D s2 l = (if unat (inode_start b) \<le> unat l \<and> unat l < unat (inode_start b) + inode_table_blocks n then replicate 512 0 else blk D s1 l)"
    using zero_region_run [of s1 "inode_start b" "inode_table_blocks n"] s1 b unfolding table by auto
  let ?buf = "superblock_bytes b @ replicate 448 0"
  have wr: "superblock_write_to b (replicate BLOCK_SIZE 0) = Some (Inr ?buf)"
    using superblock_write_to_run [of "replicate BLOCK_SIZE 0" b] by (simp add: BLOCK_SIZE_def)
  obtain s3 where s3: "dev_write D 0 ?buf s2 = Some (Inr (), s3)" "valid (dev s3)" "sb s3 = b"
      "block_count D (dev s3) = block_count D d" "blk D s3 = (blk D s2)(0 := ?buf)"
    using device_write [of s2 0 ?buf] s2 big by (auto simp: superblock_bytes_def word_less_nat_alt)
  have "blk D s3 l = replicate 512 0" if "1 \<le> unat l" "unat l < unat (data_start b)" for l
    using that s3(3,5) s2(5) s1(5) b(6,7) by (auto simp: not_less)
  moreover have "format D d n = map_option (\<lambda>(r, s). (case r of Inl e \<Rightarrow> Inl e | Inr _ \<Rightarrow> Inr s, dev s))
      (write_inode D ROOT_INODE (empty_inode KIND_DIR) s3)"
    using b(1) s1(1) s2(1) wr s3(1) by (simp add: format_def bindE_def of_result_def)
  moreover have "superblock_read_from (blk D s3 0) = Some (Inr b)"
    using s3(5) superblock_read_from_bytes by simp
  ultimately show ?thesis using b(1-4) s3(2-4) by (intro exI [of _ b] exI [of _ s3]) blast
qed

lemma format_run:
  assumes "valid d"
  shows "unat (block_count D d) \<le> 2 + inode_table_blocks n \<Longrightarrow> format D d n = Some (Inl NoSpace, d)"
    and "2 + inode_table_blocks n < unat (block_count D d) \<Longrightarrow> n = 0 \<Longrightarrow> \<exists>d'. format D d n = Some (Inl FsNotFound, d')"
    and "2 + inode_table_blocks n < unat (block_count D d) \<Longrightarrow> 0 < n \<Longrightarrow>
      \<exists>s. format D d n = Some (Inr s, dev s) \<and> layout (block_count D d) n = Some (Inr (sb s)) \<and> fs_wf D valid s \<and>
        entries D s ROOT_INODE = [] \<and> (\<forall>l. \<not> used D s l) \<and> (\<forall>ino. ino \<noteq> ROOT_INODE \<longrightarrow> kinds D s ino = KIND_FREE)"
proof -
  show "format D d n = Some (Inl NoSpace, d)" if "unat (block_count D d) \<le> 2 + inode_table_blocks n"
    using layout_run(1) [OF that] by (simp add: format_def)
  assume "2 + inode_table_blocks n < unat (block_count D d)"
  then obtain b s where s: "layout (block_count D d) n = Some (Inr b)" "inode_count b = n"
      "0 < n \<longrightarrow> sb_wf b (block_count D d)" "valid (dev s)" "sb s = b" "block_count D (dev s) = block_count D d"
      "superblock_read_from (blk D s 0) = Some (Inr b)"
      "\<forall>l. 1 \<le> unat l \<longrightarrow> unat l < unat (data_start b) \<longrightarrow> blk D s l = replicate 512 0"
      "format D d n = map_option (\<lambda>(r, s). (case r of Inl e \<Rightarrow> Inl e | Inr _ \<Rightarrow> Inr s, dev s))
        (write_inode D ROOT_INODE (empty_inode KIND_DIR) s)"
    using format_metadata [OF assms, of n] by blast
  show "\<exists>d'. format D d n = Some (Inl FsNotFound, d')" if "n = 0"
    using s(2,5,9) that by (simp add: write_inode_def throw_def)
  assume n: "0 < n"
  then have g: "good D valid s" using s by (simp add: good_def)
  have view: "inodes D s = (\<lambda>_. empty_inode KIND_FREE)" "used D s = (\<lambda>_. False)"
    by (rule zeroed_view [OF g]; use s(5,8) in simp)+
  obtain s' where s': "write_inode D ROOT_INODE (empty_inode KIND_DIR) s = Some (Inr (), s')"
      "shows_view D valid (sb s) s' ((inodes D s)(ROOT_INODE := empty_inode KIND_DIR)) (used D s) (vdata D s)"
    using write_inode_run [OF g, of ROOT_INODE "empty_inode KIND_DIR"] n s(2,5)
    by (auto simp: ROOT_INODE_def empty_inode_def DIRECT_BLOCKS_def)
  have v: "good D valid s'" "sb s' = b" "inodes D s' = (\<lambda>_. empty_inode KIND_FREE)(ROOT_INODE := empty_inode KIND_DIR)" "used D s' = (\<lambda>_. False)"
    using s'(2) s(5) view by (simp_all add: shows_view_def)
  show "\<exists>s. format D d n = Some (Inr s, dev s) \<and> layout (block_count D d) n = Some (Inr (sb s)) \<and> fs_wf D valid s \<and>
        entries D s ROOT_INODE = [] \<and> (\<forall>l. \<not> used D s l) \<and> (\<forall>ino. ino \<noteq> ROOT_INODE \<longrightarrow> kinds D s ino = KIND_FREE)"
    using fresh_volume [OF v(1,3)] v s(1,9) s'(1) by (intro exI [of _ s']) (simp add: kinds_def empty_inode_def)
qed

lemma format_wf: "valid d \<Longrightarrow> format D d n = Some (Inr s, d') \<Longrightarrow> fs_wf D valid s"
  using format_run [of d n] by (cases "2 + inode_table_blocks n < unat (block_count D d)"; cases "n = 0")
    (auto simp: word_gt_0 not_less)

lemma list_dir_run:
  assumes "fs_wf D valid s"
  shows "list_dir D path s = Some
    (case tree_walk (kinds D s) (entries D s) ROOT_INODE (components path) of
       Inl e \<Rightarrow> Inl e
     | Inr ino \<Rightarrow>
         if kinds D s ino = KIND_DIR
         then Inr (map (\<lambda>(i, n). \<lparr>entry_inode = i, is_dir = (kinds D s i = KIND_DIR), entry_name = n\<rparr>) (entries D s ino))
         else Inl WrongKind, s)"
proof -
  note wf = wf_parts [OF assms]
  have "read_dir_entries D ino s = Some (if kinds D s ino = KIND_DIR
      then Inr (map (\<lambda>(i, n). (i, kinds D s i = KIND_DIR, n)) (entries D s ino)) else Inl WrongKind, s)"
    if "tree_walk (kinds D s) (entries D s) ROOT_INODE (components path) = Inr ino" for ino
    using walk_in_table [OF assms wf(4) _ that] wf(5) read_dir_entries_wrong [OF wf(1)]
      read_dir_entries_run [OF wf(1) _ wf(2) _ wf(3), of ino] by simp
  then show ?thesis
    by (auto simp: list_dir_def resolve_def bindE_def resolve_from_run [OF assms wf(4)] ret_def comp_def split: sum.split)
qed

lemma exists_run:
  assumes "fs_wf D valid s"
  shows "fs_exists D path s = Some (Inr (\<exists>i. tree_walk (kinds D s) (entries D s) ROOT_INODE (components path) = Inr i), s)"
  using resolve_from_run [OF assms wf_parts(4) [OF assms], of "components path"]
  by (auto simp: fs_exists_def resolve_def attempt_def bindE_def ret_def split: sum.split)

text \<open>Mounting the device of a volume gives back the volume, whatever was done to it since.\<close>

lemma mount_run: "good D valid s \<Longrightarrow> mount D (dev s) = Some (Inr s)"
proof -
  assume g: "good D valid s"
  have "0 < unat (block_count D (dev s))" using good_sb [OF g] by (auto simp: sb_wf_def)
  then have "read_blocks D (dev s) 0 1 BLOCK_SIZE = Inr (blk D s 0)"
    using read_in_blk(1) [OF g, of 0] by (simp add: word_less_nat_alt)
  then show ?thesis using g by (simp add: mount_def good_def)
qed

end

end
