(* ===== verification/Fs_Properties.thy ===== *)
theory Fs_Properties
  imports Fs_Format
begin

text \<open>
  What CIBOSFS promises to its callers, stated through the operations themselves, for any device
  that meets \<open>block_device\<close> and any well-formed volume on it. The witnesses run on a freshly
  formatted in-memory disk.
\<close>

section \<open>Reading through the meaning of a volume\<close>


context block_device
begin

lemma read_meaning: "fs_wf D valid s \<Longrightarrow> read_file D path s = Some (meaning D s (components path), s)"
  by (simp add: read_file_run meaning_def)

text \<open>
  A creation refused because of the name has already taken an inode, which no path leads to.
\<close>

lemma leaked_unreachable:
  assumes wf: "fs_wf D valid s" and i: "fresh_inode D s i" and k: "k \<noteq> KIND_FREE"
    and ev: "evolves D valid s s' ((kinds D s)(i := k)) ((bytes_of D s)(i := []))"
  shows "tree_walk (kinds D s') (entries D s') ROOT_INODE cs \<noteq> Inr i"
proof -
  have t: "tree_wf (inode_count (sb s)) (kinds D s) (entries D s)" using wf by (simp add: fs_wf_def)
  note root = wf_parts(4) [OF wf]
  have "tree_walk (kinds D s') (entries D s') ROOT_INODE cs = tree_walk (kinds D s) (entries D s) ROOT_INODE cs"
  proof (rule walk_same [OF t root])
    fix d m
    assume "d < inode_count (sb s)" "kinds D s d \<noteq> KIND_FREE"
    moreover from this have "d \<noteq> i" using i by (auto simp: fresh_inode_def)
    ultimately show "dir_find (kinds D s') (entries D s') d m = dir_find (kinds D s) (entries D s) d m"
      using ev by (intro lookup_cong) (simp_all add: evolves_def entries_def)
  qed
  then show ?thesis
    using walk_live [OF t root, of cs i] i by (auto simp: fresh_inode_def)
qed

lemma mkdir_long_name:
  assumes wf: "fs_wf D valid s" and path: "components path = ps @ [n]" "23 < length n"
    and p: "tree_walk (kinds D s) (entries D s) ROOT_INODE ps = Inr p" and i: "fresh_inode D s i"
  shows "\<exists>s' ino. mkdir D path s = Some (Inl FsTooLarge, s') \<and> fresh_inode D s ino \<and> kinds D s' ino = KIND_DIR \<and>
    (\<forall>cs. tree_walk (kinds D s') (entries D s') ROOT_INODE cs \<noteq> Inr ino)"
proof -
  have pl: "p < inode_count (sb s)" "kinds D s p \<noteq> KIND_FREE"
    using walk_in_table [OF wf wf_parts(4) [OF wf] _ p] wf_parts(5) [OF wf] by simp_all
  have "dir_find (kinds D s) (entries D s) p n \<noteq> Inr j" for j
    using lookup_link [of "kinds D s" "entries D s" p n j] entries_names [of j n D s p] path(2) by auto
  then obtain e where "dir_find (kinds D s) (entries D s) p n = Inl e"
    by (cases "dir_find (kinds D s) (entries D s) p n") auto
  then have run: "mkdir D path s = create D p n KIND_DIR s"
    using dir_lookup_run [OF wf pl(1), of n] resolve_parent_run [OF wf, of path] p path(1)
    by (simp add: mkdir_def bindE_def attempt_def create_def)
  have "\<exists>s' ino. create D p n KIND_DIR s = Some (Inl FsTooLarge, s') \<and> fresh_inode D s ino \<and>
      evolves D valid s s' ((kinds D s)(ino := KIND_DIR)) ((bytes_of D s)(ino := []))"
    using create_run [OF wf pl kinds_distinct(1), of n] path(2) i by (auto simp: not_le [symmetric])
  then show ?thesis
    using run leaked_unreachable [OF wf, of _ KIND_DIR] by (auto simp: evolves_def)
qed

end

section \<open>A formatted in-memory disk\<close>

lemma split_plain: "0x2F \<notin> set xs \<Longrightarrow> split_slash xs = [xs]"
  by (induction xs) auto

lemma disk_layout:
  "layout 64 16 = Some (Inr \<lparr>total_blocks = 64, bitmap_start = 1, bitmap_blocks = 1, inode_start = 2, inode_count = 16,
     data_start = 4, data_blocks = 60\<rparr>)"
  by (simp add: layout_def bitmap_loop.simps u64_div_ceil_def div_ceil_def BLOCK_SIZE_def INODE_SIZE_def)

lemma fresh_disk:
  "\<exists>s. format ram_dev (ram_disk_new 64) 16 = Some (Inr s, dev s) \<and> fs_wf ram_dev ram_valid s \<and>
     entries ram_dev s ROOT_INODE = [] \<and> kinds ram_dev s ROOT_INODE = KIND_DIR \<and> fresh_inode ram_dev s 1 \<and> free_count ram_dev s = 60"
proof -
  have c: "block_count ram_dev (ram_disk_new 64) = 64" by (simp add: ram_dev_def ram_disk_new_def)
  have "2 + inode_table_blocks 16 < unat (block_count ram_dev (ram_disk_new 64))" unfolding c by (simp add: inode_table_blocks_def div_ceil_def)
  from ram.format_run(3) [OF ram_disk_new_valid this] obtain s where s: "format ram_dev (ram_disk_new 64) 16 = Some (Inr s, dev s)"
      "layout 64 16 = Some (Inr (sb s))" "fs_wf ram_dev ram_valid s" "entries ram_dev s ROOT_INODE = []" "\<forall>l. \<not> used ram_dev s l"
      "\<forall>ino. ino \<noteq> ROOT_INODE \<longrightarrow> kinds ram_dev s ino = KIND_FREE"
    unfolding c by auto
  have "sb s = \<lparr>total_blocks = 64, bitmap_start = 1, bitmap_blocks = 1, inode_start = 2, inode_count = 16, data_start = 4, data_blocks = 60\<rparr>"
    using s(2) by (simp add: disk_layout)
  then have b: "inode_count (sb s) = 16" "data_start (sb s) = 4" "data_blocks (sb s) = 60" by simp_all
  have "unat ` {l. in_data (sb s) l} = {4 ..< 64}"
  proof
    show "{4 ..< 64} \<subseteq> unat ` {l. in_data (sb s) l}"
      by (rule subsetI, rule_tac x = "of_nat x" in image_eqI) (auto simp: in_data_def b word_le_nat_alt unat_of_nat_u64)
  qed (auto simp: in_data_def b word_le_nat_alt)
  moreover have "card (unat ` {l. in_data (sb s) l}) = card {l. in_data (sb s) l}"
    by (rule card_image) (simp add: inj_on_def word_unat_eq_iff)
  ultimately have "free_count ram_dev s = 60" using s(5) by (simp add: free_count_def)
  then show ?thesis
    using s b ram.wf_parts(5) [OF s(3)] by (intro exI [of _ s]) (simp add: fresh_inode_def ROOT_INODE_def)
qed

lemma fresh_disk_walk:
  assumes "entries D s ROOT_INODE = []" "kinds D s ROOT_INODE = KIND_DIR"
  shows "tree_walk (kinds D s) (entries D s) ROOT_INODE (c # cs) = Inl FsNotFound"
  using assms by (simp add: dir_find_def)

lemma not_refused: "(case r of Inl e \<Rightarrow> P e | Inr x \<Rightarrow> Q x) \<Longrightarrow> (\<And>e. \<not> P e) \<Longrightarrow> \<exists>x. r = Inr x \<and> Q x"
  by (cases r) auto

section \<open>The operations\<close>

text \<open>The errors a write or a creation may report, each with its cause.\<close>

definition write_denied :: "'d block_dev \<Rightarrow> 'd fs \<Rightarrow> u8 list list \<Rightarrow> nat \<Rightarrow> fs_error \<Rightarrow> bool" where
  "write_denied D s cs len e \<longleftrightarrow> unreachable D s cs e \<or>
     e = WrongKind \<and> (not_kind D s cs KIND_FILE \<or> not_kind D s (butlast cs) KIND_DIR) \<or>
     e = FsTooLarge \<and> (3072 < len \<or> parent_full D s cs) \<or>
     e = NoSpace \<and> no_room D s 7"

definition mkdir_denied :: "'d block_dev \<Rightarrow> 'd fs \<Rightarrow> u8 list list \<Rightarrow> fs_error \<Rightarrow> bool" where
  "mkdir_denied D s cs e \<longleftrightarrow> unreachable D s cs e \<or>
     e = Exists \<and> (\<exists>i. tree_walk (kinds D s) (entries D s) ROOT_INODE cs = Inr i) \<or>
     e = WrongKind \<and> not_kind D s (butlast cs) KIND_DIR \<or>
     e = FsTooLarge \<and> parent_full D s cs \<or> e = NoSpace \<and> no_room D s 1"

text \<open>
  C11. Writing a file never panics and keeps the volume well formed. On success, reading the path
  returns exactly the bytes written; on failure, a file that was there still has its old bytes, and
  the error is justified: the parent cannot be resolved, something on the path has the wrong kind,
  the data or the name is too long or the directory full, or the volume is out of inodes or of
  blocks. In both cases no path outside the one written reads differently.
\<close>

theorem write_file_correct:
  assumes "block_device D valid" "fs_wf D valid s"
  shows "\<exists>r s'. write_file D path d s = Some (r, s') \<and> fs_wf D valid s' \<and>
    (\<forall>q. \<not> within (components q) (components path) \<longrightarrow> map_option fst (read_file D q s') = map_option fst (read_file D q s)) \<and>
    (case r of
       Inr _ \<Rightarrow> read_file D path s' = Some (Inr d, s')
     | Inl e \<Rightarrow> write_denied D s (components path) (length d) e \<and>
         (\<forall>x. read_file D path s = Some (Inr x, s) \<longrightarrow> read_file D path s' = Some (Inr x, s')))"
proof -
  obtain r s' where run: "write_file D path d s = Some (r, s')" "fs_wf D valid s'"
      "\<forall>cs. \<not> within cs (components path) \<longrightarrow> meaning D s' cs = meaning D s cs"
      "case r of Inr _ \<Rightarrow> meaning D s' (components path) = Inr d
       | Inl e \<Rightarrow> (\<forall>x. meaning D s (components path) = Inr x \<longrightarrow> meaning D s' (components path) = Inr x) \<and>
           write_denied D s (components path) (length d) e"
    unfolding write_denied_def using block_device.write_file_run [OF assms, of path d] by blast
  note read = block_device.read_meaning [OF assms(1)]
  show ?thesis
    using run(3,4) by (intro exI [of _ r] exI [of _ s'] conjI run(1,2); cases r)
      (simp_all add: read [OF assms(2)] read [OF run(2)])
qed

theorem write_file_correct_witness:
  "\<exists>s r s'. format ram_dev (ram_disk_new 64) 16 = Some (Inr s, dev s) \<and>
     write_file ram_dev [0x2F, 0x61] [1, 2, 3] s = Some (Inr r, s') \<and> read_file ram_dev [0x2F, 0x61] s' = Some (Inr [1, 2, 3], s')"
proof -
  obtain s where s: "format ram_dev (ram_disk_new 64) 16 = Some (Inr s, dev s)" "fs_wf ram_dev ram_valid s"
      "entries ram_dev s ROOT_INODE = []" "kinds ram_dev s ROOT_INODE = KIND_DIR" "fresh_inode ram_dev s 1" "free_count ram_dev s = 60"
    using fresh_disk by blast
  have "\<not> write_denied ram_dev s (components [0x2F, 0x61]) (length [1, 2, 3 :: u8]) e" for e
    using fresh_disk_walk [OF s(3,4), of "[0x61]" "[]"] s
    by (auto simp: components_def write_denied_def unreachable_def not_kind_def parent_full_def no_room_def)
  then show ?thesis
    using s(1) write_file_correct [OF ram.block_device_axioms s(2), of "[0x2F, 0x61]" "[1, 2, 3]"]
    by (elim exE conjE, drule_tac not_refused) blast+
qed

text \<open>
  Creating a directory never panics and keeps the volume well formed. On success, the new
  directory is listed and empty, and no path outside it reads differently; on failure every path
  reads as before, and the error is justified.
\<close>

theorem mkdir_correct:
  assumes "block_device D valid" "fs_wf D valid s"
  shows "\<exists>r s'. mkdir D path s = Some (r, s') \<and> fs_wf D valid s' \<and>
    (case r of
       Inr ino \<Rightarrow> list_dir D path s' = Some (Inr [], s') \<and> fs_exists D path s' = Some (Inr True, s') \<and>
         (\<forall>q. \<not> within (components q) (components path) \<longrightarrow> map_option fst (read_file D q s') = map_option fst (read_file D q s))
     | Inl e \<Rightarrow> mkdir_denied D s (components path) e \<and>
         (\<forall>q. map_option fst (read_file D q s') = map_option fst (read_file D q s)))"
proof -
  obtain r s' where run: "mkdir D path s = Some (r, s')" "fs_wf D valid s'"
      "case r of Inr ino \<Rightarrow>
         (\<forall>cs. \<not> within cs (components path) \<longrightarrow> meaning D s' cs = meaning D s cs) \<and>
         tree_walk (kinds D s') (entries D s') ROOT_INODE (components path) = Inr ino \<and>
         kinds D s' ino = KIND_DIR \<and> entries D s' ino = []
       | Inl e \<Rightarrow> (\<forall>cs. meaning D s' cs = meaning D s cs) \<and> mkdir_denied D s (components path) e"
    unfolding mkdir_denied_def using block_device.mkdir_run [OF assms, of path] by blast
  note read = block_device.read_meaning [OF assms(1)]
  show ?thesis
    using run(3) by (intro exI [of _ r] exI [of _ s'] conjI run(1,2); cases r)
      (simp_all add: read [OF assms(2)] read [OF run(2)] block_device.list_dir_run [OF assms(1) run(2)] block_device.exists_run [OF assms(1) run(2)])
qed

theorem mkdir_correct_witness:
  "\<exists>s r s'. format ram_dev (ram_disk_new 64) 16 = Some (Inr s, dev s) \<and>
     mkdir ram_dev [0x2F, 0x64] s = Some (Inr r, s') \<and> list_dir ram_dev [0x64] s' = Some (Inr [], s')"
proof -
  obtain s where s: "format ram_dev (ram_disk_new 64) 16 = Some (Inr s, dev s)" "fs_wf ram_dev ram_valid s"
      "entries ram_dev s ROOT_INODE = []" "kinds ram_dev s ROOT_INODE = KIND_DIR" "fresh_inode ram_dev s 1" "free_count ram_dev s = 60"
    using fresh_disk by blast
  have "\<not> mkdir_denied ram_dev s (components [0x2F, 0x64]) e" for e
    using fresh_disk_walk [OF s(3,4), of "[0x64]" "[]"] s
    by (auto simp: components_def mkdir_denied_def unreachable_def not_kind_def parent_full_def no_room_def)
  moreover have "list_dir ram_dev [0x2F, 0x64] = list_dir ram_dev [0x64]"
    unfolding list_dir_def resolve_def components_def by simp
  ultimately show ?thesis
    using s(1) mkdir_correct [OF ram.block_device_axioms s(2), of "[0x2F, 0x64]"]
    by (elim exE conjE, drule_tac not_refused) (auto; blast)+
qed

text \<open>
  C13. Removing a file gives back all it held: the path is no longer found, its inode is free again
  and so is every data block it used, and no other path reads differently. When the operation
  fails, the volume is untouched and the path does not resolve, or names no regular file.
\<close>

theorem remove_file_reclaims:
  assumes "block_device D valid" "fs_wf D valid s"
  shows "(\<exists>i s'. remove_file D path s = Some (Inr (), s') \<and> fs_wf D valid s' \<and>
      tree_walk (kinds D s) (entries D s) ROOT_INODE (components path) = Inr i \<and>
      read_file D path s' = Some (Inl FsNotFound, s') \<and> fresh_inode D s' i \<and>
      (\<forall>l. l \<in> set (blocks (inodes D s i)) \<longrightarrow> \<not> used D s' l) \<and>
      (\<forall>q. \<not> within (components q) (components path) \<longrightarrow> map_option fst (read_file D q s') = map_option fst (read_file D q s))) \<or>
    (\<exists>e. remove_file D path s = Some (Inl e, s) \<and>
      (tree_walk (kinds D s) (entries D s) ROOT_INODE (components path) = Inl e \<or>
       e = FsNotFound \<and> components path = [] \<or> e = WrongKind \<and> not_kind D s (components path) KIND_FILE))"
  using block_device.remove_file_run [OF assms, of path]
proof (elim disjE exE conjE, goal_cases)
  case (1 i s')
  note read = block_device.read_meaning [OF assms(1)] and wf = block_device.wf_parts [OF assms]
  have "i < inode_count (sb s)" using block_device.walk_in_table [OF assms wf(4) _ 1(2)] wf(5) by simp
  moreover have "i \<noteq> 0" using 1(3) wf(5) by (auto simp: ROOT_INODE_def)
  moreover have "sb s' = sb s" using 1(9) by simp
  ultimately have "fresh_inode D s' i" using 1 by (simp add: fresh_inode_def)
  then show ?case
    using 1 by (intro disjI1 exI [of _ i] exI [of _ s']) (simp add: read [OF assms(2)] read [OF 1(4)])
qed auto

theorem remove_file_reclaims_witness:
  "\<exists>s r s' s''. format ram_dev (ram_disk_new 64) 16 = Some (Inr s, dev s) \<and>
     write_file ram_dev [0x61] [7] s = Some (Inr r, s') \<and> remove_file ram_dev [0x61] s' = Some (Inr (), s'') \<and>
     read_file ram_dev [0x61] s'' = Some (Inl FsNotFound, s'')"
proof -
  obtain s where s: "format ram_dev (ram_disk_new 64) 16 = Some (Inr s, dev s)" "fs_wf ram_dev ram_valid s"
      "entries ram_dev s ROOT_INODE = []" "kinds ram_dev s ROOT_INODE = KIND_DIR" "fresh_inode ram_dev s 1" "free_count ram_dev s = 60"
    using fresh_disk by blast
  have "\<not> write_denied ram_dev s (components [0x61]) (length [7 :: u8]) e" for e
    using fresh_disk_walk [OF s(3,4), of "[0x61]" "[]"] s
    by (auto simp: components_def write_denied_def unreachable_def not_kind_def parent_full_def no_room_def)
  then obtain r s' where w: "write_file ram_dev [0x61] [7] s = Some (Inr r, s')" "fs_wf ram_dev ram_valid s'"
      "meaning ram_dev s' (components [0x61]) = Inr [7]"
    using ram.write_file_run [OF s(2), of "[0x61]" "[7]"] unfolding write_denied_def
    by (elim exE conjE, drule_tac not_refused) blast+
  then have "\<nexists>e. remove_file ram_dev [0x61] s' = Some (Inl e, s') \<and>
      (tree_walk (kinds ram_dev s') (entries ram_dev s') ROOT_INODE (components [0x61]) = Inl e \<or>
       e = FsNotFound \<and> components [0x61] = [] \<or> e = WrongKind \<and> not_kind ram_dev s' (components [0x61]) KIND_FILE)"
    by (auto simp: meaning_def content_def not_kind_def components_def split: sum.splits if_splits)
  then show ?thesis
    using s(1) w(1) remove_file_reclaims [OF ram.block_device_axioms w(2), of "[0x61]"] by blast
qed

text \<open>
  C14. Formatting always returns. The bitmap search stops, and the outcome is determined by the size
  of the device and of the inode table: no space below three metadata blocks and the table, no root
  without inodes, and otherwise an empty volume with every other inode and every data block free.
\<close>

theorem format_total:
  assumes "block_device D valid" "valid d"
  shows "(if unat (block_count D d) \<le> 2 + div_ceil (unat n) 8 then format D d n = Some (Inl NoSpace, d)
    else if n = 0 then \<exists>d'. format D d n = Some (Inl FsNotFound, d')
    else \<exists>s. format D d n = Some (Inr s, dev s) \<and> fs_wf D valid s \<and> list_dir D [] s = Some (Inr [], s) \<and>
      (\<forall>l. \<not> used D s l) \<and> (\<forall>ino. ino \<noteq> ROOT_INODE \<longrightarrow> kinds D s ino = KIND_FREE))"
proof -
  note run = block_device.format_run [OF assms, of n, unfolded inode_table_blocks_def]
  show ?thesis
  proof (cases "2 + div_ceil (unat n) 8 < unat (block_count D d) \<and> 0 < n")
    case True
    then obtain s where "format D d n = Some (Inr s, dev s)" "fs_wf D valid s" "entries D s ROOT_INODE = []" "\<forall>l. \<not> used D s l"
        "\<forall>ino. ino \<noteq> ROOT_INODE \<longrightarrow> kinds D s ino = KIND_FREE"
      using run(3) by blast
    moreover from this have "list_dir D [] s = Some (Inr [], s)"
      using block_device.list_dir_run [OF assms(1), of s "[]"] block_device.wf_parts(5) [OF assms(1), of s] by (simp add: components_def)
    ultimately show ?thesis using True by (auto simp: not_le)
  next
    case False
    then show ?thesis using run(1,2) by (auto simp: word_gt_0)
  qed
qed

theorem format_total_witness:
  "\<exists>s. format ram_dev (ram_disk_new 64) 16 = Some (Inr s, dev s) \<and> list_dir ram_dev [] s = Some (Inr [], s)"
  using format_total [OF ram.block_device_axioms ram_disk_new_valid, of 64 16]
  by (auto simp: ram_dev_def ram_disk_new_def div_ceil_def)

section \<open>Sequences of operations\<close>

text \<open>The calls a client may make on a mounted volume, and the volume after one of them.\<close>

datatype fs_call =
    CallMkdir "u8 list" | CallWrite "u8 list" "u8 list" | CallRead "u8 list" | CallList "u8 list"
  | CallExists "u8 list" | CallRemove "u8 list"

fun fs_call_step :: "'d block_dev \<Rightarrow> fs_call \<Rightarrow> 'd fs \<Rightarrow> 'd fs option" where
  "fs_call_step D (CallMkdir p) s = map_option snd (mkdir D p s)"
| "fs_call_step D (CallWrite p d) s = map_option snd (write_file D p d s)"
| "fs_call_step D (CallRead p) s = map_option snd (read_file D p s)"
| "fs_call_step D (CallList p) s = map_option snd (list_dir D p s)"
| "fs_call_step D (CallExists p) s = map_option snd (fs_exists D p s)"
| "fs_call_step D (CallRemove p) s = map_option snd (remove_file D p s)"

fun fs_calls :: "'d block_dev \<Rightarrow> fs_call list \<Rightarrow> 'd fs \<Rightarrow> 'd fs option" where
  "fs_calls D [] s = Some s"
| "fs_calls D (c # cs) s = (case fs_call_step D c s of None \<Rightarrow> None | Some s' \<Rightarrow> fs_calls D cs s')"

context block_device
begin

lemma call_step_wf:
  assumes "fs_wf D valid s"
  shows "\<exists>s'. fs_call_step D c s = Some s' \<and> fs_wf D valid s'"
proof (cases c)
  case (CallMkdir p)
  then show ?thesis using mkdir_run [OF assms, of p] by auto
next
  case (CallWrite p d)
  then show ?thesis using write_file_run [OF assms, of p d] by auto
next
  case (CallRemove p)
  then show ?thesis using remove_file_run [OF assms, of p] assms by auto
qed (use assms in \<open>simp_all add: read_file_run list_dir_run exists_run\<close>)

lemma calls_wf: "fs_wf D valid s \<Longrightarrow> \<exists>s'. fs_calls D cs s = Some s' \<and> fs_wf D valid s'"
proof (induction cs arbitrary: s)
  case (Cons c cs)
  obtain s' where "fs_call_step D c s = Some s'" "fs_wf D valid s'" using call_step_wf [OF Cons.prems] by blast
  then show ?case using Cons.IH by simp
qed simp

end

text \<open>
  C12. Whatever a client asks of a formatted volume, in any order and with any paths and data, no
  call panics, the volume stays well formed (no inode is linked twice, no data block belongs to two
  inodes or is marked free while in use, names are unique, every link leads to a live inode), and
  mounting the device again gives the very same volume.
\<close>

theorem volume_survives:
  assumes "block_device D valid" "valid d" "format D d n = Some (Inr s, d')"
  shows "\<exists>s'. fs_calls D cs s = Some s' \<and> fs_wf D valid s' \<and> mount D (dev s') = Some (Inr s')"
  using block_device.calls_wf [OF assms(1) block_device.format_wf [OF assms], of cs]
    block_device.mount_run [OF assms(1)] by (auto simp: fs_wf_def)

theorem volume_survives_witness:
  "\<exists>s s'. format ram_dev (ram_disk_new 64) 16 = Some (Inr s, dev s) \<and>
     fs_calls ram_dev [CallMkdir [0x64], CallWrite [0x64, 0x2F, 0x66] [1], CallRemove [0x64]] s = Some s' \<and>
     mount ram_dev (dev s') = Some (Inr s')"
proof -
  obtain s where s: "format ram_dev (ram_disk_new 64) 16 = Some (Inr s, dev s)" using fresh_disk by blast
  then show ?thesis using volume_survives [OF ram.block_device_axioms ram_disk_new_valid s] by blast
qed

text \<open>
  C15. A directory whose name does not fit a directory entry is refused only after its inode has been
  allocated and written. The inode stays allocated, and no path leads to it, so no operation can
  free it again.
\<close>

theorem refused_mkdir_leaks_inode:
  assumes "block_device D valid" "fs_wf D valid s" "components path = ps @ [n]" "23 < length n"
    "tree_walk (kinds D s) (entries D s) ROOT_INODE ps = Inr p" "fresh_inode D s i"
  shows "\<exists>s' ino. mkdir D path s = Some (Inl FsTooLarge, s') \<and> kinds D s ino = KIND_FREE \<and> kinds D s' ino = KIND_DIR \<and>
    (\<forall>q. resolve D q s' \<noteq> Some (Inr ino, s'))"
proof -
  obtain s' ino where m: "mkdir D path s = Some (Inl FsTooLarge, s')" "fresh_inode D s ino" "kinds D s' ino = KIND_DIR"
      "\<forall>cs. tree_walk (kinds D s') (entries D s') ROOT_INODE cs \<noteq> Inr ino"
    using block_device.mkdir_long_name [OF assms] by blast
  have wf: "fs_wf D valid s'" using block_device.mkdir_run [OF assms(1,2), of path] m(1) by auto
  have "resolve D q s' \<noteq> Some (Inr ino, s')" for q
    using m(4) block_device.resolve_from_run [OF assms(1) wf block_device.wf_parts(4) [OF assms(1) wf]] by (simp add: resolve_def)
  then show ?thesis using m by (intro exI [of _ s'] exI [of _ ino]) (simp add: fresh_inode_def)
qed

theorem refused_mkdir_leaks_inode_witness:
  "\<exists>s s' ino. format ram_dev (ram_disk_new 64) 16 = Some (Inr s, dev s) \<and>
     mkdir ram_dev (replicate 24 0x61) s = Some (Inl FsTooLarge, s') \<and> kinds ram_dev s ino = KIND_FREE \<and> kinds ram_dev s' ino = KIND_DIR"
proof -
  obtain s where s: "format ram_dev (ram_disk_new 64) 16 = Some (Inr s, dev s)" "fs_wf ram_dev ram_valid s" "fresh_inode ram_dev s 1"
    using fresh_disk by blast
  have "components (replicate 24 0x61) = [] @ [replicate 24 0x61]" by (simp add: components_def split_plain)
  from refused_mkdir_leaks_inode [OF ram.block_device_axioms s(2) this _ _ s(3), of ROOT_INODE]
  show ?thesis using s(1) by auto
qed

end
