(* ===== verification/Syscall_Dispatch.thy ===== *)
theory Syscall_Dispatch
  imports Syscall_Abi
begin

unbundle bit_operations_syntax

text \<open>
  The portable system call handler, \<open>cibos-kernel/src/syscall.rs\<close>. The trait \<open>SyscallEnv\<close> is a
  record of actions on the kernel state, so that a method may change the state, report an error, or
  fail to return (\<open>None\<close>). A buffer a method fills in place is passed with its old contents and
  returned with the new. \<open>heap\<close> tells which sizes the global allocator can serve.
\<close>

section \<open>Requests and the environment\<close>

definition MAX_LOG_LEN :: nat where
  "MAX_LOG_LEN = 4096"

definition MAX_PATH_LEN :: nat where
  "MAX_PATH_LEN = 1024"

definition MAX_FS_IO_LEN :: nat where
  "MAX_FS_IO_LEN = 64 * 1024"

record syscall_request =
  number :: u64
  arg0 :: u64
  arg1 :: u64
  arg2 :: u64
  caller :: boundary_id

datatype syscall_outcome = OutReturn i64 | OutExit u64 | OutYield

type_synonym ('s, 'a) sys = "('s, syscall_error, 'a) action"

record 's syscall_env =
  copy_from_user :: "boundary_id \<Rightarrow> u64 \<Rightarrow> nat \<Rightarrow> u8 list \<Rightarrow> ('s, u8 list) sys"
  console_write :: "u8 list \<Rightarrow> 's \<Rightarrow> 's"
  now_nanos :: "'s \<Rightarrow> u64"
  copy_to_user :: "boundary_id \<Rightarrow> u64 \<Rightarrow> u8 list \<Rightarrow> ('s, unit) sys"
  env_fs_read :: "u8 list \<Rightarrow> ('s, u8 list option) sys"
  env_fs_write :: "u8 list \<Rightarrow> u8 list \<Rightarrow> ('s, unit) sys"
  env_fs_mkdir :: "u8 list \<Rightarrow> ('s, unit) sys"
  env_fs_exists :: "u8 list \<Rightarrow> ('s, bool) sys"
  env_fs_list :: "u8 list \<Rightarrow> ('s, u8 list list option) sys"
  env_fs_delete :: "u8 list \<Rightarrow> ('s, unit) sys"
  sleep_nanos :: "u64 \<Rightarrow> ('s, unit) sys"
  read_key :: "bool \<Rightarrow> 's \<Rightarrow> (i64 \<times> 's) option"
  fill_random :: "u8 list \<Rightarrow> ('s, u8 list) sys"
  open_channel :: "boundary_id \<Rightarrow> nat \<Rightarrow> nat \<Rightarrow> ('s, u64) sys"
  env_channel_send :: "boundary_id \<Rightarrow> u64 \<Rightarrow> u8 list \<Rightarrow> ('s, unit) sys"
  env_channel_recv :: "boundary_id \<Rightarrow> u64 \<Rightarrow> ('s, u8 list) sys"
  env_spawn :: "boundary_id \<Rightarrow> u64 \<Rightarrow> u64 \<Rightarrow> ('s, u64) sys"
  request_channel :: "boundary_id \<Rightarrow> boundary_id \<Rightarrow> channel_terms \<Rightarrow> ('s, u64) sys"
  poll_channel_request :: "boundary_id \<Rightarrow> u8 list \<Rightarrow> ('s, u64 \<times> u8 list) sys"
  accept_channel :: "boundary_id \<Rightarrow> u64 \<Rightarrow> ('s, u64) sys"
  reject_channel :: "boundary_id \<Rightarrow> u64 \<Rightarrow> ('s, unit) sys"
  poll_channel_outcome :: "boundary_id \<Rightarrow> u64 \<Rightarrow> ('s, u64) sys"
  env_gate_bind :: "boundary_id \<Rightarrow> u16 \<Rightarrow> ('s, u64) sys"
  env_gate_connect :: "boundary_id \<Rightarrow> u16 \<Rightarrow> ('s, u64) sys"
  env_gate_accept :: "boundary_id \<Rightarrow> u16 \<Rightarrow> ('s, u64) sys"
  link_send :: "boundary_id \<Rightarrow> u64 \<Rightarrow> u8 list \<Rightarrow> ('s, unit) sys"
  link_recv :: "boundary_id \<Rightarrow> u64 \<Rightarrow> ('s, u8 list) sys"
  link_close :: "boundary_id \<Rightarrow> u64 \<Rightarrow> ('s, unit) sys"
  warden_set :: "boundary_id \<Rightarrow> u16 \<Rightarrow> bool \<Rightarrow> ('s, unit) sys"
  env_gate_probe :: "boundary_id \<Rightarrow> u16 \<Rightarrow> ('s, u64) sys"

text \<open>
  The arms of the dispatcher turn a result into a register value: an error becomes its negative
  code. \<open>non_negative\<close> is the mask that keeps identifiers in the success range.
\<close>

definition reply :: "('s, i64) sys \<Rightarrow> 's \<Rightarrow> (syscall_outcome \<times> 's) option" where
  "reply m s = map_option (\<lambda>(r, s'). (OutReturn (case r of Inl e \<Rightarrow> as_return e | Inr v \<Rightarrow> v), s')) (m s)"

definition non_negative :: "u64 \<Rightarrow> i64" where
  "non_negative w = w AND 0x7FFFFFFFFFFFFFFF"

text \<open>\<open>vec![0u8; len]\<close>: more than \<open>isize::MAX\<close> bytes, or more than the allocator has, is a panic.\<close>

definition vec_zeroed :: "(nat \<Rightarrow> bool) \<Rightarrow> nat \<Rightarrow> ('s, u8 list) sys" where
  "vec_zeroed heap len s = (if len < 2 ^ 63 \<and> heap len then ret (replicate len 0) s else None)"

definition u16_try_from :: "u64 \<Rightarrow> u16 option" where
  "u16_try_from w = (if unat w < 2 ^ 16 then Some (ucast w) else None)"

section \<open>Helpers\<close>

definition channel_send :: "(nat \<Rightarrow> bool) \<Rightarrow> 's syscall_env \<Rightarrow> syscall_request \<Rightarrow> ('s, i64) sys" where
  "channel_send heap env req =
     (let len = unat (arg2 req) in
      if MAX_FS_IO_LEN < len then throw InvalidArgument
      else
        bindE (vec_zeroed heap len) (\<lambda>buf.
        bindE (copy_from_user env (caller req) (arg1 req) len buf) (\<lambda>buf.
        bindE (env_channel_send env (caller req) (arg0 req) buf) (\<lambda>_.
        ret 0))))"

definition channel_recv :: "'s syscall_env \<Rightarrow> syscall_request \<Rightarrow> ('s, i64) sys" where
  "channel_recv env req =
     (let cap = unat (arg2 req) in
      if MAX_FS_IO_LEN < cap then throw InvalidArgument
      else
        bindE (env_channel_recv env (caller req) (arg0 req)) (\<lambda>msg.
          let n = min (length msg) cap in
          bindE (copy_to_user env (caller req) (arg1 req) (take n msg)) (\<lambda>_.
          ret (of_nat n))))"

definition get_random :: "(nat \<Rightarrow> bool) \<Rightarrow> 's syscall_env \<Rightarrow> syscall_request \<Rightarrow> ('s, i64) sys" where
  "get_random heap env req =
     (let len = unat (arg1 req) in
      if len = 0 \<or> MAX_FS_IO_LEN < len then throw InvalidArgument
      else
        bindE (vec_zeroed heap len) (\<lambda>buf.
        bindE (fill_random env buf) (\<lambda>buf.
        bindE (copy_to_user env (caller req) (arg0 req) buf) (\<lambda>_.
        ret (of_nat len)))))"

definition read_path :: "(nat \<Rightarrow> bool) \<Rightarrow> boundary_id \<Rightarrow> u64 \<Rightarrow> nat \<Rightarrow> 's syscall_env \<Rightarrow> ('s, u8 list) sys" where
  "read_path heap b ptr len env =
     (if len = 0 \<or> MAX_PATH_LEN < len then throw InvalidArgument
      else bindE (vec_zeroed heap len) (\<lambda>buf. copy_from_user env b ptr len buf))"

definition read_rw_args :: "boundary_id \<Rightarrow> u64 \<Rightarrow> 's syscall_env \<Rightarrow> ('s, fs_rw_args) sys" where
  "read_rw_args b ptr env =
     bindE (copy_from_user env b ptr FS_RW_ARGS_LEN (replicate FS_RW_ARGS_LEN 0)) (\<lambda>raw.
     ret (fs_rw_args_from_bytes raw))"

definition fs_read :: "(nat \<Rightarrow> bool) \<Rightarrow> 's syscall_env \<Rightarrow> syscall_request \<Rightarrow> ('s, i64) sys" where
  "fs_read heap env req =
     bindE (read_rw_args (caller req) (arg0 req) env) (\<lambda>args.
       if MAX_FS_IO_LEN < unat (buf_len args) then throw InvalidArgument
       else
         bindE (read_path heap (caller req) (path_ptr args) (unat (path_len args)) env) (\<lambda>path.
         bindE (env_fs_read env path) (\<lambda>found.
           case found of
             None \<Rightarrow> throw NotFound
           | Some data \<Rightarrow>
               let n = min (length data) (unat (buf_len args)) in
               bindE (copy_to_user env (caller req) (buf_ptr args) (take n data)) (\<lambda>_.
               ret (of_nat n)))))"

fun join_names :: "u8 list list \<Rightarrow> u8 list" where
  "join_names [] = []"
| "join_names [n] = n"
| "join_names (n # ns) = n @ [0x0A] @ join_names ns"

definition fs_list :: "(nat \<Rightarrow> bool) \<Rightarrow> 's syscall_env \<Rightarrow> syscall_request \<Rightarrow> ('s, i64) sys" where
  "fs_list heap env req =
     bindE (read_rw_args (caller req) (arg0 req) env) (\<lambda>args.
       if MAX_FS_IO_LEN < unat (buf_len args) then throw InvalidArgument
       else
         bindE (read_path heap (caller req) (path_ptr args) (unat (path_len args)) env) (\<lambda>path.
         bindE (env_fs_list env path) (\<lambda>found.
           case found of
             None \<Rightarrow> throw NotFound
           | Some names \<Rightarrow>
               let out = join_names names; n = min (length out) (unat (buf_len args)) in
               bindE (copy_to_user env (caller req) (buf_ptr args) (take n out)) (\<lambda>_.
               ret (of_nat n)))))"

definition fs_write :: "(nat \<Rightarrow> bool) \<Rightarrow> 's syscall_env \<Rightarrow> syscall_request \<Rightarrow> ('s, i64) sys" where
  "fs_write heap env req =
     bindE (read_rw_args (caller req) (arg0 req) env) (\<lambda>args.
       let dlen = unat (buf_len args) in
       if MAX_FS_IO_LEN < dlen then throw InvalidArgument
       else
         bindE (read_path heap (caller req) (path_ptr args) (unat (path_len args)) env) (\<lambda>path.
         bindE (vec_zeroed heap dlen) (\<lambda>data.
         bindE (if 0 < dlen then copy_from_user env (caller req) (buf_ptr args) dlen data else ret data) (\<lambda>data.
         bindE (env_fs_write env path data) (\<lambda>_.
         ret (of_nat dlen))))))"
section \<open>The dispatcher\<close>

text \<open>The arms of the dispatcher, in the order of the source; \<open>dispatch\<close> selects one.\<close>

definition sys_log :: "'s syscall_env \<Rightarrow> syscall_request \<Rightarrow> ('s, i64) sys" where
  "sys_log env req =
     (let len = unat (arg1 req) in
      if MAX_LOG_LEN < len then throw InvalidArgument
      else
        bindE (copy_from_user env (caller req) (arg0 req) len (take len (replicate MAX_LOG_LEN 0))) (\<lambda>buf s.
        ret 0 (console_write env buf s)))"

definition sys_fs_mkdir :: "(nat \<Rightarrow> bool) \<Rightarrow> 's syscall_env \<Rightarrow> syscall_request \<Rightarrow> ('s, i64) sys" where
  "sys_fs_mkdir heap env req =
     bindE (read_path heap (caller req) (arg0 req) (unat (arg1 req)) env) (\<lambda>path.
     bindE (env_fs_mkdir env path) (\<lambda>_. ret 0))"

definition sys_fs_exists :: "(nat \<Rightarrow> bool) \<Rightarrow> 's syscall_env \<Rightarrow> syscall_request \<Rightarrow> ('s, i64) sys" where
  "sys_fs_exists heap env req =
     bindE (read_path heap (caller req) (arg0 req) (unat (arg1 req)) env) (\<lambda>path.
     bindE (env_fs_exists env path) (\<lambda>found. ret (if found then 1 else 0)))"

definition sys_fs_delete :: "(nat \<Rightarrow> bool) \<Rightarrow> 's syscall_env \<Rightarrow> syscall_request \<Rightarrow> ('s, i64) sys" where
  "sys_fs_delete heap env req =
     bindE (read_path heap (caller req) (arg0 req) (unat (arg1 req)) env) (\<lambda>path.
     bindE (env_fs_delete env path) (\<lambda>_. ret 0))"

definition sys_sleep :: "'s syscall_env \<Rightarrow> syscall_request \<Rightarrow> ('s, i64) sys" where
  "sys_sleep env req = bindE (sleep_nanos env (arg0 req OR push_bit 32 (arg1 req))) (\<lambda>_. ret 0)"

definition sys_open_channel :: "'s syscall_env \<Rightarrow> syscall_request \<Rightarrow> ('s, i64) sys" where
  "sys_open_channel env req =
     (let capacity = unat (arg0 req); max_bytes = unat (arg1 req) in
      if capacity = 0 \<or> max_bytes = 0 \<or> MAX_FS_IO_LEN < max_bytes then throw InvalidArgument
      else bindE (open_channel env (caller req) capacity max_bytes) (\<lambda>h. ret (non_negative h)))"

definition sys_spawn :: "'s syscall_env \<Rightarrow> syscall_request \<Rightarrow> ('s, i64) sys" where
  "sys_spawn env req = bindE (env_spawn env (caller req) (arg0 req) (arg1 req)) (\<lambda>lane. ret (non_negative lane))"

definition sys_request_channel :: "heapless_string \<Rightarrow> 's syscall_env \<Rightarrow> syscall_request \<Rightarrow> ('s, i64) sys" where
  "sys_request_channel hs env req =
     (let target = BoundaryId (arg0 req) in
      if unat (arg2 req) < CHANNEL_TERMS_WIRE_LEN then throw InvalidArgument
      else
        bindE (copy_from_user env (caller req) (arg1 req) CHANNEL_TERMS_WIRE_LEN (replicate CHANNEL_TERMS_WIRE_LEN 0)) (\<lambda>buf.
          case wire_to_terms hs (wire_from_bytes buf) of
            None \<Rightarrow> throw InvalidArgument
          | Some terms \<Rightarrow>
              if target = caller req then throw InvalidArgument
              else bindE (request_channel env (caller req) target terms) (\<lambda>i. ret (non_negative i))))"

definition sys_poll_channel_request :: "'s syscall_env \<Rightarrow> syscall_request \<Rightarrow> ('s, i64) sys" where
  "sys_poll_channel_request env req =
     (if unat (arg1 req) < CHANNEL_REQUEST_WIRE_LEN then throw InvalidArgument
      else
        bindE (poll_channel_request env (caller req) (replicate CHANNEL_REQUEST_WIRE_LEN 0)) (\<lambda>(i, out).
        bindE (copy_to_user env (caller req) (arg0 req) out) (\<lambda>_.
        ret (non_negative i))))"

definition sys_accept_channel :: "'s syscall_env \<Rightarrow> syscall_request \<Rightarrow> ('s, i64) sys" where
  "sys_accept_channel env req = bindE (accept_channel env (caller req) (arg0 req)) (\<lambda>h. ret (non_negative h))"

definition sys_reject_channel :: "'s syscall_env \<Rightarrow> syscall_request \<Rightarrow> ('s, i64) sys" where
  "sys_reject_channel env req = bindE (reject_channel env (caller req) (arg0 req)) (\<lambda>_. ret 0)"

definition sys_poll_channel_outcome :: "'s syscall_env \<Rightarrow> syscall_request \<Rightarrow> ('s, i64) sys" where
  "sys_poll_channel_outcome env req = bindE (poll_channel_outcome env (caller req) (arg0 req)) (\<lambda>h. ret (non_negative h))"

definition sys_gate_bind :: "'s syscall_env \<Rightarrow> syscall_request \<Rightarrow> ('s, i64) sys" where
  "sys_gate_bind env req =
     (case u16_try_from (arg0 req) of
        None \<Rightarrow> throw InvalidArgument
      | Some gate \<Rightarrow> bindE (env_gate_bind env (caller req) gate) (\<lambda>h. ret (non_negative h)))"

definition sys_gate_connect :: "'s syscall_env \<Rightarrow> syscall_request \<Rightarrow> ('s, i64) sys" where
  "sys_gate_connect env req =
     (case u16_try_from (arg0 req) of
        None \<Rightarrow> throw InvalidArgument
      | Some gate \<Rightarrow> bindE (env_gate_connect env (caller req) gate) (\<lambda>h. ret (non_negative h)))"

definition sys_gate_accept :: "'s syscall_env \<Rightarrow> syscall_request \<Rightarrow> ('s, i64) sys" where
  "sys_gate_accept env req =
     (case u16_try_from (arg0 req) of
        None \<Rightarrow> throw InvalidArgument
      | Some gate \<Rightarrow> bindE (env_gate_accept env (caller req) gate) (\<lambda>h. ret (non_negative h)))"

definition sys_link_send :: "(nat \<Rightarrow> bool) \<Rightarrow> 's syscall_env \<Rightarrow> syscall_request \<Rightarrow> ('s, i64) sys" where
  "sys_link_send heap env req =
     (let len = unat (arg2 req) in
      bindE (vec_zeroed heap len) (\<lambda>buf.
      bindE (copy_from_user env (caller req) (arg1 req) len buf) (\<lambda>buf.
      bindE (link_send env (caller req) (arg0 req) buf) (\<lambda>_.
      ret 0))))"

definition sys_link_recv :: "'s syscall_env \<Rightarrow> syscall_request \<Rightarrow> ('s, i64) sys" where
  "sys_link_recv env req =
     bindE (link_recv env (caller req) (arg0 req)) (\<lambda>bytes.
       let cap = unat (arg2 req) in
       if cap < length bytes then throw InvalidArgument
       else
         bindE (copy_to_user env (caller req) (arg1 req) bytes) (\<lambda>_.
         ret (non_negative (of_nat (length bytes)))))"

definition sys_link_close :: "'s syscall_env \<Rightarrow> syscall_request \<Rightarrow> ('s, i64) sys" where
  "sys_link_close env req = bindE (link_close env (caller req) (arg0 req)) (\<lambda>_. ret 0)"

definition sys_warden_set :: "'s syscall_env \<Rightarrow> syscall_request \<Rightarrow> ('s, i64) sys" where
  "sys_warden_set env req =
     (case u16_try_from (arg0 req) of
        None \<Rightarrow> throw InvalidArgument
      | Some gate \<Rightarrow> bindE (warden_set env (caller req) gate (arg1 req \<noteq> 0)) (\<lambda>_. ret 0))"

definition sys_gate_probe :: "'s syscall_env \<Rightarrow> syscall_request \<Rightarrow> ('s, i64) sys" where
  "sys_gate_probe env req =
     (case u16_try_from (arg0 req) of
        None \<Rightarrow> throw InvalidArgument
      | Some gate \<Rightarrow> bindE (env_gate_probe env (caller req) gate) (\<lambda>st. ret (non_negative st)))"

definition dispatch ::
    "(nat \<Rightarrow> bool) \<Rightarrow> heapless_string \<Rightarrow> 's syscall_env \<Rightarrow> syscall_request \<Rightarrow> 's \<Rightarrow> (syscall_outcome \<times> 's) option" where
  "dispatch heap hs env req s =
     (case syscall_from_number (number req) of
        None \<Rightarrow> reply (throw NoSuchCall) s
      | Some call \<Rightarrow>
          (case call of
             Log \<Rightarrow> reply (sys_log env req) s
           | Exit \<Rightarrow> Some (OutExit (arg0 req), s)
           | Yield \<Rightarrow> Some (OutYield, s)
           | Now \<Rightarrow> Some (OutReturn (non_negative (now_nanos env s)), s)
           | FsRead \<Rightarrow> reply (fs_read heap env req) s
           | FsWrite \<Rightarrow> reply (fs_write heap env req) s
           | FsMkdir \<Rightarrow> reply (sys_fs_mkdir heap env req) s
           | FsExists \<Rightarrow> reply (sys_fs_exists heap env req) s
           | ReadKey \<Rightarrow> map_option (\<lambda>(k, s'). (OutReturn k, s')) (read_key env (arg0 req \<noteq> 0) s)
           | GetRandom \<Rightarrow> reply (get_random heap env req) s
           | FsList \<Rightarrow> reply (fs_list heap env req) s
           | FsDelete \<Rightarrow> reply (sys_fs_delete heap env req) s
           | Sleep \<Rightarrow> reply (sys_sleep env req) s
           | OpenChannel \<Rightarrow> reply (sys_open_channel env req) s
           | ChannelSend \<Rightarrow> reply (channel_send heap env req) s
           | ChannelRecv \<Rightarrow> reply (channel_recv env req) s
           | Spawn \<Rightarrow> reply (sys_spawn env req) s
           | RequestChannel \<Rightarrow> reply (sys_request_channel hs env req) s
           | PollChannelRequest \<Rightarrow> reply (sys_poll_channel_request env req) s
           | AcceptChannel \<Rightarrow> reply (sys_accept_channel env req) s
           | RejectChannel \<Rightarrow> reply (sys_reject_channel env req) s
           | PollChannelOutcome \<Rightarrow> reply (sys_poll_channel_outcome env req) s
           | GateBind \<Rightarrow> reply (sys_gate_bind env req) s
           | GateConnect \<Rightarrow> reply (sys_gate_connect env req) s
           | GateAccept \<Rightarrow> reply (sys_gate_accept env req) s
           | LinkSend \<Rightarrow> reply (sys_link_send heap env req) s
           | LinkRecv \<Rightarrow> reply (sys_link_recv env req) s
           | LinkClose \<Rightarrow> reply (sys_link_close env req) s
           | WardenSet \<Rightarrow> reply (sys_warden_set env req) s
           | GateProbe \<Rightarrow> reply (sys_gate_probe env req) s))"

section \<open>The contract of an environment\<close>

lemma runs_vec [run_rules]: "n < 2 ^ 63 \<Longrightarrow> heap n \<Longrightarrow> runs J (\<lambda>_. True) (vec_zeroed heap n)"
  by (simp add: runs_def vec_zeroed_def ret_def)

text \<open>A register value that reads as a success, and one that reads as an error.\<close>

definition success_value :: "i64 \<Rightarrow> bool" where
  "success_value v \<longleftrightarrow> 0 \<le> sint v"

definition error_value :: "i64 \<Rightarrow> bool" where
  "error_value v \<longleftrightarrow> (\<exists>e. v = as_return e)"

lemma success_0_1 [simp]: "success_value 0" "success_value 1"
  by (simp_all add: success_value_def)

lemma success_small: "unat v < 2 ^ 63 \<Longrightarrow> success_value v"
proof -
  assume "unat v < 2 ^ 63"
  then have "int (unat v) < int (2 ^ 63)" by (rule of_nat_less_iff [THEN iffD2])
  then have "uint v < 2 ^ 63" by (simp del: uint_nat)
  moreover have "0 \<le> uint v" by simp
  ultimately have "signed_take_bit 63 (uint v) = uint v" by (intro signed_take_bit_int_eq_self) linarith+
  then show ?thesis by (simp add: success_value_def sint_uint)
qed

lemma success_non_negative [simp]: "success_value (non_negative w)"
proof (rule success_small)
  have "(0x7FFFFFFFFFFFFFFF :: 64 word) = mask 63" by (simp add: mask_eq_exp_minus_1)
  then have "non_negative w = take_bit 63 w" by (simp add: non_negative_def take_bit_eq_mask)
  then show "unat (non_negative w) < 2 ^ 63" using take_bit_nat_less_exp [of 63 "unat w"] by (simp only: unsigned_take_bit_eq)
qed

lemma success_of_nat: "n \<le> MAX_FS_IO_LEN \<Longrightarrow> success_value (of_nat n)"
  by (rule success_small) (simp add: unat_of_nat_u64 MAX_FS_IO_LEN_def)

locale syscall_environment =
  fixes env :: "'s syscall_env" and J :: "'s \<Rightarrow> bool"
  assumes copies: "runs J (\<lambda>_. True) (copy_from_user env b p n out)" "runs J (\<lambda>_. True) (copy_to_user env b p bytes)"
    and console: "J s \<Longrightarrow> J (console_write env bytes s)"
    and files: "runs J (\<lambda>_. True) (env_fs_read env path)" "runs J (\<lambda>_. True) (env_fs_write env path bytes)"
      "runs J (\<lambda>_. True) (env_fs_mkdir env path)" "runs J (\<lambda>_. True) (env_fs_exists env path)"
      "runs J (\<lambda>_. True) (env_fs_list env path)" "runs J (\<lambda>_. True) (env_fs_delete env path)"
    and sleeps: "runs J (\<lambda>_. True) (sleep_nanos env ns)"
    and keys: "J s \<Longrightarrow> \<exists>k s'. read_key env blocking s = Some (k, s') \<and> J s' \<and> (success_value k \<or> error_value k)"
    and random: "runs J (\<lambda>_. True) (fill_random env out)"
    and channels: "runs J (\<lambda>_. True) (open_channel env b n m)" "runs J (\<lambda>_. True) (env_channel_send env b h bytes)"
      "runs J (\<lambda>_. True) (env_channel_recv env b h)" "runs J (\<lambda>_. True) (env_spawn env b h a)"
      "buffer_capacity t \<noteq> 0 \<Longrightarrow> runs J (\<lambda>_. True) (request_channel env b b' t)" "runs J (\<lambda>_. True) (poll_channel_request env b out)"
      "runs J (\<lambda>_. True) (accept_channel env b h)" "runs J (\<lambda>_. True) (reject_channel env b h)"
      "runs J (\<lambda>_. True) (poll_channel_outcome env b h)"
    and gates: "runs J (\<lambda>_. True) (env_gate_bind env b g)" "runs J (\<lambda>_. True) (env_gate_connect env b g)"
      "runs J (\<lambda>_. True) (env_gate_accept env b g)" "runs J (\<lambda>_. True) (link_send env b h bytes)"
      "runs J (\<lambda>_. True) (link_recv env b h)" "runs J (\<lambda>_. True) (link_close env b h)"
      "runs J (\<lambda>_. True) (warden_set env b g allow)" "runs J (\<lambda>_. True) (env_gate_probe env b g)"
begin

lemmas env_rules = copies files sleeps random channels gates

end

lemma wire_to_terms_capacity: "wire_to_terms hs w = Some t \<Longrightarrow> buffer_capacity t \<noteq> 0"
  by (auto simp: wire_to_terms_def channel_terms_new_def Let_def split: option.splits if_splits)

lemma reply_runs:
  "runs J success_value m \<Longrightarrow> J s \<Longrightarrow>
   \<exists>v s'. reply m s = Some (OutReturn v, s') \<and> J s' \<and> (success_value v \<or> error_value v)"
  unfolding runs_def reply_def error_value_def by (fastforce split: sum.splits)

text \<open>What a request may not ask of the allocator.\<close>

definition allocation_fails :: "(nat \<Rightarrow> bool) \<Rightarrow> syscall_request \<Rightarrow> bool" where
  "allocation_fails heap req \<longleftrightarrow>
     number req = syscall_number LinkSend \<and> \<not> (unat (arg2 req) < 2 ^ 63 \<and> heap (unat (arg2 req)))"

definition serves_calls :: "(nat \<Rightarrow> bool) \<Rightarrow> bool" where
  "serves_calls heap \<longleftrightarrow> (\<forall>n \<le> MAX_FS_IO_LEN. heap n)"

lemma runs_buffer: "serves_calls heap \<Longrightarrow> n \<le> MAX_FS_IO_LEN \<Longrightarrow> runs J (\<lambda>_. True) (vec_zeroed heap n)"
  by (rule runs_vec) (simp_all add: serves_calls_def MAX_FS_IO_LEN_def)

context syscall_environment
begin

lemma read_path_runs: "serves_calls heap \<Longrightarrow> runs J (\<lambda>_. True) (read_path heap b p n env)"
  unfolding read_path_def
  by (intro run_rules runs_bind_any runs_buffer env_rules) (simp_all add: MAX_PATH_LEN_def MAX_FS_IO_LEN_def)

lemma read_rw_args_runs: "runs J (\<lambda>_. True) (read_rw_args b p env)"
  unfolding read_rw_args_def by (intro run_rules runs_bind_any env_rules TrueI)

lemma sys_log_runs: "runs J success_value (sys_log env req)"
proof -
  have "runs J success_value (\<lambda>s. ret 0 (console_write env buf s))" for buf
    using console by (simp add: runs_def ret_def)
  then show ?thesis
    unfolding sys_log_def Let_def by (intro run_rules runs_bind_any env_rules)
qed

lemma buffered_runs:
  assumes "serves_calls heap"
  shows "runs J success_value (channel_send heap env req)" "runs J success_value (get_random heap env req)"
    "runs J success_value (fs_read heap env req)" "runs J success_value (fs_list heap env req)"
    "runs J success_value (fs_write heap env req)"
  unfolding channel_send_def get_random_def fs_read_def fs_list_def fs_write_def Let_def
  by (intro run_rules runs_bind_any runs_buffer [OF assms] read_path_runs [OF assms] read_rw_args_runs env_rules
      success_of_nat success_0_1 TrueI; simp add: min_def)+

lemma path_calls_run:
  assumes "serves_calls heap"
  shows "runs J success_value (sys_fs_mkdir heap env req)" "runs J success_value (sys_fs_exists heap env req)"
    "runs J success_value (sys_fs_delete heap env req)"
  unfolding sys_fs_mkdir_def sys_fs_exists_def sys_fs_delete_def
  by (intro run_rules runs_bind_any read_path_runs [OF assms] env_rules; simp)+

lemma channel_calls_run:
  "runs J success_value (sys_sleep env req)" "runs J success_value (sys_open_channel env req)"
  "runs J success_value (channel_recv env req)" "runs J success_value (sys_spawn env req)"
  "runs J success_value (sys_accept_channel env req)" "runs J success_value (sys_reject_channel env req)"
  "runs J success_value (sys_poll_channel_outcome env req)"
  unfolding sys_sleep_def sys_open_channel_def channel_recv_def sys_spawn_def sys_accept_channel_def sys_reject_channel_def
    sys_poll_channel_outcome_def Let_def
  by (intro run_rules runs_bind_any env_rules success_of_nat success_0_1 success_non_negative; simp add: min_def)+

lemma request_calls_run:
  "runs J success_value (sys_request_channel hs env req)" "runs J success_value (sys_poll_channel_request env req)"
proof -
  show "runs J success_value (sys_request_channel hs env req)"
    unfolding sys_request_channel_def Let_def
    by (intro run_rules runs_bind_any env_rules success_non_negative) (erule wire_to_terms_capacity)
  show "runs J success_value (sys_poll_channel_request env req)"
    unfolding sys_poll_channel_request_def case_prod_beta
    by (intro run_rules runs_bind_any env_rules success_non_negative)
qed

lemma gate_calls_run:
  "runs J success_value (sys_gate_bind env req)" "runs J success_value (sys_gate_connect env req)"
  "runs J success_value (sys_gate_accept env req)" "runs J success_value (sys_link_recv env req)"
  "runs J success_value (sys_link_close env req)" "runs J success_value (sys_warden_set env req)"
  "runs J success_value (sys_gate_probe env req)"
  unfolding sys_gate_bind_def sys_gate_connect_def sys_gate_accept_def sys_link_recv_def sys_link_close_def sys_warden_set_def
    sys_gate_probe_def Let_def
  by (intro run_rules runs_bind_any env_rules success_0_1 success_non_negative)+

lemma link_send_runs:
  "unat (arg2 req) < 2 ^ 63 \<Longrightarrow> heap (unat (arg2 req)) \<Longrightarrow> runs J success_value (sys_link_send heap env req)"
  unfolding sys_link_send_def Let_def by (intro run_rules runs_bind_any env_rules success_0_1)

lemmas call_runs = sys_log_runs channel_calls_run request_calls_run gate_calls_run

lemmas buffer_call_runs = buffered_runs path_calls_run

lemma dispatch_runs:
  assumes "serves_calls heap" "\<not> allocation_fails heap req" "J s"
  shows "\<exists>out s'. dispatch heap hs env req s = Some (out, s') \<and> J s' \<and>
    (\<forall>v. out = OutReturn v \<longrightarrow> success_value v \<or> error_value v)"
proof -
  have ok: "\<exists>out s'. reply m s = Some (out, s') \<and> J s' \<and> (\<forall>v. out = OutReturn v \<longrightarrow> success_value v \<or> error_value v)"
    if "runs J success_value m" for m
    using reply_runs [OF that assms(3)] by auto
  show ?thesis
  proof (cases "syscall_from_number (number req)")
    case None
    then show ?thesis using ok [OF runs_throw] by (simp add: dispatch_def)
  next
    case (Some call)
    have link: "runs J success_value (sys_link_send heap env req)" if "call = LinkSend"
      using assms(2) Some that by (intro link_send_runs) (simp_all add: allocation_fails_def syscall_number_iff)
    have key: "\<exists>out s'. map_option (\<lambda>(k, s'). (OutReturn k, s')) (read_key env (arg0 req \<noteq> 0) s) = Some (out, s') \<and> J s' \<and>
        (\<forall>v. out = OutReturn v \<longrightarrow> success_value v \<or> error_value v)"
      using keys [OF assms(3), of "arg0 req \<noteq> 0"] by auto
    show ?thesis
      unfolding dispatch_def Some option.case
      by (cases call; simp only: syscall.case; (rule ok, (rule call_runs buffer_call_runs [OF assms(1)] | rule link, simp))?)
        (use key assms(3) in simp_all)
  qed
qed

end

section \<open>Properties\<close>

text \<open>
  The environment as one boundary sees it: whatever boundary a call names as the one acting, it
  acts for \<open>b\<close>. The target of a channel request stays a free choice.
\<close>

definition pinned :: "boundary_id \<Rightarrow> 's syscall_env \<Rightarrow> 's syscall_env" where
  "pinned b env = env\<lparr>
     copy_from_user := \<lambda>_. copy_from_user env b, copy_to_user := \<lambda>_. copy_to_user env b,
     open_channel := \<lambda>_. open_channel env b, env_channel_send := \<lambda>_. env_channel_send env b,
     env_channel_recv := \<lambda>_. env_channel_recv env b, env_spawn := \<lambda>_. env_spawn env b,
     request_channel := \<lambda>_. request_channel env b, poll_channel_request := \<lambda>_. poll_channel_request env b,
     accept_channel := \<lambda>_. accept_channel env b, reject_channel := \<lambda>_. reject_channel env b,
     poll_channel_outcome := \<lambda>_. poll_channel_outcome env b, env_gate_bind := \<lambda>_. env_gate_bind env b,
     env_gate_connect := \<lambda>_. env_gate_connect env b, env_gate_accept := \<lambda>_. env_gate_accept env b,
     link_send := \<lambda>_. link_send env b, link_recv := \<lambda>_. link_recv env b, link_close := \<lambda>_. link_close env b,
     warden_set := \<lambda>_. warden_set env b, env_gate_probe := \<lambda>_. env_gate_probe env b\<rparr>"

lemma pinned_simps:
  "copy_from_user (pinned b env) = (\<lambda>_. copy_from_user env b)"
  "console_write (pinned b env) = console_write env"
  "now_nanos (pinned b env) = now_nanos env"
  "copy_to_user (pinned b env) = (\<lambda>_. copy_to_user env b)"
  "env_fs_read (pinned b env) = env_fs_read env"
  "env_fs_write (pinned b env) = env_fs_write env"
  "env_fs_mkdir (pinned b env) = env_fs_mkdir env"
  "env_fs_exists (pinned b env) = env_fs_exists env"
  "env_fs_list (pinned b env) = env_fs_list env"
  "env_fs_delete (pinned b env) = env_fs_delete env"
  "sleep_nanos (pinned b env) = sleep_nanos env"
  "read_key (pinned b env) = read_key env"
  "fill_random (pinned b env) = fill_random env"
  "open_channel (pinned b env) = (\<lambda>_. open_channel env b)"
  "env_channel_send (pinned b env) = (\<lambda>_. env_channel_send env b)"
  "env_channel_recv (pinned b env) = (\<lambda>_. env_channel_recv env b)"
  "env_spawn (pinned b env) = (\<lambda>_. env_spawn env b)"
  "request_channel (pinned b env) = (\<lambda>_. request_channel env b)"
  "poll_channel_request (pinned b env) = (\<lambda>_. poll_channel_request env b)"
  "accept_channel (pinned b env) = (\<lambda>_. accept_channel env b)"
  "reject_channel (pinned b env) = (\<lambda>_. reject_channel env b)"
  "poll_channel_outcome (pinned b env) = (\<lambda>_. poll_channel_outcome env b)"
  "env_gate_bind (pinned b env) = (\<lambda>_. env_gate_bind env b)"
  "env_gate_connect (pinned b env) = (\<lambda>_. env_gate_connect env b)"
  "env_gate_accept (pinned b env) = (\<lambda>_. env_gate_accept env b)"
  "link_send (pinned b env) = (\<lambda>_. link_send env b)"
  "link_recv (pinned b env) = (\<lambda>_. link_recv env b)"
  "link_close (pinned b env) = (\<lambda>_. link_close env b)"
  "warden_set (pinned b env) = (\<lambda>_. warden_set env b)"
  "env_gate_probe (pinned b env) = (\<lambda>_. env_gate_probe env b)"
  by (simp_all add: pinned_def)

lemmas handler_defs = sys_log_def fs_read_def fs_write_def sys_fs_mkdir_def sys_fs_exists_def get_random_def fs_list_def
  sys_fs_delete_def sys_sleep_def sys_open_channel_def channel_send_def channel_recv_def sys_spawn_def
  sys_request_channel_def sys_poll_channel_request_def sys_accept_channel_def sys_reject_channel_def
  sys_poll_channel_outcome_def sys_gate_bind_def sys_gate_connect_def sys_gate_accept_def sys_link_send_def
  sys_link_recv_def sys_link_close_def sys_warden_set_def sys_gate_probe_def read_path_def read_rw_args_def

lemma dispatch_pinned: "dispatch heap hs (pinned (caller req) env) req s = dispatch heap hs env req s"
  unfolding dispatch_def handler_defs pinned_simps by (rule refl)

text \<open>
  C35. A system call acts for its caller alone. Every copy to or from user memory, every channel,
  link and Gate operation and every spawn that a request leads to is carried out for the boundary
  the trap was attributed to, whatever the argument registers hold: the dispatcher behaves in the
  same way over an environment that can only act for that boundary.
\<close>

theorem dispatch_acts_for_caller:
  "dispatch heap hs (pinned (caller req) env) req s = dispatch heap hs env req s"
  by (rule dispatch_pinned)

text \<open>
  C36. With an allocator that serves the bounded buffers, and an environment whose methods return,
  the dispatcher returns on every request, except that \<open>LinkSend\<close> allocates a buffer of whatever
  length the caller passes and panics exactly when the allocator cannot serve it. A value placed in
  the return register reads either as a non-negative result or as one of the error codes.
\<close>

theorem dispatch_panics_iff:
  assumes "syscall_environment env J" "serves_calls heap" "J s"
  shows "(dispatch heap hs env req s = None \<longleftrightarrow> allocation_fails heap req) \<and>
    (\<forall>v s'. dispatch heap hs env req s = Some (OutReturn v, s') \<longrightarrow> 0 \<le> sint v \<or> (\<exists>e. v = as_return e))"
proof -
  have panics: "dispatch heap hs env req s = None" if "allocation_fails heap req"
  proof -
    have "syscall_from_number (number req) = Some LinkSend"
      using that by (simp add: allocation_fails_def syscall_number_iff)
    moreover have "vec_zeroed heap (unat (arg2 req)) s = None"
      using that by (auto simp: allocation_fails_def vec_zeroed_def)
    ultimately show ?thesis by (simp add: dispatch_def reply_def sys_link_send_def Let_def bindE_def)
  qed
  show ?thesis
  proof (cases "allocation_fails heap req")
    case False
    then show ?thesis
      using syscall_environment.dispatch_runs [OF assms(1,2) _ assms(3), of req hs]
      by (auto simp: success_value_def error_value_def)
  qed (simp add: panics)
qed

end
