(* ===== verification/Input.thy ===== *)
theory Input
  imports Prelude
begin

unbundle bit_operations_syntax

text \<open>
  Keyboard input: the event vocabulary, the PS/2 scancode decoder and the bounded key queue of
  \<open>cibos-input\<close>, and the interrupt handler of \<open>kernel-image/src/keyboard.rs\<close> that joins them. A
  character is its code point. The queue is shown to be the list of the latest events.
\<close>

section \<open>Events\<close>

datatype key =
    Key_Char u32 | Key_Enter | Key_Backspace | Key_Delete | Key_Tab | Key_Escape
  | Key_Left | Key_Right | Key_Up | Key_Down | Key_Home | Key_End

record modifiers =
  mod_shift :: bool
  mod_ctrl :: bool
  mod_alt :: bool

definition modifiers_none :: modifiers where
  "modifiers_none = \<lparr>mod_shift = False, mod_ctrl = False, mod_alt = False\<rparr>"

record key_event =
  ev_key :: key
  ev_mods :: modifiers

definition key_event_new :: "key \<Rightarrow> key_event" where
  "key_event_new k = \<lparr>ev_key = k, ev_mods = modifiers_none\<rparr>"

section \<open>Scancodes\<close>

definition BREAK_MASK :: u8 where
  "BREAK_MASK = 0x80"

definition EXTENDED_PREFIX :: u8 where
  "EXTENDED_PREFIX = 0xE0"

definition SC_LSHIFT :: u8 where
  "SC_LSHIFT = 0x2A"

definition SC_RSHIFT :: u8 where
  "SC_RSHIFT = 0x36"

definition SC_CTRL :: u8 where
  "SC_CTRL = 0x1D"

definition SC_ALT :: u8 where
  "SC_ALT = 0x38"

record scancode_decoder =
  sd_shift :: bool
  sd_ctrl :: bool
  sd_alt :: bool
  sd_extended :: bool

definition scancode_decoder_new :: scancode_decoder where
  "scancode_decoder_new = \<lparr>sd_shift = False, sd_ctrl = False, sd_alt = False, sd_extended = False\<rparr>"

definition decoder_modifiers :: "scancode_decoder \<Rightarrow> modifiers" where
  "decoder_modifiers d = \<lparr>mod_shift = sd_shift d, mod_ctrl = sd_ctrl d, mod_alt = sd_alt d\<rparr>"

definition decode_extended :: "u8 \<Rightarrow> key option" where
  "decode_extended mk =
     (if mk = 0x48 then Some Key_Up
      else if mk = 0x50 then Some Key_Down
      else if mk = 0x4B then Some Key_Left
      else if mk = 0x4D then Some Key_Right
      else if mk = 0x47 then Some Key_Home
      else if mk = 0x4F then Some Key_End
      else if mk = 0x53 then Some Key_Delete
      else if mk = 0x1C then Some Key_Enter
      else None)"

text \<open>Make code, character, and character with shift held.\<close>

definition PRINTABLE :: "(u8 \<times> u32 \<times> u32) list" where
  "PRINTABLE =
    [(0x02, 0x31, 0x21), (0x03, 0x32, 0x40), (0x04, 0x33, 0x23), (0x05, 0x34, 0x24),
     (0x06, 0x35, 0x25), (0x07, 0x36, 0x5E), (0x08, 0x37, 0x26), (0x09, 0x38, 0x2A),
     (0x0A, 0x39, 0x28), (0x0B, 0x30, 0x29), (0x0C, 0x2D, 0x5F), (0x0D, 0x3D, 0x2B),
     (0x10, 0x71, 0x51), (0x11, 0x77, 0x57), (0x12, 0x65, 0x45), (0x13, 0x72, 0x52),
     (0x14, 0x74, 0x54), (0x15, 0x79, 0x59), (0x16, 0x75, 0x55), (0x17, 0x69, 0x49),
     (0x18, 0x6F, 0x4F), (0x19, 0x70, 0x50), (0x1A, 0x5B, 0x7B), (0x1B, 0x5D, 0x7D),
     (0x1E, 0x61, 0x41), (0x1F, 0x73, 0x53), (0x20, 0x64, 0x44), (0x21, 0x66, 0x46),
     (0x22, 0x67, 0x47), (0x23, 0x68, 0x48), (0x24, 0x6A, 0x4A), (0x25, 0x6B, 0x4B),
     (0x26, 0x6C, 0x4C), (0x27, 0x3B, 0x3A), (0x28, 0x27, 0x22), (0x29, 0x60, 0x7E),
     (0x2B, 0x5C, 0x7C), (0x2C, 0x7A, 0x5A), (0x2D, 0x78, 0x58), (0x2E, 0x63, 0x43),
     (0x2F, 0x76, 0x56), (0x30, 0x62, 0x42), (0x31, 0x6E, 0x4E), (0x32, 0x6D, 0x4D),
     (0x33, 0x2C, 0x3C), (0x34, 0x2E, 0x3E), (0x35, 0x2F, 0x3F), (0x39, 0x20, 0x20)]"

definition decode_main :: "u8 \<Rightarrow> bool \<Rightarrow> key option" where
  "decode_main mk sh =
     (if mk = 0x1C then Some Key_Enter
      else if mk = 0x0E then Some Key_Backspace
      else if mk = 0x0F then Some Key_Tab
      else if mk = 0x01 then Some Key_Escape
      else if mk = 0x53 then Some Key_Delete
      else
        case find (\<lambda>(code, _, _). code = mk) PRINTABLE of
          None \<Rightarrow> None
        | Some (_, lower, upper) \<Rightarrow> Some (Key_Char (if sh then upper else lower)))"

definition decoder_push :: "u8 \<Rightarrow> scancode_decoder \<Rightarrow> key_event option \<times> scancode_decoder" where
  "decoder_push byte d =
     (if byte = EXTENDED_PREFIX then (None, d\<lparr>sd_extended := True\<rparr>)
      else
        let extended = sd_extended d; d = d\<lparr>sd_extended := False\<rparr>;
            is_break = byte AND BREAK_MASK \<noteq> 0; mk = byte AND NOT BREAK_MASK in
        if mk = SC_CTRL then (None, d\<lparr>sd_ctrl := \<not> is_break\<rparr>)
        else if mk = SC_ALT then (None, d\<lparr>sd_alt := \<not> is_break\<rparr>)
        else if \<not> extended \<and> (mk = SC_LSHIFT \<or> mk = SC_RSHIFT) then (None, d\<lparr>sd_shift := \<not> is_break\<rparr>)
        else if is_break then (None, d)
        else
          case (if extended then decode_extended mk else decode_main mk (sd_shift d)) of
            None \<Rightarrow> (None, d)
          | Some k \<Rightarrow> (Some \<lparr>ev_key = k, ev_mods = decoder_modifiers d\<rparr>, d))"

section \<open>The key queue\<close>

text \<open>The ring of \<open>N\<close> slots; \<open>N\<close> is the length of the buffer.\<close>

record key_queue =
  kq_buf :: "key_event option list"
  kq_head :: nat
  kq_len :: nat

definition key_queue_new :: "nat \<Rightarrow> key_queue" where
  "key_queue_new n = \<lparr>kq_buf = replicate n None, kq_head = 0, kq_len = 0\<rparr>"

definition kq_is_empty :: "key_queue \<Rightarrow> bool" where
  "kq_is_empty q \<longleftrightarrow> kq_len q = 0"

definition kq_is_full :: "key_queue \<Rightarrow> bool" where
  "kq_is_full q \<longleftrightarrow> kq_len q = length (kq_buf q)"

definition kq_push :: "key_event \<Rightarrow> key_queue \<Rightarrow> bool \<times> key_queue" where
  "kq_push ev q =
     (let n = length (kq_buf q); tail = (kq_head q + kq_len q) mod n in
      if kq_len q = n then
        (True, q\<lparr>kq_buf := (kq_buf q)[kq_head q := Some ev], kq_head := (kq_head q + 1) mod n\<rparr>)
      else
        (False, q\<lparr>kq_buf := (kq_buf q)[tail := Some ev], kq_len := kq_len q + 1\<rparr>))"

definition kq_pop :: "key_queue \<Rightarrow> key_event option \<times> key_queue" where
  "kq_pop q =
     (if kq_len q = 0 then (None, q)
      else
        (kq_buf q ! kq_head q,
         q\<lparr>kq_buf := (kq_buf q)[kq_head q := None], kq_head := (kq_head q + 1) mod length (kq_buf q), kq_len := kq_len q - 1\<rparr>))"

section \<open>The keyboard\<close>

definition QUEUE_CAP :: nat where
  "QUEUE_CAP = 64"

record keyboard =
  kb_decoder :: scancode_decoder
  kb_queue :: key_queue
  bytes_seen :: u64

definition keyboard_new :: keyboard where
  "keyboard_new = \<lparr>kb_decoder = scancode_decoder_new, kb_queue = key_queue_new QUEUE_CAP, bytes_seen = 0\<rparr>"

definition keyboard_irq :: "u8 \<Rightarrow> keyboard \<Rightarrow> keyboard" where
  "keyboard_irq scancode kb =
     (let (ev, d) = decoder_push scancode (kb_decoder kb); kb = kb\<lparr>bytes_seen := bytes_seen kb + 1, kb_decoder := d\<rparr> in
      case ev of None \<Rightarrow> kb | Some ev \<Rightarrow> kb\<lparr>kb_queue := snd (kq_push ev (kb_queue kb))\<rparr>)"

definition poll_key :: "keyboard \<Rightarrow> key_event option \<times> keyboard" where
  "poll_key kb = (let (ev, q) = kq_pop (kb_queue kb) in (ev, kb\<lparr>kb_queue := q\<rparr>))"

definition has_key :: "keyboard \<Rightarrow> bool" where
  "has_key kb \<longleftrightarrow> \<not> kq_is_empty (kb_queue kb)"

section \<open>The ring is a list of the latest events\<close>

definition kq_wf :: "key_queue \<Rightarrow> bool" where
  "kq_wf q \<longleftrightarrow> kq_head q < length (kq_buf q) \<and> kq_len q \<le> length (kq_buf q) \<and>
     (\<forall>i < kq_len q. kq_buf q ! ((kq_head q + i) mod length (kq_buf q)) \<noteq> None)"

definition kq_events :: "key_queue \<Rightarrow> key_event list" where
  "kq_events q = map (\<lambda>i. the (kq_buf q ! ((kq_head q + i) mod length (kq_buf q)))) [0 ..< kq_len q]"

text \<open>The reference: a list that forgets its oldest element when it would grow beyond \<open>n\<close>.\<close>

datatype key_op = KeyIn key_event | KeyOut

fun ring_ops :: "key_op list \<Rightarrow> key_queue \<Rightarrow> key_event option list \<times> key_queue" where
  "ring_ops [] q = ([], q)"
| "ring_ops (KeyIn ev # ops) q = ring_ops ops (snd (kq_push ev q))"
| "ring_ops (KeyOut # ops) q =
     (let (out, q) = kq_pop q; (outs, q) = ring_ops ops q in (out # outs, q))"

fun list_ops :: "nat \<Rightarrow> key_op list \<Rightarrow> key_event list \<Rightarrow> key_event option list \<times> key_event list" where
  "list_ops n [] es = ([], es)"
| "list_ops n (KeyIn ev # ops) es = list_ops n ops (drop (Suc (length es) - n) (es @ [ev]))"
| "list_ops n (KeyOut # ops) es =
     (let (outs, es') = list_ops n ops (tl es) in ((case es of [] \<Rightarrow> None | e # _ \<Rightarrow> Some e) # outs, es'))"

lemma ring_index:
  assumes "h < n" "i < n" "j < n"
  shows "(h + i) mod n = (h + j) mod n \<longleftrightarrow> i = (j :: nat)"
proof -
  have "(h + k) mod n = (if h + k < n then h + k else h + k - n)" if "k < n" for k
    using that assms(1) by (simp add: mod_if)
  then show ?thesis using assms by auto
qed

lemma ring_next: "h < n \<Longrightarrow> Suc i < n \<Longrightarrow> (h + Suc i) mod n \<noteq> (h :: nat)"
  using ring_index [of h n "Suc i" 0] by simp

lemma ring_shift: "(Suc h mod n + i) mod n = (h + Suc i) mod (n :: nat)"
  by (simp add: mod_add_left_eq)

lemma length_kq_events [simp]: "length (kq_events q) = kq_len q"
  by (simp add: kq_events_def)

lemma kq_events_nth: "i < kq_len q \<Longrightarrow> kq_events q ! i = the (kq_buf q ! ((kq_head q + i) mod length (kq_buf q)))"
  by (simp add: kq_events_def)

lemma length_kq_push [simp]: "length (kq_buf (snd (kq_push ev q))) = length (kq_buf q)"
  by (simp add: kq_push_def Let_def)

lemma length_kq_pop [simp]: "length (kq_buf (snd (kq_pop q))) = length (kq_buf q)"
  by (simp add: kq_pop_def)

lemma kq_push_events:
  assumes "kq_wf q"
  shows "kq_wf (snd (kq_push ev q)) \<and>
    kq_events (snd (kq_push ev q)) = drop (Suc (kq_len q) - length (kq_buf q)) (kq_events q @ [ev])"
proof (cases "kq_len q = length (kq_buf q)")
  case True
  let ?n = "length (kq_buf q)" and ?h = "kq_head q"
  let ?q = "snd (kq_push ev q)"
  have h: "?h < ?n" and live: "\<And>i. i < ?n \<Longrightarrow> kq_buf q ! ((?h + i) mod ?n) \<noteq> None"
    using assms True by (auto simp: kq_wf_def)
  have q: "kq_buf ?q = (kq_buf q)[?h := Some ev]" "kq_head ?q = Suc ?h mod ?n" "kq_len ?q = ?n"
    using True by (simp_all add: kq_push_def Let_def)
  have slot: "kq_buf ?q ! ((kq_head ?q + i) mod ?n) = (if Suc i = ?n then Some ev else kq_buf q ! ((?h + Suc i) mod ?n))"
    if "i < ?n" for i
  proof (cases "Suc i = ?n")
    case last: True
    then have "(?h + Suc i) mod ?n = ?h" using h by simp
    then show ?thesis using last h unfolding q ring_shift by simp
  next
    case False
    then have "Suc i < ?n" using that by simp
    then have "(?h + Suc i) mod ?n \<noteq> ?h" by (rule ring_next [OF h])
    then show ?thesis using False h unfolding q ring_shift by (simp add: nth_list_update)
  qed
  have "kq_head ?q < ?n" unfolding q(2) by (rule mod_less_divisor) (use h in linarith)
  moreover have "kq_buf ?q ! ((kq_head ?q + i) mod ?n) \<noteq> None" if "i < ?n" for i
    using slot [OF that] live [of "Suc i"] that by (simp split: if_splits)
  ultimately have "kq_wf ?q" unfolding kq_wf_def using q(3) by simp
  moreover have "kq_events ?q = drop (Suc (kq_len q) - ?n) (kq_events q @ [ev])"
  proof (rule nth_equalityI)
    show "length (kq_events ?q) = length (drop (Suc (kq_len q) - ?n) (kq_events q @ [ev]))" using True q by simp
    fix i
    assume "i < length (kq_events ?q)"
    then have i: "i < ?n" using q by simp
    then show "kq_events ?q ! i = drop (Suc (kq_len q) - ?n) (kq_events q @ [ev]) ! i"
      using slot [OF i] q(3) True h kq_events_nth [of "Suc i" q] by (auto simp: kq_events_nth nth_append)
  qed
  ultimately show ?thesis by simp
next
  case False
  let ?n = "length (kq_buf q)" and ?h = "kq_head q" and ?l = "kq_len q"
  let ?q = "snd (kq_push ev q)"
  have h: "?h < ?n" "?l < ?n" and live: "\<And>i. i < ?l \<Longrightarrow> kq_buf q ! ((?h + i) mod ?n) \<noteq> None"
    using assms False by (auto simp: kq_wf_def)
  have q: "kq_buf ?q = (kq_buf q)[(?h + ?l) mod ?n := Some ev]" "kq_head ?q = ?h" "kq_len ?q = Suc ?l"
    using False by (simp_all add: kq_push_def Let_def)
  have slot: "kq_buf ?q ! ((?h + i) mod ?n) = (if i = ?l then Some ev else kq_buf q ! ((?h + i) mod ?n))"
    if "i < Suc ?l" for i
  proof -
    have "(?h + k) mod ?n < ?n" for k by (rule mod_less_divisor) (use h in linarith)
    then show ?thesis using that h ring_index [OF h(1), of i ?l] unfolding q(1) by (auto simp: nth_list_update)
  qed
  have "kq_wf ?q" using h slot live q by (auto simp: kq_wf_def less_Suc_eq)
  moreover have "kq_events ?q = kq_events q @ [ev]"
    by (rule nth_equalityI) (use slot q h in \<open>auto simp: kq_events_nth nth_append less_Suc_eq\<close>)
  ultimately show ?thesis using h by simp
qed

lemma kq_pop_events:
  assumes "kq_wf q"
  shows "kq_wf (snd (kq_pop q)) \<and> kq_events (snd (kq_pop q)) = tl (kq_events q) \<and>
    fst (kq_pop q) = (case kq_events q of [] \<Rightarrow> None | e # _ \<Rightarrow> Some e)"
proof (cases "kq_len q")
  case 0
  then show ?thesis using assms by (simp add: kq_pop_def kq_events_def)
next
  case (Suc l)
  let ?n = "length (kq_buf q)" and ?h = "kq_head q"
  let ?q = "snd (kq_pop q)"
  have h: "?h < ?n" "Suc l \<le> ?n" and live: "\<And>i. i < Suc l \<Longrightarrow> kq_buf q ! ((?h + i) mod ?n) \<noteq> None"
    using assms Suc by (auto simp: kq_wf_def)
  have q: "kq_buf ?q = (kq_buf q)[?h := None]" "kq_head ?q = Suc ?h mod ?n" "kq_len ?q = l"
    using Suc by (simp_all add: kq_pop_def)
  have slot: "kq_buf ?q ! ((kq_head ?q + i) mod ?n) = kq_buf q ! ((?h + Suc i) mod ?n)" if "i < l" for i
  proof -
    have "(?h + Suc i) mod ?n \<noteq> ?h" using ring_next [OF h(1), of i] that h(2) by simp
    then show ?thesis using h unfolding q ring_shift by (simp add: nth_list_update)
  qed
  have "kq_head ?q < ?n" unfolding q(2) by (rule mod_less_divisor) (use h in linarith)
  moreover have "kq_buf ?q ! ((kq_head ?q + i) mod ?n) \<noteq> None" if "i < l" for i
    using slot [OF that] live [of "Suc i"] that by simp
  ultimately have "kq_wf ?q" unfolding kq_wf_def using q(3) h(2) by simp
  moreover have "kq_events ?q = tl (kq_events q)"
    by (rule nth_equalityI) (use slot q Suc in \<open>auto simp: kq_events_nth nth_tl\<close>)
  moreover have "fst (kq_pop q) = Some (kq_events q ! 0)" "kq_events q \<noteq> []"
    using live [of 0] h Suc by (auto simp: kq_pop_def kq_events_nth simp flip: length_0_conv)
  ultimately show ?thesis by (cases "kq_events q") auto
qed

lemma ring_ops_wf:
  "kq_wf q \<Longrightarrow> fst (ring_ops ops q) = fst (list_ops (length (kq_buf q)) ops (kq_events q)) \<and>
     kq_wf (snd (ring_ops ops q)) \<and> kq_events (snd (ring_ops ops q)) = snd (list_ops (length (kq_buf q)) ops (kq_events q))"
proof (induction ops arbitrary: q)
  case (Cons op ops)
  show ?case
  proof (cases op)
    case (KeyIn ev)
    then show ?thesis using Cons.IH [of "snd (kq_push ev q)"] kq_push_events [OF Cons.prems, of ev] by simp
  next
    case KeyOut
    then show ?thesis using Cons.IH [of "snd (kq_pop q)"] kq_pop_events [OF Cons.prems] by (simp add: case_prod_beta Let_def)
  qed
qed simp

lemma key_queue_new_wf: "0 < n \<Longrightarrow> kq_wf (key_queue_new n)" "kq_events (key_queue_new n) = []"
  by (simp_all add: kq_wf_def key_queue_new_def kq_events_def)

section \<open>Properties\<close>

text \<open>
  C40. The key queue behaves as a plain list that forgets its oldest events: over any sequence of
  arriving keys and reads, the ring buffer hands out exactly the events a list cut to its last \<open>n\<close>
  elements would, and holds the same events in the same order.
\<close>

theorem key_queue_equivalent:
  assumes "0 < n"
  shows "fst (ring_ops ops (key_queue_new n)) = fst (list_ops n ops []) \<and>
    kq_events (snd (ring_ops ops (key_queue_new n))) = snd (list_ops n ops [])"
  using ring_ops_wf [OF key_queue_new_wf(1) [OF assms], of ops] unfolding key_queue_new_wf(2)
  by (simp add: key_queue_new_def)

theorem key_queue_equivalent_witness:
  "fst (ring_ops [KeyIn (key_event_new Key_Up), KeyIn (key_event_new Key_Down), KeyIn (key_event_new Key_Tab), KeyOut] (key_queue_new 2)) =
     [Some (key_event_new Key_Down)]"
  using key_queue_equivalent [of 2 "[KeyIn (key_event_new Key_Up), KeyIn (key_event_new Key_Down), KeyIn (key_event_new Key_Tab), KeyOut]"]
  by simp

end
