(* ===== verification/Net.thy ===== *)
theory Net
  imports Bytes Shared_Types
begin

unbundle bit_operations_syntax

text \<open>
  The protocol layers of \<open>cibos-net\<close>: the internet checksum, Ethernet II frames, ARP with its
  cache, IPv4, UDP and ICMP echo, as parsers and builders over byte strings. A parser returns \<open>None\<close> where a slice would leave the buffer; a builder
  writes into the caller's buffer and returns the length it used.
\<close>

section \<open>Addresses, errors, checksum\<close>

datatype mac_addr = MacAddr u8 u8 u8 u8 u8 u8

fun mac_bytes :: "mac_addr \<Rightarrow> u8 list" where
  "mac_bytes (MacAddr a b c d e f) = [a, b, c, d, e, f]"

definition MAC_BROADCAST :: mac_addr where
  "MAC_BROADCAST = MacAddr 0xFF 0xFF 0xFF 0xFF 0xFF 0xFF"

datatype ipv4_addr = Ipv4Addr u8 u8 u8 u8

fun octets :: "ipv4_addr \<Rightarrow> u8 list" where
  "octets (Ipv4Addr a b c d) = [a, b, c, d]"

definition IP_BROADCAST :: ipv4_addr where
  "IP_BROADCAST = Ipv4Addr 255 255 255 255"

text \<open>The address at an offset of a buffer that is long enough.\<close>

definition mac_at :: "u8 list \<Rightarrow> nat \<Rightarrow> mac_addr" where
  "mac_at buf i = MacAddr (buf ! i) (buf ! (i + 1)) (buf ! (i + 2)) (buf ! (i + 3)) (buf ! (i + 4)) (buf ! (i + 5))"

definition ip_at :: "u8 list \<Rightarrow> nat \<Rightarrow> ipv4_addr" where
  "ip_at buf i = Ipv4Addr (buf ! i) (buf ! (i + 1)) (buf ! (i + 2)) (buf ! (i + 3))"

lemma length_addr [simp]: "length (mac_bytes m) = 6" "length (octets a) = 4"
  by (cases m, simp, cases a, simp)

lemma addr_at:
  "length pre = i \<Longrightarrow> mac_at (pre @ mac_bytes m @ post) i = m" "length pre = i \<Longrightarrow> ip_at (pre @ octets a @ post) i = a"
  by (cases m, auto simp: mac_at_def nth_append) (cases a, auto simp: ip_at_def nth_append)

definition ETHERTYPE_IPV4 :: u16 where
  "ETHERTYPE_IPV4 = 0x0800"

definition ETHERTYPE_ARP :: u16 where
  "ETHERTYPE_ARP = 0x0806"

definition IP_PROTO_ICMP :: u8 where
  "IP_PROTO_ICMP = 1"

definition IP_PROTO_UDP :: u8 where
  "IP_PROTO_UDP = 17"

datatype net_error = NetTruncated | NetMalformed | NetBufferTooSmall | NetBadChecksum | NetUnsupported

text \<open>The two loops of the checksum: adding big-endian words, then folding the carries.\<close>

fun checksum_accumulate :: "u32 \<Rightarrow> u8 list \<Rightarrow> u32" where
  "checksum_accumulate acc (a # b # data) = checksum_accumulate (acc + ucast (from_be [a, b] :: u16)) data"
| "checksum_accumulate acc [a] = acc + ucast (from_be [a, 0] :: u16)"
| "checksum_accumulate acc [] = acc"

lemma word_halves: "unat (s AND 0xFFFF) = unat s mod 65536" "unat (drop_bit 16 s) = unat s div 65536" for s :: u32
proof -
  have "(0xFFFF :: u32) = mask 16" by (simp add: mask_eq_exp_minus_1)
  then have "s AND 0xFFFF = take_bit 16 s" by (simp only: take_bit_eq_mask)
  then show "unat (s AND 0xFFFF) = unat s mod 65536"
    by (simp only: unsigned_take_bit_eq) (simp add: take_bit_eq_mod)
  show "unat (drop_bit 16 s) = unat s div 65536"
    using unsigned_less [of s, where 'a = nat]
    by (simp only: unsigned_drop_bit_eq) (simp add: drop_bit_eq_div take_bit_nat_eq_self)
qed

lemma fold_step: "unat ((s AND 0xFFFF) + drop_bit 16 s) = unat s mod 65536 + unat s div 65536" for s :: u32
proof -
  have "unat s < 65536 * 65536" using unsigned_less [of s, where 'a = nat] by simp
  then have "unat s div 65536 < 65536" by (simp add: less_mult_imp_div_less)
  then show ?thesis by (simp add: unat_word_ariths word_halves)
qed

function fold_carries :: "u32 \<Rightarrow> u32" where
  "fold_carries s = (if drop_bit 16 s \<noteq> 0 then fold_carries ((s AND 0xFFFF) + drop_bit 16 s) else s)"
  by pat_completeness auto

termination
proof (relation "measure unat")
  fix s :: u32
  assume "drop_bit 16 s \<noteq> 0"
  then have "unat s div 65536 \<noteq> 0" unfolding word_halves(2) [symmetric] unat_eq_0 .
  then have "unat s mod 65536 + unat s div 65536 < unat s"
    using div_mult_mod_eq [of "unat s" 65536] by linarith
  then show "((s AND 0xFFFF) + drop_bit 16 s, s) \<in> measure unat" by (simp only: in_measure fold_step)
qed simp

declare fold_carries.simps [simp del]

definition checksum_fold :: "u32 \<Rightarrow> u16" where
  "checksum_fold acc = NOT (ucast (fold_carries acc))"

definition checksum :: "u8 list \<Rightarrow> u16" where
  "checksum data = NOT (ucast (fold_carries (checksum_accumulate 0 data)))"

text \<open>A sequence of \<open>copy_from_slice\<close> writes into a buffer.\<close>

fun splices :: "(nat \<times> u8 list) list \<Rightarrow> u8 list \<Rightarrow> u8 list option" where
  "splices [] out = Some out"
| "splices ((a, xs) # ws) out = (case splice_at a xs out of None \<Rightarrow> None | Some out \<Rightarrow> splices ws out)"

type_synonym net_build = "((net_error + nat) \<times> u8 list) option"

section \<open>Ethernet\<close>

definition ETH_HEADER_LEN :: nat where
  "ETH_HEADER_LEN = 14"

record eth_frame =
  eth_dst :: mac_addr
  eth_src :: mac_addr
  eth_type :: u16
  eth_payload :: "u8 list"

definition eth_parse :: "u8 list \<Rightarrow> net_error + eth_frame" where
  "eth_parse buf =
     (if length buf < ETH_HEADER_LEN then Inl NetTruncated
      else Inr \<lparr>eth_dst = mac_at buf 0, eth_src = mac_at buf 6, eth_type = from_be [buf ! 12, buf ! 13],
                eth_payload = drop ETH_HEADER_LEN buf\<rparr>)"

definition eth_build :: "u8 list \<Rightarrow> mac_addr \<Rightarrow> mac_addr \<Rightarrow> u16 \<Rightarrow> u8 list \<Rightarrow> net_build" where
  "eth_build out dst src ty payload =
     (let total = ETH_HEADER_LEN + length payload in
      if length out < total then Some (Inl NetBufferTooSmall, out)
      else
        map_option (\<lambda>out. (Inr total, out))
          (splices [(0, mac_bytes dst), (6, mac_bytes src), (12, to_be 2 ty), (ETH_HEADER_LEN, payload)] out))"

section \<open>ARP\<close>

definition ARP_LEN :: nat where
  "ARP_LEN = 28"

definition OPER_REQUEST :: u16 where
  "OPER_REQUEST = 1"

definition OPER_REPLY :: u16 where
  "OPER_REPLY = 2"

record arp_packet =
  oper :: u16
  sender_mac :: mac_addr
  sender_ip :: ipv4_addr
  target_mac :: mac_addr
  target_ip :: ipv4_addr

definition arp_parse :: "u8 list \<Rightarrow> net_error + arp_packet" where
  "arp_parse buf =
     (if length buf < ARP_LEN then Inl NetTruncated
      else
        let htype = from_be [buf ! 0, buf ! 1] :: u16; ptype = from_be [buf ! 2, buf ! 3] :: u16;
            hlen = buf ! 4; plen = buf ! 5 in
        if htype \<noteq> 1 \<or> ptype \<noteq> 0x0800 \<or> hlen \<noteq> 6 \<or> plen \<noteq> 4 then Inl NetMalformed
        else Inr \<lparr>oper = from_be [buf ! 6, buf ! 7], sender_mac = mac_at buf 8, sender_ip = ip_at buf 14,
                  target_mac = mac_at buf 18, target_ip = ip_at buf 24\<rparr>)"

definition arp_build :: "arp_packet \<Rightarrow> u8 list \<Rightarrow> net_build" where
  "arp_build p out =
     (if length out < ARP_LEN then Some (Inl NetBufferTooSmall, out)
      else
        map_option (\<lambda>out. (Inr ARP_LEN, out))
          (splices [(0, to_be 2 (1 :: u16)), (2, to_be 2 (0x0800 :: u16)), (4, [6]), (5, [4]), (6, to_be 2 (oper p)),
            (8, mac_bytes (sender_mac p)), (14, octets (sender_ip p)), (18, mac_bytes (target_mac p)), (24, octets (target_ip p))] out))"

definition arp_request :: "mac_addr \<Rightarrow> ipv4_addr \<Rightarrow> ipv4_addr \<Rightarrow> arp_packet" where
  "arp_request smac sip tip =
     \<lparr>oper = OPER_REQUEST, sender_mac = smac, sender_ip = sip, target_mac = MacAddr 0 0 0 0 0 0, target_ip = tip\<rparr>"

definition arp_reply :: "arp_packet \<Rightarrow> mac_addr \<Rightarrow> ipv4_addr \<Rightarrow> arp_packet" where
  "arp_reply req our_mac our_ip =
     \<lparr>oper = OPER_REPLY, sender_mac = our_mac, sender_ip = our_ip, target_mac = sender_mac req, target_ip = sender_ip req\<rparr>"

definition ARP_CAP :: nat where
  "ARP_CAP = 16"

record arp_cache =
  arp_entries :: "(ipv4_addr \<times> mac_addr) option list"
  arp_next :: nat

definition arp_cache_new :: arp_cache where
  "arp_cache_new = \<lparr>arp_entries = replicate ARP_CAP None, arp_next = 0\<rparr>"

fun arp_update :: "ipv4_addr \<Rightarrow> mac_addr \<Rightarrow> (ipv4_addr \<times> mac_addr) option list \<Rightarrow> (ipv4_addr \<times> mac_addr) option list option" where
  "arp_update ip mac [] = None"
| "arp_update ip mac (e # es) =
     (case e of
        Some (i, m) \<Rightarrow> if i = ip then Some (Some (i, mac) # es) else map_option ((#) e) (arp_update ip mac es)
      | None \<Rightarrow> map_option ((#) e) (arp_update ip mac es))"

definition arp_insert :: "ipv4_addr \<Rightarrow> mac_addr \<Rightarrow> arp_cache \<Rightarrow> arp_cache" where
  "arp_insert ip mac c =
     (case arp_update ip mac (arp_entries c) of
        Some es \<Rightarrow> c\<lparr>arp_entries := es\<rparr>
      | None \<Rightarrow> c\<lparr>arp_entries := (arp_entries c)[arp_next c := Some (ip, mac)], arp_next := (arp_next c + 1) mod ARP_CAP\<rparr>)"

fun arp_find :: "ipv4_addr \<Rightarrow> (ipv4_addr \<times> mac_addr) option list \<Rightarrow> mac_addr option" where
  "arp_find ip [] = None"
| "arp_find ip (e # es) =
     (case e of Some (i, m) \<Rightarrow> if i = ip then Some m else arp_find ip es | None \<Rightarrow> arp_find ip es)"

definition arp_lookup :: "ipv4_addr \<Rightarrow> arp_cache \<Rightarrow> mac_addr option" where
  "arp_lookup ip c = arp_find ip (arp_entries c)"

section \<open>IPv4\<close>

definition IPV4_HEADER_LEN :: nat where
  "IPV4_HEADER_LEN = 20"

record ipv4_packet =
  ip_protocol :: u8
  ip_src :: ipv4_addr
  ip_dst :: ipv4_addr
  ip_ttl :: u8
  ip_payload :: "u8 list"

definition ipv4_parse :: "u8 list \<Rightarrow> (net_error + ipv4_packet) option" where
  "ipv4_parse buf =
     (if length buf < IPV4_HEADER_LEN then Some (Inl NetTruncated)
      else
        let version = drop_bit 4 (buf ! 0); ihl = unat (buf ! 0 AND 0x0F) * 4 in
        if version \<noteq> 4 \<or> ihl < IPV4_HEADER_LEN \<or> length buf < ihl then Some (Inl NetMalformed)
        else
          let total_len = unat (from_be [buf ! 2, buf ! 3] :: u16) in
          if total_len < ihl \<or> length buf < total_len then Some (Inl NetMalformed)
          else
            case slice buf 0 ihl of
              None \<Rightarrow> None
            | Some header \<Rightarrow>
                if checksum header \<noteq> 0 then Some (Inl NetBadChecksum)
                else
                  map_option (\<lambda>payload. Inr \<lparr>ip_protocol = buf ! 9, ip_src = ip_at buf 12,
                      ip_dst = ip_at buf 16, ip_ttl = buf ! 8, ip_payload = payload\<rparr>)
                    (slice buf ihl total_len))"

definition ipv4_build ::
    "u8 list \<Rightarrow> ipv4_addr \<Rightarrow> ipv4_addr \<Rightarrow> u8 \<Rightarrow> u8 \<Rightarrow> u16 \<Rightarrow> u8 list \<Rightarrow> net_build" where
  "ipv4_build out src dst protocol ttl identification payload =
     (let total = IPV4_HEADER_LEN + length payload in
      if length out < total \<or> 0xFFFF < total then Some (Inl NetBufferTooSmall, out)
      else
        case splices [(0, [0x45]), (1, [0]), (2, to_be 2 (of_nat total :: u16)), (4, to_be 2 identification),
            (6, to_be 2 (0x4000 :: u16)), (8, [ttl]), (9, [protocol]), (10, [0, 0]), (12, octets src), (16, octets dst)] out of
          None \<Rightarrow> None
        | Some out \<Rightarrow>
            (case slice out 0 IPV4_HEADER_LEN of
               None \<Rightarrow> None
             | Some header \<Rightarrow>
                 map_option (\<lambda>out. (Inr total, out))
                   (splices [(10, to_be 2 (checksum header)), (IPV4_HEADER_LEN, payload)] out)))"

section \<open>UDP\<close>

definition UDP_HEADER_LEN :: nat where
  "UDP_HEADER_LEN = 8"

record udp_datagram =
  udp_src_port :: u16
  udp_dst_port :: u16
  udp_payload :: "u8 list"

definition pseudo_header_sum :: "ipv4_addr \<Rightarrow> ipv4_addr \<Rightarrow> u16 \<Rightarrow> u32" where
  "pseudo_header_sum src dst udp_len = checksum_accumulate 0 (octets src @ octets dst @ [0, IP_PROTO_UDP] @ to_be 2 udp_len)"

definition udp_parse :: "u8 list \<Rightarrow> ipv4_addr \<Rightarrow> ipv4_addr \<Rightarrow> (net_error + udp_datagram) option" where
  "udp_parse buf src dst =
     (if length buf < UDP_HEADER_LEN then Some (Inl NetTruncated)
      else
        let len = unat (from_be [buf ! 4, buf ! 5] :: u16) in
        if len < UDP_HEADER_LEN \<or> length buf < len then Some (Inl NetMalformed)
        else
          let csum = from_be [buf ! 6, buf ! 7] :: u16 in
          case slice buf 0 len of
            None \<Rightarrow> None
          | Some covered \<Rightarrow>
              if csum \<noteq> 0 \<and> checksum_fold (checksum_accumulate (pseudo_header_sum src dst (of_nat len)) covered) \<noteq> 0
              then Some (Inl NetBadChecksum)
              else
                map_option (\<lambda>payload. Inr \<lparr>udp_src_port = from_be [buf ! 0, buf ! 1], udp_dst_port = from_be [buf ! 2, buf ! 3],
                    udp_payload = payload\<rparr>) (slice buf UDP_HEADER_LEN len))"

definition udp_build :: "u8 list \<Rightarrow> ipv4_addr \<Rightarrow> ipv4_addr \<Rightarrow> u16 \<Rightarrow> u16 \<Rightarrow> u8 list \<Rightarrow> net_build" where
  "udp_build out src dst sport dport payload =
     (let total = UDP_HEADER_LEN + length payload in
      if length out < total \<or> 0xFFFF < total then Some (Inl NetBufferTooSmall, out)
      else
        case splices [(0, to_be 2 sport), (2, to_be 2 dport), (4, to_be 2 (of_nat total :: u16)), (6, [0, 0]),
            (UDP_HEADER_LEN, payload)] out of
          None \<Rightarrow> None
        | Some out \<Rightarrow>
            (case slice out 0 total of
               None \<Rightarrow> None
             | Some datagram \<Rightarrow>
                 let csum = checksum_fold (checksum_accumulate (pseudo_header_sum src dst (of_nat total)) datagram);
                     csum = if csum = 0 then 0xFFFF else csum in
                 map_option (\<lambda>out. (Inr total, out)) (splices [(6, to_be 2 csum)] out)))"

section \<open>ICMP echo\<close>

definition ECHO_REPLY :: u8 where
  "ECHO_REPLY = 0"

definition ECHO_REQUEST :: u8 where
  "ECHO_REQUEST = 8"

definition ICMP_ECHO_HEADER_LEN :: nat where
  "ICMP_ECHO_HEADER_LEN = 8"

record icmp_echo =
  is_reply :: bool
  echo_id :: u16
  echo_seq :: u16
  echo_payload :: "u8 list"

definition icmp_parse :: "u8 list \<Rightarrow> net_error + icmp_echo" where
  "icmp_parse buf =
     (if length buf < ICMP_ECHO_HEADER_LEN then Inl NetTruncated
      else if buf ! 0 \<noteq> ECHO_REPLY \<and> buf ! 0 \<noteq> ECHO_REQUEST then Inl NetMalformed
      else if checksum buf \<noteq> 0 then Inl NetBadChecksum
      else Inr \<lparr>is_reply = (buf ! 0 = ECHO_REPLY), echo_id = from_be [buf ! 4, buf ! 5], echo_seq = from_be [buf ! 6, buf ! 7],
                echo_payload = drop ICMP_ECHO_HEADER_LEN buf\<rparr>)"

definition icmp_build :: "u8 list \<Rightarrow> u8 \<Rightarrow> u16 \<Rightarrow> u16 \<Rightarrow> u8 list \<Rightarrow> net_build" where
  "icmp_build out ty ident sq payload =
     (let total = ICMP_ECHO_HEADER_LEN + length payload in
      if length out < total then Some (Inl NetBufferTooSmall, out)
      else
        case splices [(0, [ty]), (1, [0]), (2, [0, 0]), (4, to_be 2 ident), (6, to_be 2 sq), (ICMP_ECHO_HEADER_LEN, payload)] out of
          None \<Rightarrow> None
        | Some out \<Rightarrow>
            (case slice out 0 total of
               None \<Rightarrow> None
             | Some msg \<Rightarrow> map_option (\<lambda>out. (Inr total, out)) (splices [(2, to_be 2 (checksum msg))] out)))"

definition icmp_echo_request :: "u8 list \<Rightarrow> u16 \<Rightarrow> u16 \<Rightarrow> u8 list \<Rightarrow> net_build" where
  "icmp_echo_request out ident sq payload = icmp_build out ECHO_REQUEST ident sq payload"

definition icmp_echo_reply :: "u8 list \<Rightarrow> u16 \<Rightarrow> u16 \<Rightarrow> u8 list \<Rightarrow> net_build" where
  "icmp_echo_reply out ident sq payload = icmp_build out ECHO_REPLY ident sq payload"
section \<open>The checksum is a one's complement sum\<close>

text \<open>The sum of the big-endian words of a byte string, and its representative between 1 and \<open>0xFFFF\<close>.\<close>

fun words_sum :: "u8 list \<Rightarrow> nat" where
  "words_sum (a # b # data) = 256 * unat a + unat b + words_sum data"
| "words_sum [a] = 256 * unat a"
| "words_sum [] = 0"

definition ones_complement :: "nat \<Rightarrow> nat" where
  "ones_complement n = (if n = 0 then 0 else (n - 1) mod 65535 + 1)"

lemma byte_less: "unat (b :: u8) < 256"
  using unsigned_less [of b, where 'a = nat] by simp

lemma unat_widen: "unat (ucast w :: u32) = unat w" "unat (ucast b :: u16) = unat b" for w :: u16 and b :: u8
  using unsigned_less [of w, where 'a = nat] byte_less [of b] by (simp_all add: unsigned_ucast_eq take_bit_nat_eq_self)

lemma unat_of_nat16: "n \<le> 65535 \<Longrightarrow> unat (of_nat n :: u16) = n"
  by (simp add: unsigned_of_nat take_bit_nat_eq_self)

lemma unat_from_be2: "unat (from_be [a, b] :: u16) = 256 * unat a + unat b"
proof -
  have "(from_be [a, b] :: u16) = ucast b OR push_bit 8 (ucast a)" by (simp add: from_be_def)
  also have "\<dots> = ucast b + push_bit 8 (ucast a)"
    by (rule disjunctive_add [symmetric]) (auto simp: bit_simps dest: bit_imp_le_length)
  finally have "(from_be [a, b] :: u16) = ucast b + push_bit 8 (ucast a)" .
  moreover have "unat (push_bit 8 (ucast a) :: u16) = 256 * unat a"
    using byte_less [of a] by (simp add: push_bit_eq_mult unat_word_ariths unat_widen)
  moreover have "unat b + 256 * unat a < 65536" using byte_less [of a] byte_less [of b] by linarith
  ultimately show ?thesis by (simp add: unat_word_ariths unat_widen)
qed

lemma words_sum_bound: "words_sum data \<le> 65535 * (Suc (length data) div 2)"
proof (induction data rule: words_sum.induct)
  case (1 a b data)
  then show ?case using byte_less [of a] byte_less [of b] by simp
next
  case (2 a)
  then show ?case using byte_less [of a] by simp
qed simp

lemma words_sum_small: "length data \<le> 131072 \<Longrightarrow> words_sum data < 2 ^ 32"
proof -
  assume "length data \<le> 131072"
  then have "Suc (length data) div 2 \<le> 65536" by linarith
  then show ?thesis using words_sum_bound [of data] by simp
qed

lemma words_sum_append: "even (length xs) \<Longrightarrow> words_sum (xs @ ys) = words_sum xs + words_sum ys"
  by (induction xs rule: words_sum.induct) simp_all

lemma unat_accumulate:
  "unat acc + words_sum data < 2 ^ 32 \<Longrightarrow> unat (checksum_accumulate acc data) = unat acc + words_sum data"
proof (induction acc data rule: checksum_accumulate.induct)
  case (1 acc a b data)
  have "unat (acc + ucast (from_be [a, b] :: u16)) = unat acc + 256 * unat a + unat b"
    using 1(2) by (simp add: unat_word_ariths unat_widen unat_from_be2)
  then show ?case using 1 by simp
next
  case (2 acc a)
  then show ?case by (simp add: unat_word_ariths unat_widen unat_from_be2)
qed simp

lemma ones_complement_fold: "ones_complement (n mod 65536 + n div 65536) = ones_complement n"
proof (cases "n = 0")
  case False
  define q r where "q = n div 65536" and "r = n mod 65536"
  have n: "n = q * 65536 + r" by (simp add: q_def r_def)
  have pos: "0 < q + r" using False unfolding n by auto
  have "n - 1 = q * 65535 + (q + r - 1)" using pos unfolding n by simp
  then have "(n - 1) mod 65535 = (q + r - 1) mod 65535" by simp
  then show ?thesis using False pos unfolding q_def [symmetric] r_def [symmetric] by (simp add: ones_complement_def add.commute)
qed simp

lemma unat_fold_carries: "unat (fold_carries s) = ones_complement (unat s)"
proof (induction s rule: fold_carries.induct)
  case (1 s)
  show ?case
  proof (cases "drop_bit 16 s = 0")
    case True
    then have "unat s div 65536 = 0" using word_halves(2) [of s] by (simp only: unat_0)
    then have "unat s < 65536" by simp
    then show ?thesis using True by (subst fold_carries.simps) (simp add: ones_complement_def)
  next
    case False
    then show ?thesis
      using 1 by (subst fold_carries.simps) (simp only: if_True not_False_eq_True simp_thms fold_step ones_complement_fold)
  qed
qed

lemma ones_complement_le: "ones_complement n \<le> 65535"
proof -
  have "(n - 1) mod 65535 < 65535" by simp
  then have "(n - 1) mod 65535 + 1 \<le> 65535" by linarith
  then show ?thesis by (simp only: ones_complement_def split: if_split) simp
qed

lemma ones_complement_full: "ones_complement n = 65535 \<longleftrightarrow> n \<noteq> 0 \<and> 65535 dvd n"
proof (cases n)
  case (Suc m)
  have "m mod 65535 = 65534 \<longleftrightarrow> 65535 dvd Suc m" by (auto simp: dvd_eq_mod_eq_0 mod_Suc)
  then show ?thesis using Suc by (simp add: ones_complement_def)
qed (simp add: ones_complement_def)

lemma unat_not16: "unat (NOT (ucast (s :: u32)) :: u16) = 65535 - unat s" if "unat s \<le> 65535"
proof -
  have "unat (ucast s :: u16) = unat s" using that by (simp add: unsigned_ucast_eq take_bit_nat_eq_self)
  moreover have "(NOT (ucast s) :: u16) = 0xFFFF - ucast s" by (simp add: not_eq_complement)
  ultimately show ?thesis using that by (simp add: unat_sub word_le_nat_alt)
qed

lemma unat_checksum_fold: "unat (checksum_fold acc) = 65535 - ones_complement (unat acc)"
  using ones_complement_le [of "unat acc"] by (simp add: checksum_fold_def unat_not16 unat_fold_carries)

lemma checksum_is_fold: "checksum data = checksum_fold (checksum_accumulate 0 data)"
  by (simp add: checksum_def checksum_fold_def)

lemma checksum_fold_zero: "checksum_fold acc = 0 \<longleftrightarrow> unat acc \<noteq> 0 \<and> 65535 dvd unat acc"
proof -
  have "checksum_fold acc = 0 \<longleftrightarrow> ones_complement (unat acc) = 65535"
    using unat_checksum_fold [of acc] ones_complement_le [of "unat acc"] by (simp add: word_unat_eq_iff)
  then show ?thesis by (simp only: ones_complement_full)
qed

lemma checksum_zero:
  "length data \<le> 131072 \<Longrightarrow> checksum data = 0 \<longleftrightarrow> words_sum data \<noteq> 0 \<and> 65535 dvd words_sum data"
  using unat_accumulate [of 0 data] words_sum_small [of data] by (simp add: checksum_is_fold checksum_fold_zero)
section \<open>Sealing a message\<close>

text \<open>Writes that follow one another fill the buffer from the front.\<close>

fun laid :: "nat \<Rightarrow> u8 list list \<Rightarrow> (nat \<times> u8 list) list" where
  "laid off [] = []"
| "laid off (xs # xss) = (off, xs) # laid (off + length xs) xss"

lemma splices_laid:
  "length pre = off \<Longrightarrow> length (concat xss) \<le> length rest \<Longrightarrow>
   splices (laid off xss) (pre @ rest) = Some (pre @ concat xss @ drop (length (concat xss)) rest)"
proof (induction xss arbitrary: off pre rest)
  case (Cons xs xss)
  have "splice_at off xs (pre @ rest) = Some ((pre @ xs) @ drop (length xs) rest)"
    using Cons.prems by (simp add: splice_at_def)
  moreover have "splices (laid (off + length xs) xss) ((pre @ xs) @ drop (length xs) rest) =
      Some ((pre @ xs) @ concat xss @ drop (length (concat xss)) (drop (length xs) rest))"
    by (rule Cons.IH) (use Cons.prems in simp_all)
  ultimately show ?case by (simp add: add.commute)
qed simp

lemma slice_front: "length xs = n \<Longrightarrow> slice (xs @ ys) 0 n = Some xs"
  by (simp add: slice_def)

lemma splice_mid: "length pre = a \<Longrightarrow> length xs = length old \<Longrightarrow> splice_at a xs (pre @ old @ post) = Some (pre @ xs @ post)"
  by (simp add: splice_at_def)

lemma splice_end: "length pre = a \<Longrightarrow> length xs \<le> length rest \<Longrightarrow> splice_at a xs (pre @ rest) = Some (pre @ xs @ drop (length xs) rest)"
  by (simp add: splice_at_def)

lemma to_be2: "to_be 2 w = [ucast (drop_bit 8 w), ucast w]" for w :: u16
  by (simp add: to_be_def to_le_def upt_rec)

lemma to_be2_zero: "to_be 2 (0 :: u16) = [0, 0]"
  by (simp add: to_be2)

lemma words_sum_to_be: "words_sum (to_be 2 c) = unat c" for c :: u16
proof -
  have "from_be [ucast (drop_bit 8 c), ucast c] = c" using from_be_to_be [of 2 c] by (simp add: to_be2)
  then show ?thesis using unat_from_be2 [of "ucast (drop_bit 8 c)" "ucast c"] by (simp add: to_be2)
qed

lemma ones_complement_completes: "n + (65535 - ones_complement n) = (if n = 0 then 65535 else 65535 * ((n - 1) div 65535 + 1))"
proof (cases n)
  case (Suc m)
  define q r where "q = m div 65535" and "r = m mod 65535"
  have "m = 65535 * q + r" "r < 65535" by (simp_all add: q_def r_def)
  then show ?thesis using Suc unfolding ones_complement_def q_def [symmetric] r_def [symmetric] by (simp add: q_def [symmetric] r_def [symmetric])
qed (simp add: ones_complement_def)

text \<open>
  Putting the checksum of a message into a field that was zero makes the sum of the words a
  multiple of \<open>0xFFFF\<close>. \<open>acc0\<close> is what the sum starts from.
\<close>

lemma sealed_sum:
  assumes "unat acc0 + words_sum (pre @ [0, 0] @ post) < 2 ^ 32" "even (length pre)"
  defines "c \<equiv> checksum_fold (checksum_accumulate acc0 (pre @ [0, 0] @ post))"
  shows "65535 dvd unat acc0 + words_sum (pre @ to_be 2 c @ post)" "unat acc0 + words_sum (pre @ to_be 2 c @ post) \<noteq> 0"
    "c = 0 \<Longrightarrow> 65535 dvd unat acc0 + words_sum (pre @ [0, 0] @ post)"
proof -
  let ?n = "unat acc0 + words_sum (pre @ [0, 0] @ post)"
  have c: "unat c = 65535 - ones_complement ?n"
    unfolding c_def unat_checksum_fold unat_accumulate [OF assms(1)] ..
  have new: "unat acc0 + words_sum (pre @ to_be 2 c @ post) = ?n + unat c"
    using assms(2) by (simp add: words_sum_append words_sum_to_be)
  have sum: "?n + unat c = (if ?n = 0 then 65535 else 65535 * ((?n - 1) div 65535 + 1))"
    unfolding c by (rule ones_complement_completes)
  show "65535 dvd unat acc0 + words_sum (pre @ to_be 2 c @ post)" "unat acc0 + words_sum (pre @ to_be 2 c @ post) \<noteq> 0"
    unfolding new sum by simp_all
  show "65535 dvd ?n" if "c = 0"
    using that sum by (metis add_0_right dvd_0_right dvd_triv_left unat_0)
qed

lemma checksum_sealed:
  assumes "length pre + 2 + length post \<le> 131072" "even (length pre)"
  shows "checksum (pre @ to_be 2 (checksum (pre @ [0, 0] @ post)) @ post) = 0"
proof -
  have "unat 0 + words_sum (pre @ [0, 0] @ post) < 2 ^ 32"
    using words_sum_small [of "pre @ [0, 0] @ post"] assms(1) by simp
  from sealed_sum(1,2) [OF this assms(2)] show ?thesis
    using assms(1) by (subst checksum_zero) (simp_all add: checksum_is_fold)
qed
section \<open>What is built is parsed back\<close>

definition eth_bytes :: "mac_addr \<Rightarrow> mac_addr \<Rightarrow> u16 \<Rightarrow> u8 list \<Rightarrow> u8 list" where
  "eth_bytes dst src ty payload = mac_bytes dst @ mac_bytes src @ to_be 2 ty @ payload"

lemma length_eth_bytes [simp]: "length (eth_bytes dst src ty payload) = ETH_HEADER_LEN + length payload"
  by (simp add: eth_bytes_def ETH_HEADER_LEN_def)

lemma eth_build_bytes:
  assumes "ETH_HEADER_LEN + length payload \<le> length out"
  shows "eth_build out dst src ty payload = Some (Inr (ETH_HEADER_LEN + length payload),
    eth_bytes dst src ty payload @ drop (ETH_HEADER_LEN + length payload) out)"
proof -
  let ?ws = "[mac_bytes dst, mac_bytes src, to_be 2 ty, payload]"
  have ws: "[(0, mac_bytes dst), (6, mac_bytes src), (12, to_be 2 ty), (ETH_HEADER_LEN, payload)] = laid 0 ?ws"
    by (simp add: ETH_HEADER_LEN_def)
  have "splices (laid 0 ?ws) ([] @ out) = Some ([] @ concat ?ws @ drop (length (concat ?ws)) out)"
    by (rule splices_laid) (use assms in \<open>simp_all add: ETH_HEADER_LEN_def\<close>)
  then show ?thesis
    unfolding eth_build_def ws Let_def using assms by (simp add: eth_bytes_def ETH_HEADER_LEN_def add.commute)
qed

lemma eth_parse_bytes:
  "eth_parse (eth_bytes dst src ty payload) = Inr \<lparr>eth_dst = dst, eth_src = src, eth_type = ty, eth_payload = payload\<rparr>"
  using from_be_to_be [of 2 ty] addr_at(1) [of "[]" 0 dst] addr_at(1) [of "mac_bytes dst" 6 src]
  by (simp add: eth_parse_def eth_bytes_def ETH_HEADER_LEN_def to_be2 nth_append)

definition arp_bytes :: "arp_packet \<Rightarrow> u8 list" where
  "arp_bytes p = [0, 1, 8, 0, 6, 4] @ to_be 2 (oper p) @
     mac_bytes (sender_mac p) @ octets (sender_ip p) @ mac_bytes (target_mac p) @ octets (target_ip p)"

lemma length_arp_bytes [simp]: "length (arp_bytes p) = ARP_LEN"
  by (simp add: arp_bytes_def ARP_LEN_def)

lemma arp_build_bytes:
  assumes "ARP_LEN \<le> length out"
  shows "arp_build p out = Some (Inr ARP_LEN, arp_bytes p @ drop ARP_LEN out)"
proof -
  let ?ws = "[to_be 2 (1 :: u16), to_be 2 (0x0800 :: u16), [6], [4], to_be 2 (oper p),
    mac_bytes (sender_mac p), octets (sender_ip p), mac_bytes (target_mac p), octets (target_ip p)]"
  have ws: "[(0, to_be 2 (1 :: u16)), (2, to_be 2 (0x0800 :: u16)), (4, [6]), (5, [4]), (6, to_be 2 (oper p)),
      (8, mac_bytes (sender_mac p)), (14, octets (sender_ip p)), (18, mac_bytes (target_mac p)), (24, octets (target_ip p))] = laid 0 ?ws"
    by simp
  have "splices (laid 0 ?ws) ([] @ out) = Some ([] @ concat ?ws @ drop (length (concat ?ws)) out)"
    by (rule splices_laid) (use assms in \<open>simp_all add: ARP_LEN_def\<close>)
  moreover have "concat ?ws = arp_bytes p" by (simp add: arp_bytes_def to_be2)
  ultimately have "splices (laid 0 ?ws) out = Some (arp_bytes p @ drop ARP_LEN out)" by (simp only: length_arp_bytes append_Nil)
  then show ?thesis unfolding arp_build_def ws using assms by simp
qed

lemma arp_parse_bytes: "arp_parse (arp_bytes p) = Inr p"
proof -
  let ?h = "[0, 1, 8, 0, 6, 4] @ to_be 2 (oper p)"
  have at: "mac_at (arp_bytes p) 8 = sender_mac p" "ip_at (arp_bytes p) 14 = sender_ip p"
      "mac_at (arp_bytes p) 18 = target_mac p" "ip_at (arp_bytes p) 24 = target_ip p"
    using addr_at(1) [of ?h 8 "sender_mac p"] addr_at(2) [of "?h @ mac_bytes (sender_mac p)" 14 "sender_ip p"]
      addr_at(1) [of "?h @ mac_bytes (sender_mac p) @ octets (sender_ip p)" 18 "target_mac p"]
      addr_at(2) [of "?h @ mac_bytes (sender_mac p) @ octets (sender_ip p) @ mac_bytes (target_mac p)" 24 "target_ip p" "[]"]
    by (simp_all add: arp_bytes_def)
  have types: "from_be [0, 1] = (1 :: u16)" "from_be [8, 0] = (0x0800 :: u16)" by (simp_all add: from_be_def)
  show ?thesis
    using from_be_to_be [of 2 "oper p"] length_arp_bytes [of p]
    by (simp add: arp_parse_def at Let_def) (simp add: arp_bytes_def to_be2 types)
qed

definition ip_header :: "ipv4_addr \<Rightarrow> ipv4_addr \<Rightarrow> u8 \<Rightarrow> u8 \<Rightarrow> u16 \<Rightarrow> nat \<Rightarrow> u16 \<Rightarrow> u8 list" where
  "ip_header src dst protocol ttl ident n c =
     ([0x45, 0] @ to_be 2 (of_nat n :: u16) @ to_be 2 ident @ to_be 2 (0x4000 :: u16) @ [ttl, protocol]) @ to_be 2 c @ (octets src @ octets dst)"

definition ip_bytes :: "ipv4_addr \<Rightarrow> ipv4_addr \<Rightarrow> u8 \<Rightarrow> u8 \<Rightarrow> u16 \<Rightarrow> u8 list \<Rightarrow> u8 list" where
  "ip_bytes src dst protocol ttl ident payload =
     (let n = IPV4_HEADER_LEN + length payload in
      ip_header src dst protocol ttl ident n (checksum (ip_header src dst protocol ttl ident n 0)) @ payload)"

lemma length_ip_bytes [simp]:
  "length (ip_bytes src dst protocol ttl ident payload) = IPV4_HEADER_LEN + length payload"
  by (simp add: ip_bytes_def ip_header_def IPV4_HEADER_LEN_def Let_def)

lemma ipv4_build_bytes:
  assumes "IPV4_HEADER_LEN + length payload \<le> length out" "IPV4_HEADER_LEN + length payload \<le> 0xFFFF"
  shows "ipv4_build out src dst protocol ttl ident payload = Some (Inr (IPV4_HEADER_LEN + length payload),
    ip_bytes src dst protocol ttl ident payload @ drop (IPV4_HEADER_LEN + length payload) out)"
proof -
  let ?t = "IPV4_HEADER_LEN + length payload"
  let ?h = "ip_header src dst protocol ttl ident ?t"
  let ?ws = "[[0x45], [0], to_be 2 (of_nat ?t :: u16), to_be 2 ident, to_be 2 (0x4000 :: u16), [ttl], [protocol], [0, 0], octets src, octets dst]"
  have ws: "[(0, [0x45]), (1, [0]), (2, to_be 2 (of_nat ?t :: u16)), (4, to_be 2 ident), (6, to_be 2 (0x4000 :: u16)),
      (8, [ttl]), (9, [protocol]), (10, [0, 0]), (12, octets src), (16, octets dst)] = laid 0 ?ws"
    by simp
  have cat: "concat ?ws = ?h 0" by (simp add: ip_header_def to_be2_zero)
  have len: "length (?h c) = 20" for c by (simp add: ip_header_def)
  have "splices (laid 0 ?ws) ([] @ out) = Some ([] @ concat ?ws @ drop (length (concat ?ws)) out)"
    by (rule splices_laid) (use assms in \<open>simp_all add: IPV4_HEADER_LEN_def\<close>)
  then have first: "splices (laid 0 ?ws) out = Some (?h 0 @ drop 20 out)" unfolding cat len append_Nil .
  have header: "slice (?h 0 @ drop 20 out) 0 IPV4_HEADER_LEN = Some (?h 0)"
    by (rule slice_front, subst len) (simp add: IPV4_HEADER_LEN_def)
  have "splices [(10, to_be 2 c), (IPV4_HEADER_LEN, payload)] (?h 0 @ drop 20 out) = Some (?h c @ payload @ drop ?t out)" for c
  proof -
    have "splice_at 10 (to_be 2 c) (?h 0 @ drop 20 out) = Some (?h c @ drop 20 out)"
      unfolding ip_header_def append_assoc by (subst append_assoc [symmetric])+ (simp add: splice_at_def)
    moreover have "splice_at IPV4_HEADER_LEN payload (?h c @ drop 20 out) = Some (?h c @ payload @ drop (length payload) (drop 20 out))"
      by (rule splice_end, subst len) (use assms(1) in \<open>simp_all add: IPV4_HEADER_LEN_def\<close>)
    ultimately show ?thesis by (simp add: IPV4_HEADER_LEN_def add.commute)
  qed
  then show ?thesis
    unfolding ipv4_build_def Let_def ws first option.case header using assms by (simp add: ip_bytes_def Let_def)
qed

lemma ipv4_parse_bytes:
  assumes "IPV4_HEADER_LEN + length payload \<le> 0xFFFF"
  shows "ipv4_parse (ip_bytes src dst protocol ttl ident payload) =
    Some (Inr \<lparr>ip_protocol = protocol, ip_src = src, ip_dst = dst, ip_ttl = ttl, ip_payload = payload\<rparr>)"
proof -
  let ?t = "IPV4_HEADER_LEN + length payload"
  define h where "h = ip_header src dst protocol ttl ident ?t (checksum (ip_header src dst protocol ttl ident ?t 0))"
  have buf: "ip_bytes src dst protocol ttl ident payload = h @ payload" by (simp add: ip_bytes_def h_def Let_def)
  have len: "length h = 20" by (simp add: h_def ip_header_def)
  have seal: "checksum h = 0"
    unfolding h_def ip_header_def to_be2_zero by (rule checksum_sealed) (use assms in simp_all)
  have total: "unat (from_be [h ! 2, h ! 3] :: u16) = ?t"
  proof -
    have "from_be [h ! 2, h ! 3] = (of_nat ?t :: u16)"
      using from_be_to_be [of 2 "of_nat ?t :: u16"] by (simp add: h_def ip_header_def to_be2)
    then show ?thesis using unat_of_nat16 [OF assms] by (simp only:)
  qed
  have fields: "h ! 0 = 0x45" "h ! 8 = ttl" "h ! 9 = protocol" "ip_at (h @ payload) 12 = src" "ip_at (h @ payload) 16 = dst"
    using addr_at(2) [of "take 12 h" 12 src "octets dst @ payload"] addr_at(2) [of "take 16 h" 16 dst payload]
    by (simp_all add: h_def ip_header_def to_be2)
  show ?thesis
    unfolding buf ipv4_parse_def Let_def
    using len seal total fields by (simp add: IPV4_HEADER_LEN_def nth_append)
qed
definition udp_message :: "u16 \<Rightarrow> u16 \<Rightarrow> u8 list \<Rightarrow> u16 \<Rightarrow> u8 list" where
  "udp_message sport dport payload c =
     (to_be 2 sport @ to_be 2 dport @ to_be 2 (of_nat (UDP_HEADER_LEN + length payload) :: u16)) @ to_be 2 c @ payload"

definition udp_checksum :: "ipv4_addr \<Rightarrow> ipv4_addr \<Rightarrow> u16 \<Rightarrow> u16 \<Rightarrow> u8 list \<Rightarrow> u16" where
  "udp_checksum src dst sport dport payload =
     (let c = checksum_fold (checksum_accumulate (pseudo_header_sum src dst (of_nat (UDP_HEADER_LEN + length payload)))
        (udp_message sport dport payload 0)) in if c = 0 then 0xFFFF else c)"

definition udp_bytes :: "ipv4_addr \<Rightarrow> ipv4_addr \<Rightarrow> u16 \<Rightarrow> u16 \<Rightarrow> u8 list \<Rightarrow> u8 list" where
  "udp_bytes src dst sport dport payload = udp_message sport dport payload (udp_checksum src dst sport dport payload)"

lemma length_udp_message [simp]: "length (udp_message sport dport payload c) = UDP_HEADER_LEN + length payload"
  by (simp add: udp_message_def UDP_HEADER_LEN_def)

lemma length_udp_bytes [simp]: "length (udp_bytes src dst sport dport payload) = UDP_HEADER_LEN + length payload"
  by (simp add: udp_bytes_def)

lemma udp_build_bytes:
  assumes "UDP_HEADER_LEN + length payload \<le> length out" "UDP_HEADER_LEN + length payload \<le> 0xFFFF"
  shows "udp_build out src dst sport dport payload = Some (Inr (UDP_HEADER_LEN + length payload),
    udp_bytes src dst sport dport payload @ drop (UDP_HEADER_LEN + length payload) out)"
proof -
  let ?t = "UDP_HEADER_LEN + length payload"
  let ?m = "udp_message sport dport payload"
  let ?ws = "[to_be 2 sport, to_be 2 dport, to_be 2 (of_nat ?t :: u16), [0, 0], payload]"
  have ws: "[(0, to_be 2 sport), (2, to_be 2 dport), (4, to_be 2 (of_nat ?t :: u16)), (6, [0, 0]), (UDP_HEADER_LEN, payload)] = laid 0 ?ws"
    by (simp add: UDP_HEADER_LEN_def)
  have cat: "concat ?ws = ?m 0" by (simp add: udp_message_def to_be2_zero)
  have "splices (laid 0 ?ws) ([] @ out) = Some ([] @ concat ?ws @ drop (length (concat ?ws)) out)"
    by (rule splices_laid) (use assms in \<open>simp_all add: UDP_HEADER_LEN_def\<close>)
  then have first: "splices (laid 0 ?ws) out = Some (?m 0 @ drop ?t out)" unfolding cat length_udp_message append_Nil .
  have datagram: "slice (?m 0 @ drop ?t out) 0 ?t = Some (?m 0)" by (rule slice_front) simp
  have "splices [(6, to_be 2 c)] (?m 0 @ drop ?t out) = Some (?m c @ drop ?t out)" for c
    unfolding udp_message_def append_assoc by (subst append_assoc [symmetric])+ (simp add: splice_at_def)
  then show ?thesis
    unfolding udp_build_def Let_def ws first option.case datagram using assms by (simp add: udp_bytes_def udp_checksum_def Let_def)
qed

lemma udp_sum_small:
  assumes "UDP_HEADER_LEN + length payload \<le> 0xFFFF"
  shows "unat (pseudo_header_sum src dst n) + words_sum (udp_message sport dport payload x) < 2 ^ 32"
proof -
  have ph: "words_sum (octets src @ octets dst @ [0, IP_PROTO_UDP] @ to_be 2 n) \<le> 393210"
    using words_sum_bound [of "octets src @ octets dst @ [0, IP_PROTO_UDP] @ to_be 2 n"] by simp
  have "unat (pseudo_header_sum src dst n) = words_sum (octets src @ octets dst @ [0, IP_PROTO_UDP] @ to_be 2 n)"
    unfolding pseudo_header_sum_def using unat_accumulate [of 0] ph by simp
  moreover have "Suc (length (udp_message sport dport payload x)) div 2 \<le> 32768" using assms by simp
  ultimately show ?thesis using ph words_sum_bound [of "udp_message sport dport payload x"] by simp
qed

lemma udp_checksum_valid:
  assumes "UDP_HEADER_LEN + length payload \<le> 0xFFFF"
  shows "checksum_fold (checksum_accumulate (pseudo_header_sum src dst (of_nat (UDP_HEADER_LEN + length payload)))
    (udp_bytes src dst sport dport payload)) = 0"
proof -
  define acc where "acc = pseudo_header_sum src dst (of_nat (UDP_HEADER_LEN + length payload))"
  define pre where "pre = to_be 2 sport @ to_be 2 dport @ to_be 2 (of_nat (UDP_HEADER_LEN + length payload) :: u16)"
  define m where "m = udp_message sport dport payload"
  have m: "m x = pre @ to_be 2 x @ payload" for x by (simp add: m_def udp_message_def pre_def)
  have m0: "m 0 = pre @ [0, 0] @ payload" by (simp add: m to_be2_zero)
  have small: "unat acc + words_sum (m x) < 2 ^ 32" for x unfolding acc_def m_def by (rule udp_sum_small [OF assms])
  have pre: "even (length pre)" by (simp add: pre_def)
  note seal = sealed_sum [OF small [of 0, unfolded m0] pre, folded m0, folded m]
  define c where "c = checksum_fold (checksum_accumulate acc (m 0))"
  have bytes: "udp_bytes src dst sport dport payload = m (if c = 0 then 0xFFFF else c)"
    by (simp add: udp_bytes_def udp_checksum_def Let_def c_def m_def acc_def)
  have "65535 dvd unat acc + words_sum (m (if c = 0 then 0xFFFF else c)) \<and> unat acc + words_sum (m (if c = 0 then 0xFFFF else c)) \<noteq> 0"
  proof (cases "c = 0")
    case True
    have "words_sum (m 0xFFFF) = words_sum (m 0) + 65535"
      unfolding m using pre by (simp add: words_sum_append words_sum_to_be)
    moreover have "65535 dvd unat acc + words_sum (m 0)" using seal(3) True by (simp only: c_def)
    ultimately show ?thesis using True by (simp add: add.assoc [symmetric])
  next
    case False
    then show ?thesis using seal(1,2) by (simp only: c_def if_False simp_thms)
  qed
  then show ?thesis
    unfolding acc_def [symmetric] bytes checksum_fold_zero unat_accumulate [OF small] by (simp only: simp_thms)
qed

lemma udp_parse_bytes:
  assumes "UDP_HEADER_LEN + length payload \<le> 0xFFFF"
  shows "udp_parse (udp_bytes src dst sport dport payload) src dst =
    Some (Inr \<lparr>udp_src_port = sport, udp_dst_port = dport, udp_payload = payload\<rparr>)"
proof -
  let ?t = "UDP_HEADER_LEN + length payload"
  define b where "b = udp_bytes src dst sport dport payload"
  have len: "length b = ?t" by (simp add: b_def)
  have ports: "from_be [b ! 0, b ! 1] = sport" "from_be [b ! 2, b ! 3] = dport" "from_be [b ! 4, b ! 5] = (of_nat ?t :: u16)"
    unfolding b_def udp_bytes_def udp_message_def to_be2
    using from_be_to_be [of 2 sport] from_be_to_be [of 2 dport] from_be_to_be [of 2 "of_nat ?t :: u16"] by (simp_all add: to_be2)
  have slices: "slice b 0 ?t = Some b" "slice b UDP_HEADER_LEN ?t = Some payload"
    using len by (simp_all add: slice_def) (simp add: b_def udp_bytes_def udp_message_def UDP_HEADER_LEN_def)
  show ?thesis
    unfolding udp_parse_def Let_def b_def [symmetric] ports unat_of_nat16 [OF assms] slices option.case
    using udp_checksum_valid [OF assms, of src dst sport dport] len by (simp add: b_def [symmetric])
qed
definition icmp_message :: "u8 \<Rightarrow> u16 \<Rightarrow> u16 \<Rightarrow> u8 list \<Rightarrow> u16 \<Rightarrow> u8 list" where
  "icmp_message ty ident sq payload c = [ty, 0] @ to_be 2 c @ (to_be 2 ident @ to_be 2 sq @ payload)"

definition icmp_bytes :: "u8 \<Rightarrow> u16 \<Rightarrow> u16 \<Rightarrow> u8 list \<Rightarrow> u8 list" where
  "icmp_bytes ty ident sq payload = icmp_message ty ident sq payload (checksum (icmp_message ty ident sq payload 0))"

lemma length_icmp_message [simp]: "length (icmp_message ty ident sq payload c) = ICMP_ECHO_HEADER_LEN + length payload"
  by (simp add: icmp_message_def ICMP_ECHO_HEADER_LEN_def)

lemma length_icmp_bytes [simp]: "length (icmp_bytes ty ident sq payload) = ICMP_ECHO_HEADER_LEN + length payload"
  by (simp add: icmp_bytes_def)

lemma icmp_build_bytes:
  assumes "ICMP_ECHO_HEADER_LEN + length payload \<le> length out"
  shows "icmp_build out ty ident sq payload = Some (Inr (ICMP_ECHO_HEADER_LEN + length payload),
    icmp_bytes ty ident sq payload @ drop (ICMP_ECHO_HEADER_LEN + length payload) out)"
proof -
  let ?t = "ICMP_ECHO_HEADER_LEN + length payload"
  let ?m = "icmp_message ty ident sq payload"
  let ?ws = "[[ty], [0], [0, 0], to_be 2 ident, to_be 2 sq, payload]"
  have ws: "[(0, [ty]), (1, [0]), (2, [0, 0]), (4, to_be 2 ident), (6, to_be 2 sq), (ICMP_ECHO_HEADER_LEN, payload)] = laid 0 ?ws"
    by (simp add: ICMP_ECHO_HEADER_LEN_def)
  have cat: "concat ?ws = ?m 0" by (simp add: icmp_message_def to_be2_zero)
  have "splices (laid 0 ?ws) ([] @ out) = Some ([] @ concat ?ws @ drop (length (concat ?ws)) out)"
    by (rule splices_laid) (use assms in \<open>simp_all add: ICMP_ECHO_HEADER_LEN_def\<close>)
  then have first: "splices (laid 0 ?ws) out = Some (?m 0 @ drop ?t out)" unfolding cat length_icmp_message append_Nil .
  have msg: "slice (?m 0 @ drop ?t out) 0 ?t = Some (?m 0)" by (rule slice_front) simp
  have "splices [(2, to_be 2 c)] (?m 0 @ drop ?t out) = Some (?m c @ drop ?t out)" for c
    unfolding icmp_message_def append_assoc by (simp add: splice_at_def)
  then show ?thesis
    unfolding icmp_build_def Let_def ws first option.case msg using assms by (simp add: icmp_bytes_def)
qed

lemma icmp_parse_bytes:
  assumes "ty = ECHO_REPLY \<or> ty = ECHO_REQUEST" "ICMP_ECHO_HEADER_LEN + length payload \<le> 131072"
  shows "icmp_parse (icmp_bytes ty ident sq payload) =
    Inr \<lparr>is_reply = (ty = ECHO_REPLY), echo_id = ident, echo_seq = sq, echo_payload = payload\<rparr>"
proof -
  define b where "b = icmp_bytes ty ident sq payload"
  have len: "length b = ICMP_ECHO_HEADER_LEN + length payload" by (simp add: b_def)
  have seal: "checksum b = 0"
    unfolding b_def icmp_bytes_def icmp_message_def to_be2_zero
    by (rule checksum_sealed) (use assms(2) in \<open>simp_all add: ICMP_ECHO_HEADER_LEN_def\<close>)
  have fields: "b ! 0 = ty" "from_be [b ! 4, b ! 5] = ident" "from_be [b ! 6, b ! 7] = sq" "drop ICMP_ECHO_HEADER_LEN b = payload"
    unfolding b_def icmp_bytes_def icmp_message_def to_be2
    using from_be_to_be [of 2 ident] from_be_to_be [of 2 sq] by (simp_all add: to_be2 ICMP_ECHO_HEADER_LEN_def)
  show ?thesis
    unfolding icmp_parse_def b_def [symmetric] fields seal using assms(1) len by auto
qed

section \<open>Parsers refuse what is damaged\<close>

lemma parsers_total:
  "ipv4_parse buf \<noteq> None" "udp_parse buf src dst \<noteq> None"
  by (auto simp: ipv4_parse_def udp_parse_def Let_def slice_def)

text \<open>Changing one byte changes the sum by less than \<open>0xFFFF\<close>.\<close>

lemma words_sum_update:
  "i < length xs \<Longrightarrow>
   int (words_sum (xs[i := x])) = int (words_sum xs) + (int (unat x) - int (unat (xs ! i))) * (if even i then 256 else 1)"
proof (induction xs arbitrary: i rule: words_sum.induct)
  case (1 a b data)
  consider "i = 0" | "i = 1" | j where "i = j + 2" by (metis One_nat_def add_2_eq_Suc' not0_implies_Suc)
  then show ?case
  proof cases
    case 3
    then show ?thesis using 1 by simp
  qed (simp_all add: algebra_simps)
qed (simp_all add: algebra_simps)

lemma single_byte_change:
  assumes "length xs \<le> 131072" "i < length xs" "x \<noteq> xs ! i" "checksum xs = 0"
  shows "checksum (xs[i := x]) \<noteq> 0"
proof
  assume "checksum (xs[i := x]) = 0"
  then have "65535 dvd int (words_sum (xs[i := x]))" "65535 dvd int (words_sum xs)"
    using assms(1,4) by (simp_all add: checksum_zero flip: int_dvd_int_iff)
  then have "65535 dvd int (words_sum (xs[i := x])) - int (words_sum xs)" by (rule dvd_diff)
  then have d: "65535 dvd (int (unat x) - int (unat (xs ! i))) * (if even i then 256 else 1)"
    unfolding words_sum_update [OF assms(2)] by simp
  have "unat x \<noteq> unat (xs ! i)" using assms(3) by (simp add: word_unat_eq_iff)
  then have "int (unat x) \<noteq> int (unat (xs ! i))" by (simp only: of_nat_eq_iff simp_thms)
  then have "(int (unat x) - int (unat (xs ! i))) * (if even i then 256 else 1) \<noteq> 0" by simp
  from dvd_imp_le_int [OF this d] have "65535 \<le> \<bar>(int (unat x) - int (unat (xs ! i))) * (if even i then 256 else 1)\<bar>" by simp
  moreover have "\<bar>int (unat x) - int (unat (xs ! i))\<bar> \<le> 255" using byte_less [of x] byte_less [of "xs ! i"] by linarith
  ultimately show False by (simp only: abs_mult split: if_splits) auto
qed
section \<open>Properties\<close>

text \<open>
  C39. The checksum loops compute the internet checksum: on up to 128 KiB the 32-bit running sum does
  not wrap, and the result is the complement of the one's complement sum of the big-endian words,
  the last byte padded with zero. A sum continued over a second part, as for the UDP
  pseudo-header, gives the checksum of the whole when the first part has even length.
\<close>

theorem checksum_equivalent:
  assumes "length (xs @ ys) \<le> 131072" "even (length xs)"
  shows "checksum_fold (checksum_accumulate (checksum_accumulate 0 xs) ys) = checksum (xs @ ys) \<and>
    unat (checksum (xs @ ys)) = 65535 - ones_complement (words_sum (xs @ ys))"
proof -
  have sum: "words_sum xs + words_sum ys < 2 ^ 32"
    using words_sum_small [OF assms(1)] by (simp add: words_sum_append [OF assms(2)])
  then have "unat (checksum_accumulate 0 xs) = words_sum xs" using unat_accumulate [of 0 xs] by simp
  then have "unat (checksum_accumulate (checksum_accumulate 0 xs) ys) = words_sum (xs @ ys)"
    using unat_accumulate [of "checksum_accumulate 0 xs" ys] sum by (simp add: words_sum_append [OF assms(2)])
  moreover have whole: "unat (checksum_accumulate 0 (xs @ ys)) = words_sum (xs @ ys)"
    using unat_accumulate [of 0 "xs @ ys"] words_sum_small [OF assms(1)] by simp
  ultimately have "checksum_accumulate (checksum_accumulate 0 xs) ys = checksum_accumulate 0 (xs @ ys)"
    by (simp only: word_unat_eq_iff)
  then show ?thesis by (simp add: checksum_is_fold unat_checksum_fold whole)
qed

theorem checksum_equivalent_witness:
  "checksum ([0x45, 0x00, 0x00, 0x73, 0x00, 0x00, 0x40, 0x00, 0x40, 0x11] @
     [0x00, 0x00, 0xc0, 0xa8, 0x00, 0x01, 0xc0, 0xa8, 0x00, 0xc7]) = 0xb861"
proof -
  let ?xs = "[0x45, 0x00, 0x00, 0x73, 0x00, 0x00, 0x40, 0x00, 0x40, 0x11] :: u8 list"
  let ?ys = "[0x00, 0x00, 0xc0, 0xa8, 0x00, 0x01, 0xc0, 0xa8, 0x00, 0xc7] :: u8 list"
  have "unat (checksum (?xs @ ?ys)) = 65535 - ones_complement (words_sum (?xs @ ?ys))"
    by (rule checksum_equivalent [THEN conjunct2]) simp_all
  also have "\<dots> = 0xb861" by (simp add: ones_complement_def)
  finally show ?thesis by (simp add: word_unat_eq_iff)
qed

text \<open>
  C38. A damaged IPv4 header is not accepted: after a datagram that parses, changing any one byte of
  its header other than the version and length byte, to any other value, makes the parser report
  an error. The parser never panics, whatever bytes it is given.
\<close>

theorem ipv4_header_protected:
  assumes "ipv4_parse buf = Some (Inr p)" "0 < i" "i < 4 * unat (buf ! 0 AND 0x0F)" "x \<noteq> buf ! i"
  shows "(\<exists>e. ipv4_parse (buf[i := x]) = Some (Inl e)) \<and> (\<forall>any. ipv4_parse any \<noteq> None)"
proof -
  define ihl where "ihl = unat (buf ! 0 AND 0x0F) * 4"
  have ok: "ihl \<le> length buf" "checksum (take ihl buf) = 0"
    using assms(1) by (auto simp: ipv4_parse_def Let_def ihl_def slice_def split: if_splits)
  have i: "i < ihl" using assms(3) by (simp add: ihl_def)
  have first: "buf[i := x] ! 0 = buf ! 0" using assms(2) by simp
  have "buf ! 0 AND 0x0F \<le> (0x0F :: u8)" by (rule word_and_le1)
  then have "unat (buf ! 0 AND 0x0F) \<le> 15" by (simp add: word_le_nat_alt)
  then have "ihl \<le> 60" by (simp add: ihl_def)
  then have "checksum ((take ihl buf)[i := x]) \<noteq> 0"
    by (intro single_byte_change ok(2)) (use i ok(1) assms(4) in simp_all)
  then have bad: "checksum (take ihl (buf[i := x])) \<noteq> 0" by (simp add: take_update_swap)
  have "ipv4_parse (buf[i := x]) \<noteq> Some (Inr q)" for q
    unfolding ipv4_parse_def Let_def first ihl_def [symmetric] length_list_update
    using bad by (auto simp: slice_def)
  then show ?thesis using parsers_total(1) by (metis not_None_eq old.sum.exhaust)
qed

theorem ipv4_header_protected_witness:
  "\<exists>e. ipv4_parse ((ip_bytes (Ipv4Addr 10 0 2 15) (Ipv4Addr 10 0 2 2) 17 64 0 [1, 2, 3])[12 := 11]) = Some (Inl e)"
proof -
  let ?b = "ip_bytes (Ipv4Addr 10 0 2 15) (Ipv4Addr 10 0 2 2) 17 64 0 [1, 2, 3]"
  have p: "ipv4_parse ?b = Some (Inr \<lparr>ip_protocol = 17, ip_src = Ipv4Addr 10 0 2 15, ip_dst = Ipv4Addr 10 0 2 2, ip_ttl = 64, ip_payload = [1, 2, 3]\<rparr>)"
    by (rule ipv4_parse_bytes) (simp_all add: IPV4_HEADER_LEN_def)
  have "?b ! 0 = 0x45" "?b ! 12 = 10" by (simp_all add: ip_bytes_def ip_header_def to_be2 Let_def)
  then show ?thesis using ipv4_header_protected [OF p, of 12 11] by simp
qed

end
