(* ===== verification/Net_Stack.thy ===== *)
theory Net_Stack
  imports Net
begin

unbundle bit_operations_syntax

text \<open>
  The transport of \<open>kernel-image/src/net_stack.rs\<close> over a network device: address resolution,
  sending a UDP datagram, polling for one while answering ARP and ping, and the remote end of a
  Link. The device is a record of the operations of the \<open>NetDevice\<close> trait of
  \<open>cibos-kernel/src/net_device.rs\<close>; \<open>NIC\<close> and \<open>STACK\<close>, the two statics, are optional fields of
  the state.
\<close>

section \<open>Devices\<close>

datatype net_device_error = LinkDown | FrameTooLarge | TransmitBusy | NetDeviceFailed

text \<open>
  A received frame is given by the bytes written to the front of a buffer of the given size.
\<close>

record 'n net_dev =
  send_frame :: "u8 list \<Rightarrow> 'n \<Rightarrow> (net_device_error + unit) \<times> 'n"
  recv_frame :: "nat \<Rightarrow> 'n \<Rightarrow> (net_device_error + u8 list option) \<times> 'n"

text \<open>The in-memory loopback interface: what is sent is queued and received on the same device.\<close>

record loopback_nic =
  nic_up :: bool
  nic_queue :: "u8 list list"

definition DEFAULT_MTU :: nat where
  "DEFAULT_MTU = 1500"

definition loopback_send :: "u8 list \<Rightarrow> loopback_nic \<Rightarrow> (net_device_error + unit) \<times> loopback_nic" where
  "loopback_send frame n =
     (if \<not> nic_up n then (Inl LinkDown, n)
      else if DEFAULT_MTU < length frame then (Inl FrameTooLarge, n)
      else (Inr (), n\<lparr>nic_queue := nic_queue n @ [frame]\<rparr>))"

definition loopback_recv :: "nat \<Rightarrow> loopback_nic \<Rightarrow> (net_device_error + u8 list option) \<times> loopback_nic" where
  "loopback_recv k n =
     (if \<not> nic_up n then (Inl LinkDown, n)
      else
        case nic_queue n of
          [] \<Rightarrow> (Inr None, n)
        | frame # rest \<Rightarrow> if k < length frame then (Inl FrameTooLarge, n) else (Inr (Some frame), n\<lparr>nic_queue := rest\<rparr>))"

definition loopback_dev :: "loopback_nic net_dev" where
  "loopback_dev = \<lparr>send_frame = loopback_send, recv_frame = loopback_recv\<rparr>"

section \<open>The stack\<close>

record net_config =
  cfg_mac :: mac_addr
  cfg_ip :: ipv4_addr
  cfg_gateway :: ipv4_addr
  cfg_netmask :: "u8 list"

record net_stack =
  stack_cfg :: net_config
  stack_arp :: arp_cache

record 'n net_state =
  net_nic :: "'n option"
  net_stack_of :: "net_stack option"

datatype transport_error = NoNic | Unconfigured | ArpTimeout | TransportNet net_error | TransportDevice

type_synonym ('n, 'a) net_action = "(net_stack \<times> 'n, transport_error, 'a) action"

definition configure :: "mac_addr \<Rightarrow> 'n net_state \<Rightarrow> 'n net_state" where
  "configure mac s = s\<lparr>net_stack_of := Some
     \<lparr>stack_cfg = \<lparr>cfg_mac = mac, cfg_ip = Ipv4Addr 10 0 2 15, cfg_gateway = Ipv4Addr 10 0 2 2, cfg_netmask = [255, 255, 255, 0]\<rparr>,
      stack_arp = arp_cache_new\<rparr>\<rparr>"

definition is_configured :: "'n net_state \<Rightarrow> bool" where
  "is_configured s \<longleftrightarrow> net_stack_of s \<noteq> None"

definition next_hop :: "net_config \<Rightarrow> ipv4_addr \<Rightarrow> ipv4_addr" where
  "next_hop cfg dst =
     (if \<forall>i \<in> set [0 ..< 4]. octets dst ! i AND cfg_netmask cfg ! i = octets (cfg_ip cfg) ! i AND cfg_netmask cfg ! i
      then dst else cfg_gateway cfg)"

text \<open>
  Both locks are taken for the whole operation: the error of a stack that is not configured comes
  before the one of a missing interface.
\<close>

definition with_stack :: "('n, 'a) net_action \<Rightarrow> ('n net_state, transport_error, 'a) action" where
  "with_stack m s =
     (case net_stack_of s of
        None \<Rightarrow> throw Unconfigured s
      | Some st \<Rightarrow>
          (case net_nic s of
             None \<Rightarrow> throw NoNic s
           | Some n \<Rightarrow> map_option (\<lambda>(r, st, n). (r, s\<lparr>net_nic := Some n, net_stack_of := Some st\<rparr>)) (m (st, n))))"

text \<open>\<open>let n = build(&mut buf, ..)?\<close> followed by \<open>&buf[..n]\<close>.\<close>

definition built :: "net_build \<Rightarrow> ('n, u8 list) net_action" where
  "built r s =
     (case r of
        None \<Rightarrow> None
      | Some (Inl e, out) \<Rightarrow> throw (TransportNet e) s
      | Some (Inr n, out) \<Rightarrow> (case slice out 0 n of None \<Rightarrow> None | Some bytes \<Rightarrow> ret bytes s))"

definition nic_transmit :: "'n net_dev \<Rightarrow> u8 list \<Rightarrow> ('n, unit) net_action" where
  "nic_transmit D frame s =
     (case send_frame D frame (snd s) of
        (Inl _, n) \<Rightarrow> throw TransportDevice (fst s, n)
      | (Inr _, n) \<Rightarrow> ret () (fst s, n))"

definition learn :: "arp_packet \<Rightarrow> ('n, unit) net_action" where
  "learn pkt s = ret () ((fst s)\<lparr>stack_arp := arp_insert (sender_ip pkt) (sender_mac pkt) (stack_arp (fst s))\<rparr>, snd s)"

definition config :: "('n, net_config) net_action" where
  "config s = ret (stack_cfg (fst s)) s"

section \<open>Address resolution\<close>

definition RX_LEN :: nat where
  "RX_LEN = 1514"

definition ARP_POLLS :: nat where
  "ARP_POLLS = 2000000"

definition arp_reply_in :: "u8 list \<Rightarrow> arp_packet option" where
  "arp_reply_in bytes =
     (case eth_parse bytes of
        Inl _ \<Rightarrow> None
      | Inr eth \<Rightarrow>
          if eth_type eth = ETHERTYPE_ARP then
            case arp_parse (eth_payload eth) of
              Inl _ \<Rightarrow> None
            | Inr pkt \<Rightarrow> if oper pkt = OPER_REPLY then Some pkt else None
          else None)"

primrec arp_poll :: "'n net_dev \<Rightarrow> ipv4_addr \<Rightarrow> nat \<Rightarrow> ('n, mac_addr) net_action" where
  "arp_poll D ip 0 = throw ArpTimeout"
| "arp_poll D ip (Suc k) = (\<lambda>s.
     let (r, n) = recv_frame D RX_LEN (snd s); s = (fst s, n) in
     case r of
       Inr (Some bytes) \<Rightarrow>
         if RX_LEN < length bytes then None
         else
           (case arp_reply_in bytes of
              None \<Rightarrow> arp_poll D ip k s
            | Some pkt \<Rightarrow>
                bindE (learn pkt) (\<lambda>_. if sender_ip pkt = ip then ret (sender_mac pkt) else arp_poll D ip k) s)
     | _ \<Rightarrow> arp_poll D ip k s)"

definition net_resolve :: "'n net_dev \<Rightarrow> ipv4_addr \<Rightarrow> ('n, mac_addr) net_action" where
  "net_resolve D ip s =
     (case arp_lookup ip (stack_arp (fst s)) of
        Some mac \<Rightarrow> ret mac s
      | None \<Rightarrow>
          bindE config (\<lambda>cfg.
          bindE (built (arp_build (arp_request (cfg_mac cfg) (cfg_ip cfg) ip) (replicate ARP_LEN 0))) (\<lambda>arp_buf.
          bindE (built (eth_build (replicate (ETH_HEADER_LEN + ARP_LEN) 0) MAC_BROADCAST (cfg_mac cfg) ETHERTYPE_ARP arp_buf)) (\<lambda>frame.
          bindE (nic_transmit D frame) (\<lambda>_.
          arp_poll D ip ARP_POLLS)))) s)"

section \<open>Datagrams\<close>

definition send_datagram :: "'n net_dev \<Rightarrow> ipv4_addr \<Rightarrow> u16 \<Rightarrow> u16 \<Rightarrow> u8 list \<Rightarrow> ('n, nat) net_action" where
  "send_datagram D dst_ip dst_port src_port payload =
     bindE config (\<lambda>cfg.
     bindE (net_resolve D (next_hop cfg dst_ip)) (\<lambda>dst_mac.
     bindE (built (udp_build (replicate 1480 0) (cfg_ip cfg) dst_ip src_port dst_port payload)) (\<lambda>udp_buf.
     bindE (built (ipv4_build (replicate 1500 0) (cfg_ip cfg) dst_ip IP_PROTO_UDP 64 0 udp_buf)) (\<lambda>ip_buf.
     bindE (built (eth_build (replicate 1514 0) dst_mac (cfg_mac cfg) ETHERTYPE_IPV4 ip_buf)) (\<lambda>frame.
     bindE (nic_transmit D frame) (\<lambda>_.
     ret (length payload)))))))"

definition udp_send_to ::
    "'n net_dev \<Rightarrow> ipv4_addr \<Rightarrow> u16 \<Rightarrow> u16 \<Rightarrow> u8 list \<Rightarrow> ('n net_state, transport_error, nat) action" where
  "udp_send_to D dst_ip dst_port src_port payload = with_stack (send_datagram D dst_ip dst_port src_port payload)"

text \<open>The answers of a good citizen; whether they could be sent is not looked at.\<close>

definition answer_arp :: "'n net_dev \<Rightarrow> arp_packet \<Rightarrow> ('n, unit) net_action" where
  "answer_arp D pkt =
     bindE config (\<lambda>cfg.
       if oper pkt = OPER_REQUEST \<and> target_ip pkt = cfg_ip cfg then
         bindE (attempt (
           bindE (built (arp_build (arp_reply pkt (cfg_mac cfg) (cfg_ip cfg)) (replicate ARP_LEN 0))) (\<lambda>ab.
           bindE (built (eth_build (replicate (ETH_HEADER_LEN + ARP_LEN) 0) (sender_mac pkt) (cfg_mac cfg) ETHERTYPE_ARP ab)) (\<lambda>fb.
           nic_transmit D fb)))) (\<lambda>_. ret ())
       else ret ())"

definition answer_ping :: "'n net_dev \<Rightarrow> ipv4_addr \<Rightarrow> icmp_echo \<Rightarrow> ('n, unit) net_action" where
  "answer_ping D src echo =
     bindE config (\<lambda>cfg.
       if \<not> is_reply echo then
         bindE (attempt (
           bindE (built (icmp_echo_reply (replicate 1480 0) (echo_id echo) (echo_seq echo) (echo_payload echo))) (\<lambda>icmp_buf.
           bindE (built (ipv4_build (replicate 1500 0) (cfg_ip cfg) src IP_PROTO_ICMP 64 0 icmp_buf)) (\<lambda>ipb.
           bindE (net_resolve D src) (\<lambda>mac.
           bindE (built (eth_build (replicate 1514 0) mac (cfg_mac cfg) ETHERTYPE_IPV4 ipb)) (\<lambda>fb.
           nic_transmit D fb)))))) (\<lambda>_. ret ())
       else ret ())"

type_synonym received = "(ipv4_addr \<times> u16 \<times> u8 list) option"

definition poll_arp :: "'n net_dev \<Rightarrow> u8 list \<Rightarrow> ('n, received) net_action" where
  "poll_arp D payload =
     (case arp_parse payload of
        Inl _ \<Rightarrow> ret None
      | Inr pkt \<Rightarrow> bindE (answer_arp D pkt) (\<lambda>_. bindE (learn pkt) (\<lambda>_. ret None)))"

definition poll_ipv4 :: "'n net_dev \<Rightarrow> u16 \<Rightarrow> nat \<Rightarrow> u8 list \<Rightarrow> ('n, received) net_action" where
  "poll_ipv4 D port out_len payload =
     bindE config (\<lambda>cfg s.
       case ipv4_parse payload of
         None \<Rightarrow> None
       | Some (Inl _) \<Rightarrow> ret None s
       | Some (Inr ip) \<Rightarrow>
           if ip_dst ip \<noteq> cfg_ip cfg \<and> ip_dst ip \<noteq> IP_BROADCAST then ret None s
           else if ip_protocol ip = IP_PROTO_UDP then
             (case udp_parse (ip_payload ip) (ip_src ip) (ip_dst ip) of
                None \<Rightarrow> None
              | Some (Inl _) \<Rightarrow> ret None s
              | Some (Inr d) \<Rightarrow>
                  if udp_dst_port d = port then ret (Some (ip_src ip, udp_src_port d, take out_len (udp_payload d))) s
                  else ret None s)
           else if ip_protocol ip = IP_PROTO_ICMP then
             (case icmp_parse (ip_payload ip) of
                Inl _ \<Rightarrow> ret None s
              | Inr echo \<Rightarrow> bindE (answer_ping D (ip_src ip) echo) (\<lambda>_. ret None) s)
           else ret None s)"

definition poll_frame :: "'n net_dev \<Rightarrow> u16 \<Rightarrow> nat \<Rightarrow> ('n, received) net_action" where
  "poll_frame D port out_len s =
     (let (r, n) = recv_frame D RX_LEN (snd s); s = (fst s, n) in
      case r of
        Inl _ \<Rightarrow> throw TransportDevice s
      | Inr None \<Rightarrow> ret None s
      | Inr (Some bytes) \<Rightarrow>
          if RX_LEN < length bytes then None
          else
            (case eth_parse bytes of
               Inl _ \<Rightarrow> ret None s
             | Inr eth \<Rightarrow>
                 if eth_type eth = ETHERTYPE_ARP then poll_arp D (eth_payload eth) s
                 else if eth_type eth = ETHERTYPE_IPV4 then poll_ipv4 D port out_len (eth_payload eth) s
                 else ret None s))"

definition poll_udp :: "'n net_dev \<Rightarrow> u16 \<Rightarrow> nat \<Rightarrow> ('n net_state, transport_error, received) action" where
  "poll_udp D port out_len = with_stack (poll_frame D port out_len)"

section \<open>Remote Links\<close>

record remote_link =
  local_port :: u16
  remote_ip :: ipv4_addr
  remote_port :: u16

definition remote_send :: "'n net_dev \<Rightarrow> remote_link \<Rightarrow> u8 list \<Rightarrow> ('n net_state, transport_error, nat) action" where
  "remote_send D rl bytes = udp_send_to D (remote_ip rl) (remote_port rl) (local_port rl) bytes"

definition remote_recv :: "'n net_dev \<Rightarrow> remote_link \<Rightarrow> nat \<Rightarrow> ('n net_state, transport_error, u8 list option) action" where
  "remote_recv D rl out_len =
     bindE (poll_udp D (local_port rl) out_len) (\<lambda>r. ret (
       case r of
         Some (src_ip, src_port, bytes) \<Rightarrow> if src_ip = remote_ip rl \<and> src_port = remote_port rl then Some bytes else None
       | None \<Rightarrow> None))"
section \<open>The cache\<close>

definition cache_wf :: "arp_cache \<Rightarrow> bool" where
  "cache_wf c \<longleftrightarrow> length (arp_entries c) = ARP_CAP \<and> arp_next c < ARP_CAP"

lemma arp_update_find:
  "arp_update ip mac es = Some es' \<Longrightarrow> length es' = length es \<and> (\<forall>i. arp_find i es' = (if i = ip then Some mac else arp_find i es))"
  by (induction es arbitrary: es') (auto split: option.splits prod.splits if_splits)

lemma arp_update_None: "arp_update ip mac es = None \<longleftrightarrow> arp_find ip es = None"
  by (induction es) (auto split: option.splits)

lemma arp_find_place:
  "arp_find ip es = None \<Longrightarrow> k < length es \<Longrightarrow> arp_find ip (es[k := Some (ip, mac)]) = Some mac"
proof (induction es arbitrary: k)
  case (Cons e es)
  then show ?case by (cases k) (auto split: option.splits if_splits)
qed simp

lemma cache_new_wf: "cache_wf arp_cache_new"
  by (simp add: cache_wf_def arp_cache_new_def ARP_CAP_def)

lemma arp_insert_wf: "cache_wf c \<Longrightarrow> cache_wf (arp_insert ip mac c)"
  using arp_update_find [of ip mac "arp_entries c"] by (auto simp: cache_wf_def arp_insert_def ARP_CAP_def split: option.split)

lemma arp_lookup_insert: "cache_wf c \<Longrightarrow> arp_lookup ip (arp_insert ip mac c) = Some mac"
  using arp_update_find [of ip mac "arp_entries c"] arp_update_None [of ip mac "arp_entries c"]
  by (auto simp: cache_wf_def arp_insert_def arp_lookup_def arp_find_place split: option.split)

section \<open>The transport returns\<close>

text \<open>What the trait asks of a device: a frame handed over fits the buffer it was received into.\<close>

locale net_device =
  fixes D :: "'n net_dev" and valid :: "'n \<Rightarrow> bool"
  assumes send_valid: "valid n \<Longrightarrow> valid (snd (send_frame D frame n))"
    and recv_valid: "valid n \<Longrightarrow> valid (snd (recv_frame D k n))"
    and recv_fits: "valid n \<Longrightarrow> recv_frame D k n = (Inr (Some bytes), n') \<Longrightarrow> length bytes \<le> k"

definition transport_ok :: "('n \<Rightarrow> bool) \<Rightarrow> net_stack \<times> 'n \<Rightarrow> bool" where
  "transport_ok valid s \<longleftrightarrow> valid (snd s) \<and> cache_wf (stack_arp (fst s))"

definition net_ok :: "('n \<Rightarrow> bool) \<Rightarrow> 'n net_state \<Rightarrow> bool" where
  "net_ok valid s \<longleftrightarrow> (\<forall>n. net_nic s = Some n \<longrightarrow> valid n) \<and> (\<forall>st. net_stack_of s = Some st \<longrightarrow> cache_wf (stack_arp st))"

lemma builders_run:
  "runs J (\<lambda>_. True) (built (eth_build out dst src ty payload))"
  "runs J (\<lambda>_. True) (built (arp_build p out))"
  "runs J (\<lambda>_. True) (built (ipv4_build out ip ip' proto ttl ident payload))"
  "runs J (\<lambda>_. True) (built (udp_build out ip ip' sport dport payload))"
  "runs J (\<lambda>_. True) (built (icmp_echo_reply out ident sq payload))"
proof -
  have small: "runs J (\<lambda>_. True) (built (Some (Inl e, out)))" for e
    by (simp add: built_def runs_def throw_def)
  have fits: "runs J (\<lambda>_. True) (built (Some (Inr n, bytes)))" if "n \<le> length bytes" for n bytes
    using that by (simp add: built_def runs_def ret_def)
  show "runs J (\<lambda>_. True) (built (eth_build out dst src ty payload))"
    by (cases "ETH_HEADER_LEN + length payload \<le> length out") (simp_all add: eth_build_bytes fits, simp add: eth_build_def small)
  show "runs J (\<lambda>_. True) (built (arp_build p out))"
    by (cases "ARP_LEN \<le> length out") (simp_all add: arp_build_bytes fits, simp add: arp_build_def small)
  show "runs J (\<lambda>_. True) (built (ipv4_build out ip ip' proto ttl ident payload))"
    by (cases "IPV4_HEADER_LEN + length payload \<le> length out \<and> IPV4_HEADER_LEN + length payload \<le> 0xFFFF")
      (simp add: ipv4_build_bytes fits, auto simp: ipv4_build_def Let_def small)
  show "runs J (\<lambda>_. True) (built (udp_build out ip ip' sport dport payload))"
    by (cases "UDP_HEADER_LEN + length payload \<le> length out \<and> UDP_HEADER_LEN + length payload \<le> 0xFFFF")
      (simp add: udp_build_bytes fits, auto simp: udp_build_def Let_def small)
  show "runs J (\<lambda>_. True) (built (icmp_echo_reply out ident sq payload))"
    by (cases "ICMP_ECHO_HEADER_LEN + length payload \<le> length out")
      (simp_all add: icmp_echo_reply_def icmp_build_bytes fits, simp add: icmp_build_def small)
qed
text \<open>Choices made before the state is looked at.\<close>

lemma runs_choice:
  "(c \<Longrightarrow> runs J Q m) \<Longrightarrow> (\<not> c \<Longrightarrow> runs J Q m') \<Longrightarrow> runs J Q (\<lambda>s. if c then m s else m' s)"
  "(\<And>e. x = Inl e \<Longrightarrow> runs J Q (f e)) \<Longrightarrow> (\<And>y. x = Inr y \<Longrightarrow> runs J Q (g y)) \<Longrightarrow>
   runs J Q (\<lambda>s. case x of Inl e \<Rightarrow> f e s | Inr y \<Rightarrow> g y s)"
  by (cases c; simp) (cases x; simp)

lemma learn_runs: "runs (transport_ok valid) (\<lambda>_. True) (learn pkt)"
  by (simp add: runs_def learn_def ret_def transport_ok_def arp_insert_wf)

lemma config_runs: "runs J (\<lambda>_. True) config"
  by (simp add: runs_def config_def ret_def)

lemma with_stack_runs:
  assumes "runs (transport_ok valid) (\<lambda>_. True) m"
  shows "runs (net_ok valid) (\<lambda>_. True) (with_stack m)"
  unfolding runs_def
proof (intro allI impI)
  fix s
  assume s: "net_ok valid s"
  show "\<exists>r s'. with_stack m s = Some (r, s') \<and> net_ok valid s' \<and> (case r of Inl _ \<Rightarrow> True | Inr _ \<Rightarrow> True)"
  proof (cases "net_stack_of s = None \<or> net_nic s = None")
    case True
    then show ?thesis using s by (auto simp: with_stack_def throw_def split: option.split)
  next
    case False
    then obtain st n where f: "net_stack_of s = Some st" "net_nic s = Some n" by auto
    then have "transport_ok valid (st, n)" using s by (simp add: net_ok_def transport_ok_def)
    then obtain r st' n' where "m (st, n) = Some (r, st', n')" "transport_ok valid (st', n')"
      using assms unfolding runs_def by fastforce
    then show ?thesis using f by (auto simp: with_stack_def net_ok_def transport_ok_def split: sum.split)
  qed
qed

context net_device
begin

lemma transmit_runs: "runs (transport_ok valid) (\<lambda>_. True) (nic_transmit D frame)"
  unfolding runs_def nic_transmit_def transport_ok_def
proof (intro allI impI)
  fix s :: "net_stack \<times> 'n"
  assume "valid (snd s) \<and> cache_wf (stack_arp (fst s))"
  then show "\<exists>r s'. (case send_frame D frame (snd s) of (Inl _, n) \<Rightarrow> throw TransportDevice (fst s, n) | (Inr _, n) \<Rightarrow> ret () (fst s, n)) =
      Some (r, s') \<and> (valid (snd s') \<and> cache_wf (stack_arp (fst s'))) \<and> (case r of Inl _ \<Rightarrow> True | Inr _ \<Rightarrow> True)"
    using send_valid [of "snd s" frame] by (auto simp: throw_def ret_def split: prod.split sum.split)
qed

lemma receive_runs:
  assumes "\<And>e. runs (transport_ok valid) (\<lambda>_. True) (f (Inl e))" "runs (transport_ok valid) (\<lambda>_. True) (f (Inr None))"
    "\<And>bytes. length bytes \<le> RX_LEN \<Longrightarrow> runs (transport_ok valid) (\<lambda>_. True) (f (Inr (Some bytes)))"
  shows "runs (transport_ok valid) (\<lambda>_. True) (\<lambda>s. let (r, n) = recv_frame D RX_LEN (snd s); s = (fst s, n) in f r s)"
  unfolding runs_def
proof (intro allI impI)
  fix s :: "net_stack \<times> 'n"
  assume s: "transport_ok valid s"
  obtain r n where r: "recv_frame D RX_LEN (snd s) = (r, n)" by (rule prod.exhaust)
  have ok: "transport_ok valid (fst s, n)" using s recv_valid [of "snd s" RX_LEN] r by (simp add: transport_ok_def)
  have "runs (transport_ok valid) (\<lambda>_. True) (f r)"
    using assms r recv_fits [of "snd s" RX_LEN] s by (cases r rule: sum.exhaust; cases "projr r") (auto simp: transport_ok_def)
  then show "\<exists>x s'. (let (r, n) = recv_frame D RX_LEN (snd s); s = (fst s, n) in f r s) = Some (x, s') \<and> transport_ok valid s' \<and>
      (case x of Inl _ \<Rightarrow> True | Inr _ \<Rightarrow> True)"
    using ok r unfolding runs_def by simp
qed

lemma arp_poll_runs: "runs (transport_ok valid) (\<lambda>_. True) (arp_poll D ip k)"
proof (induction k)
  case 0
  show ?case by (simp add: runs_throw)
next
  case (Suc k)
  let ?f = "\<lambda>r s. case r of
       Inr (Some bytes) \<Rightarrow>
         if RX_LEN < length bytes then None
         else
           (case arp_reply_in bytes of
              None \<Rightarrow> arp_poll D ip k s
            | Some pkt \<Rightarrow>
                bindE (learn pkt) (\<lambda>_. if sender_ip pkt = ip then ret (sender_mac pkt) else arp_poll D ip k) s)
     | _ \<Rightarrow> arp_poll D ip k s"
  have seen: "runs (transport_ok valid) (\<lambda>_. True) (bindE (learn pkt) (\<lambda>_. if sender_ip pkt = ip then ret (sender_mac pkt) else arp_poll D ip k))" for pkt
    by (intro runs_bind_any learn_runs run_rules TrueI Suc.IH)
  show ?case
    unfolding arp_poll.simps
  proof (rule receive_runs [of ?f])
    fix bytes :: "u8 list"
    assume "length bytes \<le> RX_LEN"
    then show "runs (transport_ok valid) (\<lambda>_. True) (?f (Inr (Some bytes)))"
      using Suc.IH seen by (cases "arp_reply_in bytes") simp_all
  qed (use Suc.IH in simp_all)
qed

lemma resolve_runs: "runs (transport_ok valid) (\<lambda>_. True) (net_resolve D ip)"
proof -
  have "runs (transport_ok valid) (\<lambda>_. True) (bindE config (\<lambda>cfg.
          bindE (built (arp_build (arp_request (cfg_mac cfg) (cfg_ip cfg) ip) (replicate ARP_LEN 0))) (\<lambda>arp_buf.
          bindE (built (eth_build (replicate (ETH_HEADER_LEN + ARP_LEN) 0) MAC_BROADCAST (cfg_mac cfg) ETHERTYPE_ARP arp_buf)) (\<lambda>frame.
          bindE (nic_transmit D frame) (\<lambda>_.
          arp_poll D ip ARP_POLLS)))))"
    by (intro runs_bind_any config_runs builders_run transmit_runs arp_poll_runs)
  then show ?thesis
    unfolding runs_def net_resolve_def by (auto simp: ret_def split: option.split)
qed

lemmas transport_rules = config_runs builders_run transmit_runs resolve_runs learn_runs runs_attempt

lemma poll_frame_runs: "runs (transport_ok valid) (\<lambda>_. True) (poll_frame D port out_len)"
proof -
  have arp: "runs (transport_ok valid) (\<lambda>_. True) (poll_arp D payload)" for payload
    unfolding poll_arp_def answer_arp_def by (intro run_rules runs_bind_any transport_rules TrueI)
  have ping: "runs (transport_ok valid) (\<lambda>_. True) (bindE (answer_ping D src echo) (\<lambda>_. ret None))" for src echo
    unfolding answer_ping_def by (intro run_rules runs_bind_any transport_rules TrueI)
  have ipv4: "runs (transport_ok valid) (\<lambda>_. True) (poll_ipv4 D port out_len payload)" for payload
    unfolding poll_ipv4_def
  proof (intro runs_bind_any config_runs)
    fix cfg
    show "runs (transport_ok valid) (\<lambda>_. True) (\<lambda>s.
       case ipv4_parse payload of
         None \<Rightarrow> None
       | Some (Inl _) \<Rightarrow> ret None s
       | Some (Inr ip) \<Rightarrow>
           if ip_dst ip \<noteq> cfg_ip cfg \<and> ip_dst ip \<noteq> IP_BROADCAST then ret None s
           else if ip_protocol ip = IP_PROTO_UDP then
             (case udp_parse (ip_payload ip) (ip_src ip) (ip_dst ip) of
                None \<Rightarrow> None
              | Some (Inl _) \<Rightarrow> ret None s
              | Some (Inr d) \<Rightarrow>
                  if udp_dst_port d = port then ret (Some (ip_src ip, udp_src_port d, take out_len (udp_payload d))) s
                  else ret None s)
           else if ip_protocol ip = IP_PROTO_ICMP then
             (case icmp_parse (ip_payload ip) of
                Inl _ \<Rightarrow> ret None s
              | Inr echo \<Rightarrow> bindE (answer_ping D (ip_src ip) echo) (\<lambda>_. ret None) s)
           else ret None s)"
    proof (cases "ipv4_parse payload")
      case (Some r)
      show ?thesis
      proof (cases r)
        case (Inr ip)
        obtain u where u: "udp_parse (ip_payload ip) (ip_src ip) (ip_dst ip) = Some u" using parsers_total(2) by blast
        show ?thesis
          unfolding Some Inr option.case sum.case u by (intro runs_choice runs_ret TrueI ping)
      qed (simp add: Some runs_ret)
    qed (simp add: parsers_total)
  qed
  let ?f = "\<lambda>r s. case r of
        Inl _ \<Rightarrow> throw TransportDevice s
      | Inr None \<Rightarrow> ret None s
      | Inr (Some bytes) \<Rightarrow>
          if RX_LEN < length bytes then None
          else
            (case eth_parse bytes of
               Inl _ \<Rightarrow> ret None s
             | Inr eth \<Rightarrow>
                 if eth_type eth = ETHERTYPE_ARP then poll_arp D (eth_payload eth) s
                 else if eth_type eth = ETHERTYPE_IPV4 then poll_ipv4 D port out_len (eth_payload eth) s
                 else ret None s)"
  have "runs (transport_ok valid) (\<lambda>_. True) (\<lambda>s. let (r, n) = recv_frame D RX_LEN (snd s); s = (fst s, n) in ?f r s)"
    by (rule receive_runs) (use arp ipv4 in \<open>auto intro!: runs_choice runs_ret runs_throw\<close>)
  then show ?thesis unfolding poll_frame_def [abs_def] .
qed

lemma transport_runs:
  "runs (net_ok valid) (\<lambda>_. True) (udp_send_to D dst dport sport payload)"
  "runs (net_ok valid) (\<lambda>_. True) (poll_udp D port out_len)"
  "runs (net_ok valid) (\<lambda>_. True) (remote_send D rl bytes)"
  "runs (net_ok valid) (\<lambda>_. True) (remote_recv D rl out_len)"
  unfolding udp_send_to_def poll_udp_def remote_send_def remote_recv_def send_datagram_def
  by (intro with_stack_runs poll_frame_runs runs_bind_any transport_rules run_rules TrueI)+

end

definition loopback_valid :: "loopback_nic \<Rightarrow> bool" where
  "loopback_valid n \<longleftrightarrow> (\<forall>frame \<in> set (nic_queue n). length frame \<le> DEFAULT_MTU)"

interpretation loopback: net_device loopback_dev loopback_valid
  by unfold_locales (auto simp: loopback_dev_def loopback_valid_def loopback_send_def loopback_recv_def split: if_splits list.splits)
section \<open>Delivery\<close>

lemma built_bytes: "length bytes = n \<Longrightarrow> built (Some (Inr n, bytes @ rest)) s = Some (Inr bytes, s)"
  by (simp add: built_def slice_front ret_def)

lemma same_stack: "net_stack_of x = z \<Longrightarrow> x\<lparr>net_nic := y, net_stack_of := z\<rparr> = x\<lparr>net_nic := y\<rparr>"
  by (cases x) simp

definition datagram_frame :: "net_config \<Rightarrow> mac_addr \<Rightarrow> ipv4_addr \<Rightarrow> u16 \<Rightarrow> u16 \<Rightarrow> u8 list \<Rightarrow> u8 list" where
  "datagram_frame cfg dst_mac dst_ip dst_port src_port payload =
     eth_bytes dst_mac (cfg_mac cfg) ETHERTYPE_IPV4
       (ip_bytes (cfg_ip cfg) dst_ip IP_PROTO_UDP 64 0 (udp_bytes (cfg_ip cfg) dst_ip src_port dst_port payload))"

lemma length_datagram_frame: "length (datagram_frame cfg mac ip dport sport payload) = 42 + length payload"
  by (simp add: datagram_frame_def ETH_HEADER_LEN_def IPV4_HEADER_LEN_def UDP_HEADER_LEN_def)

lemma send_datagram_frame:
  assumes "arp_lookup (next_hop (stack_cfg st) dst) (stack_arp st) = Some mac" "length payload \<le> 1472"
  shows "send_datagram D dst dport sport payload (st, n) =
    bindE (nic_transmit D (datagram_frame (stack_cfg st) mac dst dport sport payload)) (\<lambda>_. ret (length payload)) (st, n)"
proof -
  let ?cfg = "stack_cfg st" and ?s = "(st, n)"
  let ?u = "udp_bytes (cfg_ip ?cfg) dst sport dport payload"
  let ?i = "ip_bytes (cfg_ip ?cfg) dst IP_PROTO_UDP 64 0 ?u"
  have c: "config ?s = Some (Inr ?cfg, ?s)" by (simp add: config_def ret_def)
  have r: "net_resolve D (next_hop ?cfg dst) ?s = Some (Inr mac, ?s)" using assms(1) by (simp add: net_resolve_def ret_def)
  have u: "built (udp_build (replicate 1480 0) (cfg_ip ?cfg) dst sport dport payload) ?s = Some (Inr ?u, ?s)"
    using assms(2) by (subst udp_build_bytes) (simp_all add: UDP_HEADER_LEN_def built_bytes)
  have i: "built (ipv4_build (replicate 1500 0) (cfg_ip ?cfg) dst IP_PROTO_UDP 64 0 ?u) ?s = Some (Inr ?i, ?s)"
    using assms(2) by (subst ipv4_build_bytes) (simp_all add: UDP_HEADER_LEN_def IPV4_HEADER_LEN_def built_bytes)
  have e: "built (eth_build (replicate 1514 0) mac (cfg_mac ?cfg) ETHERTYPE_IPV4 ?i) ?s =
      Some (Inr (datagram_frame ?cfg mac dst dport sport payload), ?s)"
    using assms(2) by (subst eth_build_bytes)
      (simp_all add: UDP_HEADER_LEN_def IPV4_HEADER_LEN_def ETH_HEADER_LEN_def built_bytes datagram_frame_def)
  show ?thesis
    unfolding send_datagram_def
    by (simp only: bindE_simps(3) [where m = config, OF c] bindE_simps(3) [where m = "net_resolve D (next_hop ?cfg dst)", OF r]
        bindE_simps(3) [where m = "built (udp_build (replicate 1480 0) (cfg_ip ?cfg) dst sport dport payload)", OF u]
        bindE_simps(3) [where m = "built (ipv4_build (replicate 1500 0) (cfg_ip ?cfg) dst IP_PROTO_UDP 64 0 ?u)", OF i]
        bindE_simps(3) [where m = "built (eth_build (replicate 1514 0) mac (cfg_mac ?cfg) ETHERTYPE_IPV4 ?i)", OF e])
qed

lemma poll_datagram_frame:
  assumes "recv_frame D RX_LEN n = (Inr (Some (datagram_frame cfg mac dst dport sport payload)), n')" "length payload \<le> 1472"
    "cfg_ip (stack_cfg st) = dst"
  shows "poll_frame D port out_len (st, n) =
    ret (if port = dport then Some (cfg_ip cfg, sport, take out_len payload) else None) (st, n')"
proof -
  let ?u = "udp_bytes (cfg_ip cfg) dst sport dport payload"
  let ?i = "ip_bytes (cfg_ip cfg) dst IP_PROTO_UDP 64 0 ?u"
  have eth: "eth_parse (datagram_frame cfg mac dst dport sport payload) =
      Inr \<lparr>eth_dst = mac, eth_src = cfg_mac cfg, eth_type = ETHERTYPE_IPV4, eth_payload = ?i\<rparr>"
    unfolding datagram_frame_def by (rule eth_parse_bytes)
  have ip: "ipv4_parse ?i = Some (Inr \<lparr>ip_protocol = IP_PROTO_UDP, ip_src = cfg_ip cfg, ip_dst = dst, ip_ttl = 64, ip_payload = ?u\<rparr>)"
    by (rule ipv4_parse_bytes) (use assms(2) in \<open>simp add: IPV4_HEADER_LEN_def UDP_HEADER_LEN_def\<close>)
  have udp: "udp_parse ?u (cfg_ip cfg) dst = Some (Inr \<lparr>udp_src_port = sport, udp_dst_port = dport, udp_payload = payload\<rparr>)"
    by (rule udp_parse_bytes) (use assms(2) in \<open>simp add: UDP_HEADER_LEN_def\<close>)
  have "poll_ipv4 D port out_len ?i (st, n') =
      ret (if port = dport then Some (cfg_ip cfg, sport, take out_len payload) else None) (st, n')"
    using ip udp assms(3) by (simp add: poll_ipv4_def bindE_def config_def ret_def)
  then show ?thesis
    using assms(1,2) eth length_datagram_frame [of cfg mac dst dport sport payload]
    by (simp add: poll_frame_def RX_LEN_def ETHERTYPE_IPV4_def ETHERTYPE_ARP_def)
qed
text \<open>
  C37. A datagram sent over the interface arrives as it was sent. When the next hop is in the cache and
  the payload fits one frame, \<open>udp_send_to\<close> hands the device a single frame; any host with the
  destination address that polls the destination port and is handed this frame gets the sender's
  address and port and the payload, cut to its buffer. A poll for another port takes the same
  frame off the device and drops it.
\<close>

theorem udp_delivery:
  assumes "net_stack_of a = Some st" "net_nic a = Some n"
    and "arp_lookup (next_hop (stack_cfg st) dst) (stack_arp st) = Some mac" "length payload \<le> 1472"
  shows "\<exists>frame. length frame = 42 + length payload \<and>
    udp_send_to D dst dport sport payload a =
      Some (case fst (send_frame D frame n) of Inl _ \<Rightarrow> Inl TransportDevice | Inr _ \<Rightarrow> Inr (length payload),
        a\<lparr>net_nic := Some (snd (send_frame D frame n))\<rparr>) \<and>
    (\<forall>(D' :: 'm net_dev) b st' k k' port out_len. net_stack_of b = Some st' \<longrightarrow> net_nic b = Some k \<longrightarrow> cfg_ip (stack_cfg st') = dst \<longrightarrow>
      recv_frame D' RX_LEN k = (Inr (Some frame), k') \<longrightarrow>
      poll_udp D' port out_len b =
        Some (Inr (if port = dport then Some (cfg_ip (stack_cfg st), sport, take out_len payload) else None), b\<lparr>net_nic := Some k'\<rparr>))"
proof -
  let ?f = "datagram_frame (stack_cfg st) mac dst dport sport payload"
  have "udp_send_to D dst dport sport payload a =
      Some (case fst (send_frame D ?f n) of Inl _ \<Rightarrow> Inl TransportDevice | Inr _ \<Rightarrow> Inr (length payload),
        a\<lparr>net_nic := Some (snd (send_frame D ?f n))\<rparr>)"
    using assms(1,2) same_stack [of a "Some st"]
    by (simp add: udp_send_to_def with_stack_def send_datagram_frame [OF assms(3,4)] bindE_def nic_transmit_def ret_def throw_def
        split: prod.split sum.split)
  moreover have "\<forall>(D' :: 'm net_dev) b st' k k' port out_len. net_stack_of b = Some st' \<longrightarrow> net_nic b = Some k \<longrightarrow> cfg_ip (stack_cfg st') = dst \<longrightarrow>
      recv_frame D' RX_LEN k = (Inr (Some ?f), k') \<longrightarrow>
      poll_udp D' port out_len b =
        Some (Inr (if port = dport then Some (cfg_ip (stack_cfg st), sport, take out_len payload) else None), b\<lparr>net_nic := Some k'\<rparr>)"
    by (simp add: poll_udp_def with_stack_def poll_datagram_frame [OF _ assms(4)] same_stack ret_def)
  ultimately show ?thesis
    by (intro exI [of _ ?f] conjI length_datagram_frame)
qed

text \<open>A host on the loopback interface that has already learnt its own address.\<close>

definition demo_host :: "loopback_nic net_state" where
  "demo_host =
     \<lparr>net_nic = Some \<lparr>nic_up = True, nic_queue = []\<rparr>,
      net_stack_of = Some
        \<lparr>stack_cfg = \<lparr>cfg_mac = MacAddr 2 0 0 0 0 1, cfg_ip = Ipv4Addr 10 0 2 15, cfg_gateway = Ipv4Addr 10 0 2 2, cfg_netmask = [255, 255, 255, 0]\<rparr>,
         stack_arp = arp_insert (Ipv4Addr 10 0 2 15) (MacAddr 2 0 0 0 0 1) arp_cache_new\<rparr>\<rparr>"

theorem udp_delivery_witness:
  "\<exists>a b. udp_send_to loopback_dev (Ipv4Addr 10 0 2 15) 7 9 [1, 2, 3] demo_host = Some (Inr 3, a) \<and>
     poll_udp loopback_dev 7 1500 a = Some (Inr (Some (Ipv4Addr 10 0 2 15, 9, [1, 2, 3])), b)"
proof -
  let ?st = "the (net_stack_of demo_host)" and ?n = "the (net_nic demo_host)"
  have host: "net_stack_of demo_host = Some ?st" "net_nic demo_host = Some ?n" by (simp_all add: demo_host_def)
  have "next_hop (stack_cfg ?st) (Ipv4Addr 10 0 2 15) = Ipv4Addr 10 0 2 15" by (simp add: next_hop_def demo_host_def)
  then have arp: "arp_lookup (next_hop (stack_cfg ?st) (Ipv4Addr 10 0 2 15)) (stack_arp ?st) = Some (MacAddr 2 0 0 0 0 1)"
    using arp_lookup_insert [OF cache_new_wf] by (simp add: demo_host_def)
  have ip: "cfg_ip (stack_cfg ?st) = Ipv4Addr 10 0 2 15" by (simp add: demo_host_def)
  have small: "length [1, 2, 3 :: u8] \<le> 1472" by simp
  from udp_delivery [where 'm = loopback_nic, OF host arp small, of loopback_dev 7 9] obtain frame where f: "length frame = 42 + length [1, 2, 3 :: u8]"
      "udp_send_to loopback_dev (Ipv4Addr 10 0 2 15) 7 9 [1, 2, 3] demo_host =
         Some (case fst (send_frame loopback_dev frame ?n) of Inl _ \<Rightarrow> Inl TransportDevice | Inr _ \<Rightarrow> Inr (length [1, 2, 3 :: u8]),
           demo_host\<lparr>net_nic := Some (snd (send_frame loopback_dev frame ?n))\<rparr>)"
    and polled: "\<And>b :: loopback_nic net_state. \<And>st' k k'. net_stack_of b = Some st' \<Longrightarrow> net_nic b = Some k \<Longrightarrow>
        cfg_ip (stack_cfg st') = Ipv4Addr 10 0 2 15 \<Longrightarrow> recv_frame loopback_dev RX_LEN k = (Inr (Some frame), k') \<Longrightarrow>
        poll_udp loopback_dev 7 1500 b =
          Some (Inr (if 7 = (7 :: u16) then Some (cfg_ip (stack_cfg ?st), 9, take 1500 [1, 2, 3]) else None), b\<lparr>net_nic := Some k'\<rparr>)"
    by blast
  have sent: "send_frame loopback_dev frame ?n = (Inr (), \<lparr>nic_up = True, nic_queue = [frame]\<rparr>)"
    using f(1) by (simp add: demo_host_def loopback_dev_def loopback_send_def DEFAULT_MTU_def)
  have got: "recv_frame loopback_dev RX_LEN \<lparr>nic_up = True, nic_queue = [frame]\<rparr> = (Inr (Some frame), \<lparr>nic_up = True, nic_queue = []\<rparr>)"
    using f(1) by (simp add: loopback_dev_def loopback_recv_def RX_LEN_def)
  let ?a = "demo_host\<lparr>net_nic := Some \<lparr>nic_up = True, nic_queue = [frame]\<rparr>\<rparr>"
  have "net_stack_of ?a = Some ?st" "net_nic ?a = Some \<lparr>nic_up = True, nic_queue = [frame]\<rparr>" using host(1) by simp_all
  from polled [OF this ip got] f(2) sent show ?thesis by (simp add: ip)
qed

text \<open>
  A ping is answered through the address resolution of the sender itself, not of the next hop: for a
  sender outside the subnet nothing but an ARP request nobody answers leaves the host, even when
  the gateway is in the cache.
\<close>

lemma arp_poll_silent: "(\<And>n. recv_frame D RX_LEN n = (Inr None, n)) \<Longrightarrow> arp_poll D ip k s = Some (Inl ArpTimeout, s)"
  by (induction k) (simp_all add: throw_def)

theorem ping_bypasses_gateway:
  assumes "\<not> is_reply echo" "length (echo_payload echo) \<le> 1472" "arp_lookup src (stack_arp st) = None"
    and "\<And>n. recv_frame D RX_LEN n = (Inr None, n)"
  shows "answer_ping D src echo (st, n) =
    Some (Inr (), st, snd (send_frame D (eth_bytes MAC_BROADCAST (cfg_mac (stack_cfg st)) ETHERTYPE_ARP
      (arp_bytes (arp_request (cfg_mac (stack_cfg st)) (cfg_ip (stack_cfg st)) src))) n))"
proof -
  let ?cfg = "stack_cfg st"
  let ?m = "icmp_bytes ECHO_REPLY (echo_id echo) (echo_seq echo) (echo_payload echo)"
  have icmp: "built (icmp_echo_reply (replicate 1480 0) (echo_id echo) (echo_seq echo) (echo_payload echo)) (st, n) = Some (Inr ?m, st, n)"
    unfolding icmp_echo_reply_def using assms(2) by (subst icmp_build_bytes) (simp_all add: ICMP_ECHO_HEADER_LEN_def built_bytes)
  have ip: "built (ipv4_build (replicate 1500 0) (cfg_ip ?cfg) src IP_PROTO_ICMP 64 0 ?m) (st, n) =
      Some (Inr (ip_bytes (cfg_ip ?cfg) src IP_PROTO_ICMP 64 0 ?m), st, n)"
    using assms(2) by (subst ipv4_build_bytes) (simp_all add: ICMP_ECHO_HEADER_LEN_def IPV4_HEADER_LEN_def built_bytes)
  have arp: "built (arp_build (arp_request (cfg_mac ?cfg) (cfg_ip ?cfg) src) (replicate ARP_LEN 0)) (st, n) =
      Some (Inr (arp_bytes (arp_request (cfg_mac ?cfg) (cfg_ip ?cfg) src)), st, n)"
    by (subst arp_build_bytes) (simp_all add: built_bytes [where rest = "[]", simplified])
  have eth: "built (eth_build (replicate (ETH_HEADER_LEN + ARP_LEN) 0) MAC_BROADCAST (cfg_mac ?cfg) ETHERTYPE_ARP (arp_bytes p)) (st, n) =
      Some (Inr (eth_bytes MAC_BROADCAST (cfg_mac ?cfg) ETHERTYPE_ARP (arp_bytes p)), st, n)" for p
    by (subst eth_build_bytes) (simp_all add: built_bytes [where rest = "[]", simplified])
  show ?thesis
    unfolding answer_ping_def
    using assms(1,3) by (simp add: bindE_def config_def ret_def attempt_def icmp ip net_resolve_def arp eth nic_transmit_def throw_def
        arp_poll_silent [OF assms(4)] split: prod.split sum.split)
qed

end
