(* ===== verification/Kernel_Env.thy ===== *)
theory Kernel_Env
  imports Syscall_Dispatch Gate Fs_Properties Input Net_Stack "HOL-Library.Product_Lexorder"
begin

unbundle bit_operations_syntax

text \<open>
  The system call environment of the booted kernel: the channel handle table and
  \<open>KernelSyscallEnv\<close> of \<open>kernel-image/src/boot.rs\<close>, with the timer of \<open>timer.rs\<close>, in the default
  build (no \<open>spawn\<close>). The kernel's statics are the fields of one state; the hardware and the
  external crates are a record of parameters: the disk, the scheduler behind
  \<open>KernelInterface\<close>, SHA-256, the bounded string type, the network device, and the scancodes
  that arrive while the CPU waits for a key.
\<close>

section \<open>State\<close>

record ('d, 'k, 'n) platform =
  disk :: "'d block_dev"
  kernel_kif :: "'k kif"
  sha256 :: hash
  bounded_string :: heapless_string
  net_device_of :: "'n net_dev"
  scancodes :: "keyboard \<Rightarrow> u8 list"

record channel_handle_table =
  next_handle :: u64
  handles :: "(u64 \<times> u64, chan_ref) btreemap"
  table_registry :: channel_registry
  accepted :: "(u64, u64 \<times> u64) btreemap"
  gates :: gate_registry
  next_channel_id :: u64
  remote_links :: "(u64 \<times> u64, remote_link) btreemap"

record ('d, 'k, 'n) kernel_state =
  user_memory :: "u64 \<Rightarrow> u8"
  console_out :: "u8 list"
  timer_ticks :: u64
  root_fs :: "'d fs option"
  kernel_rng :: "csprng option"
  channel_table :: "channel_handle_table option"
  channel_cells :: chan_heap
  sched :: 'k
  active_lane :: lane_id
  kernel_keyboard :: keyboard
  nic :: "'n net_state"

type_synonym ('d, 'k, 'n, 'a) kernel_action = "(('d, 'k, 'n) kernel_state, syscall_error, 'a) action"

section \<open>The handle table\<close>

definition channel_handle_table_new :: channel_handle_table where
  "channel_handle_table_new = \<lparr>next_handle = 0, handles = [], table_registry = registry_new, accepted = [],
     gates = gate_registry_new, next_channel_id = 0x10000000, remote_links = []\<rparr>"

definition table_register :: "u64 \<Rightarrow> chan_ref \<Rightarrow> channel_handle_table \<Rightarrow> u64 \<times> channel_handle_table" where
  "table_register b c t =
     (let h = next_handle t in
      (h, t\<lparr>next_handle := h + 1, handles := bt_insert (b, h) c (handles t)\<rparr>))"

definition table_resolve :: "u64 \<Rightarrow> u64 \<Rightarrow> channel_handle_table \<Rightarrow> chan_ref option" where
  "table_resolve b h t = bt_get (handles t) (b, h)"

definition connect_remote ::
    "u64 \<Rightarrow> ipv4_addr \<Rightarrow> u16 \<Rightarrow> u16 \<Rightarrow> channel_handle_table \<Rightarrow> u64 \<times> channel_handle_table" where
  "connect_remote b ip rport lport t =
     (let h = next_handle t in
      (h, t\<lparr>next_handle := h + 1,
            remote_links := bt_insert (b, h) \<lparr>local_port = lport, remote_ip = ip, remote_port = rport\<rparr> (remote_links t)\<rparr>))"

definition resolve_remote :: "u64 \<Rightarrow> u64 \<Rightarrow> channel_handle_table \<Rightarrow> remote_link option" where
  "resolve_remote b h t = bt_get (remote_links t) (b, h)"

definition install_channel_table :: "('d, 'k, 'n) kernel_state \<Rightarrow> ('d, 'k, 'n) kernel_state" where
  "install_channel_table s = s\<lparr>channel_table := Some channel_handle_table_new\<rparr>"

definition seed_kernel_rng :: "('d, 'k, 'n) platform \<Rightarrow> u8 list \<Rightarrow> ('d, 'k, 'n) kernel_state \<Rightarrow> ('d, 'k, 'n) kernel_state" where
  "seed_kernel_rng P seed s = s\<lparr>kernel_rng := Some (from_seed (sha256 P) seed)\<rparr>"

definition seed_entropy_portable :: "('d, 'k, 'n) platform \<Rightarrow> u8 list \<Rightarrow> ('d, 'k, 'n) kernel_state \<Rightarrow> ('d, 'k, 'n) kernel_state" where
  "seed_entropy_portable P seed s =
     (let n = min 32 (length seed) in seed_kernel_rng P (take n seed @ drop n (replicate 32 0)) s)"

text \<open>A static behind a lock: the table if it is installed, the error of the caller otherwise.\<close>

definition get_table :: "syscall_error \<Rightarrow> ('d, 'k, 'n, channel_handle_table) kernel_action" where
  "get_table e s = (case channel_table s of None \<Rightarrow> throw e s | Some t \<Rightarrow> ret t s)"

definition put_table :: "channel_handle_table \<Rightarrow> ('d, 'k, 'n, unit) kernel_action" where
  "put_table t s = ret () (s\<lparr>channel_table := Some t\<rparr>)"

definition of_option :: "'e \<Rightarrow> 'a option \<Rightarrow> ('s, 'e, 'a) action" where
  "of_option e x = (case x of None \<Rightarrow> throw e | Some y \<Rightarrow> ret y)"

section \<open>Memory, console and time\<close>

definition kernel_copy_from_user :: "boundary_id \<Rightarrow> u64 \<Rightarrow> nat \<Rightarrow> u8 list \<Rightarrow> ('d, 'k, 'n, u8 list) kernel_action" where
  "kernel_copy_from_user b ptr len out s =
     (if ptr = 0 then throw BadAddress s
      else if checked_add ptr (of_nat len) = None then throw InvalidArgument s
      else ret (map (\<lambda>i. user_memory s (ptr + of_nat i)) [0 ..< len] @ drop len out) s)"

definition kernel_console_write :: "u8 list \<Rightarrow> ('d, 'k, 'n) kernel_state \<Rightarrow> ('d, 'k, 'n) kernel_state" where
  "kernel_console_write bytes s = s\<lparr>console_out := console_out s @ bytes\<rparr>"

fun poke_bytes :: "u64 \<Rightarrow> u8 list \<Rightarrow> (u64 \<Rightarrow> u8) \<Rightarrow> u64 \<Rightarrow> u8" where
  "poke_bytes ptr [] m = m"
| "poke_bytes ptr (b # bs) m = poke_bytes (ptr + 1) bs (m(ptr := b))"

definition kernel_copy_to_user :: "boundary_id \<Rightarrow> u64 \<Rightarrow> u8 list \<Rightarrow> ('d, 'k, 'n, unit) kernel_action" where
  "kernel_copy_to_user b ptr bytes s =
     (if ptr = 0 then throw BadAddress s
      else if checked_add ptr (of_nat (length bytes)) = None then throw InvalidArgument s
      else ret () (s\<lparr>user_memory := poke_bytes ptr bytes (user_memory s)\<rparr>))"

definition TICK_HZ :: u64 where
  "TICK_HZ = 100"

definition now_millis :: "u64 \<Rightarrow> u64" where
  "now_millis ticks = ticks * 1000 div TICK_HZ"

text \<open>Each \<open>hlt\<close> of the wait ends with the next timer interrupt, which counts one tick.\<close>

partial_function (option) sleep_loop :: "u64 \<Rightarrow> u64 \<Rightarrow> u64 \<Rightarrow> u64 option" where
  "sleep_loop start millis ticks =
     (if now_millis ticks - start < millis then sleep_loop start millis (ticks + 1) else Some ticks)"

definition kernel_sleep_nanos :: "u64 \<Rightarrow> ('d, 'k, 'n, unit) kernel_action" where
  "kernel_sleep_nanos nanos s =
     (let millis = nanos div 1000000 in
      if millis = 0 then ret () s
      else
        case sleep_loop (now_millis (timer_ticks s)) millis (timer_ticks s) of
          None \<Rightarrow> None
        | Some t \<Rightarrow> ret () (s\<lparr>timer_ticks := t\<rparr>))"

section \<open>Files\<close>

fun fs_err :: "fs_error \<Rightarrow> syscall_error" where
  "fs_err FsNotFound = NotFound"
| "fs_err _ = IoError"

definition on_root_fs :: "('d, 'a) fs_action \<Rightarrow> ('d, 'k, 'n, fs_error + 'a) kernel_action" where
  "on_root_fs m s =
     (case root_fs s of
        None \<Rightarrow> throw NotPermitted s
      | Some f \<Rightarrow> map_option (\<lambda>(r, f'). (Inr r, s\<lparr>root_fs := Some f'\<rparr>)) (m f))"

definition map_fs_err :: "fs_error + 'a \<Rightarrow> ('d, 'k, 'n, unit) kernel_action" where
  "map_fs_err r = (case r of Inl e \<Rightarrow> throw (fs_err e) | Inr _ \<Rightarrow> ret ())"

definition kernel_fs_read :: "('d, 'k, 'n) platform \<Rightarrow> u8 list \<Rightarrow> ('d, 'k, 'n, u8 list option) kernel_action" where
  "kernel_fs_read P path =
     bindE (on_root_fs (read_file (disk P) path)) (\<lambda>r.
       case r of
         Inr d \<Rightarrow> ret (Some d)
       | Inl e \<Rightarrow> if e = FsNotFound then ret None else throw (fs_err e))"

definition kernel_fs_write :: "('d, 'k, 'n) platform \<Rightarrow> u8 list \<Rightarrow> u8 list \<Rightarrow> ('d, 'k, 'n, unit) kernel_action" where
  "kernel_fs_write P path d = bindE (on_root_fs (write_file (disk P) path d)) map_fs_err"

definition kernel_fs_mkdir :: "('d, 'k, 'n) platform \<Rightarrow> u8 list \<Rightarrow> ('d, 'k, 'n, unit) kernel_action" where
  "kernel_fs_mkdir P path = bindE (on_root_fs (mkdir (disk P) path)) map_fs_err"

definition kernel_fs_exists :: "('d, 'k, 'n) platform \<Rightarrow> u8 list \<Rightarrow> ('d, 'k, 'n, bool) kernel_action" where
  "kernel_fs_exists P path =
     bindE (on_root_fs (fs_exists (disk P) path)) (\<lambda>r. ret (case r of Inl _ \<Rightarrow> False | Inr b \<Rightarrow> b))"

definition kernel_fs_list :: "('d, 'k, 'n) platform \<Rightarrow> u8 list \<Rightarrow> ('d, 'k, 'n, u8 list list option) kernel_action" where
  "kernel_fs_list P path =
     bindE (on_root_fs (list_dir (disk P) path)) (\<lambda>r.
       case r of
         Inr es \<Rightarrow> ret (Some (map (\<lambda>e. from_utf8_lossy (entry_name e)) es))
       | Inl e \<Rightarrow> if e = FsNotFound then ret None else throw (fs_err e))"

definition kernel_fs_delete :: "('d, 'k, 'n) platform \<Rightarrow> u8 list \<Rightarrow> ('d, 'k, 'n, unit) kernel_action" where
  "kernel_fs_delete P path = bindE (on_root_fs (remove_file (disk P) path)) map_fs_err"
section \<open>Keys and random bytes\<close>

fun key_code_of :: "key \<Rightarrow> key_code" where
  "key_code_of (Key_Char c) = KeyChar c"
| "key_code_of Key_Enter = Enter"
| "key_code_of Key_Backspace = Backspace"
| "key_code_of Key_Delete = Delete"
| "key_code_of Key_Tab = Tab"
| "key_code_of Key_Escape = Escape"
| "key_code_of Key_Left = Left"
| "key_code_of Key_Right = Right"
| "key_code_of Key_Up = Up"
| "key_code_of Key_Down = Down"
| "key_code_of Key_Home = Home"
| "key_code_of Key_End = End"

definition encode_event :: "key_event \<Rightarrow> i64" where
  "encode_event ev =
     encode_key (key_code_of (ev_key ev))
       \<lparr>shift = mod_shift (ev_mods ev), ctrl = mod_ctrl (ev_mods ev), alt = mod_alt (ev_mods ev)\<rparr>"

text \<open>\<open>wait_for(has_key)\<close>: the CPU sleeps and the keyboard interrupt takes one scancode at a time.\<close>

fun wait_for_key :: "u8 list \<Rightarrow> keyboard \<Rightarrow> keyboard option" where
  "wait_for_key codes kb =
     (if has_key kb then Some kb
      else case codes of [] \<Rightarrow> None | c # cs \<Rightarrow> wait_for_key cs (keyboard_irq c kb))"

definition kernel_read_key ::
    "('d, 'k, 'n) platform \<Rightarrow> bool \<Rightarrow> ('d, 'k, 'n) kernel_state \<Rightarrow> (i64 \<times> ('d, 'k, 'n) kernel_state) option" where
  "kernel_read_key P blocking s =
     (let (ev, kb) = poll_key (kernel_keyboard s) in
      case ev of
        Some ev \<Rightarrow> Some (encode_event ev, s\<lparr>kernel_keyboard := kb\<rparr>)
      | None \<Rightarrow>
          if \<not> blocking then Some (as_return NotFound, s\<lparr>kernel_keyboard := kb\<rparr>)
          else
            case wait_for_key (scancodes P kb) kb of
              None \<Rightarrow> None
            | Some kb \<Rightarrow>
                let (ev, kb) = poll_key kb in
                Some (case ev of Some ev \<Rightarrow> encode_event ev | None \<Rightarrow> as_return NotFound, s\<lparr>kernel_keyboard := kb\<rparr>))"

definition kernel_fill_random :: "('d, 'k, 'n) platform \<Rightarrow> u8 list \<Rightarrow> ('d, 'k, 'n, u8 list) kernel_action" where
  "kernel_fill_random P out s =
     (case kernel_rng s of
        None \<Rightarrow> throw NotPermitted s
      | Some rng \<Rightarrow> let (bs, rng) = fill_bytes (sha256 P) (length out) rng in ret bs (s\<lparr>kernel_rng := Some rng\<rparr>))"

section \<open>Channels\<close>

definition cell_send :: "('d, 'k, 'n) platform \<Rightarrow> chan_ref \<Rightarrow> u8 list \<Rightarrow> ('d, 'k, 'n, send_step) kernel_action" where
  "cell_send P c msg s =
     (let (step, ch, k) = try_send (kernel_kif P) (active_lane s) msg (channel_cells s ! c, sched s) in
      ret step (s\<lparr>channel_cells := (channel_cells s)[c := ch], sched := k\<rparr>))"

definition cell_recv :: "('d, 'k, 'n) platform \<Rightarrow> chan_ref \<Rightarrow> ('d, 'k, 'n, recv_step) kernel_action" where
  "cell_recv P c s =
     (let (step, ch, k) = try_recv (kernel_kif P) (active_lane s) (channel_cells s ! c, sched s) in
      ret step (s\<lparr>channel_cells := (channel_cells s)[c := ch], sched := k\<rparr>))"

definition cell_close :: "('d, 'k, 'n) platform \<Rightarrow> chan_ref \<Rightarrow> ('d, 'k, 'n, unit) kernel_action" where
  "cell_close P c s =
     (let (ch, k) = close (kernel_kif P) (channel_cells s ! c, sched s) in
      ret () (s\<lparr>channel_cells := (channel_cells s)[c := ch], sched := k\<rparr>))"

definition cell_new :: "channel \<Rightarrow> ('d, 'k, 'n, chan_ref) kernel_action" where
  "cell_new ch s = (let (c, h) = chan_alloc ch (channel_cells s) in ret c (s\<lparr>channel_cells := h\<rparr>))"

definition send_outcome :: "send_step \<Rightarrow> ('d, 'k, 'n, unit) kernel_action" where
  "send_outcome step =
     (case step of
        Sent \<Rightarrow> ret ()
      | Full \<Rightarrow> throw WouldBlock
      | SendClosed \<Rightarrow> throw NotFound
      | TooLarge \<Rightarrow> throw InvalidArgument)"

definition recv_outcome :: "recv_step \<Rightarrow> ('d, 'k, 'n, u8 list) kernel_action" where
  "recv_outcome step =
     (case step of
        Message m \<Rightarrow> ret m
      | Empty \<Rightarrow> throw WouldBlock
      | RecvClosed \<Rightarrow> throw NotFound)"

definition kernel_open_channel ::
    "('d, 'k, 'n) platform \<Rightarrow> boundary_id \<Rightarrow> nat \<Rightarrow> nat \<Rightarrow> ('d, 'k, 'n, u64) kernel_action" where
  "kernel_open_channel P b cap max_bytes =
     bindE (get_table NotPermitted) (\<lambda>t.
       case channel_terms_new (bounded_string P) (str_bytes ''syscall'') Bidirectional (of_nat max_bytes) (of_nat (max cap 1)) of
         Inl _ \<Rightarrow> throw InvalidArgument
       | Inr terms \<Rightarrow>
           let (ch, reg) = registry_create terms (table_registry t) in
           bindE (cell_new ch) (\<lambda>c.
             let (h, t) = table_register (boundary_raw b) c (t\<lparr>table_registry := reg\<rparr>) in
             bindE (put_table t) (\<lambda>_. ret h)))"

definition kernel_channel_send ::
    "('d, 'k, 'n) platform \<Rightarrow> boundary_id \<Rightarrow> u64 \<Rightarrow> u8 list \<Rightarrow> ('d, 'k, 'n, unit) kernel_action" where
  "kernel_channel_send P b h msg =
     bindE (get_table NotFound) (\<lambda>t.
     bindE (of_option NotFound (table_resolve (boundary_raw b) h t)) (\<lambda>c.
     bindE (cell_send P c msg) send_outcome))"

definition kernel_channel_recv ::
    "('d, 'k, 'n) platform \<Rightarrow> boundary_id \<Rightarrow> u64 \<Rightarrow> ('d, 'k, 'n, u8 list) kernel_action" where
  "kernel_channel_recv P b h =
     bindE (get_table NotFound) (\<lambda>t.
     bindE (of_option NotFound (table_resolve (boundary_raw b) h t)) (\<lambda>c.
     bindE (cell_recv P c) recv_outcome))"

definition kernel_spawn :: "boundary_id \<Rightarrow> u64 \<Rightarrow> u64 \<Rightarrow> ('d, 'k, 'n, u64) kernel_action" where
  "kernel_spawn b entry a = throw NotPermitted"

definition kernel_request_channel ::
    "boundary_id \<Rightarrow> boundary_id \<Rightarrow> channel_terms \<Rightarrow> ('d, 'k, 'n, u64) kernel_action" where
  "kernel_request_channel requester target terms =
     bindE (get_table NotPermitted) (\<lambda>t.
       let (i, reg) = registry_request requester \<lparr>req_target = target, req_terms = terms\<rparr> (table_registry t) in
       bindE (put_table (t\<lparr>table_registry := reg\<rparr>)) (\<lambda>_. ret i))"

definition kernel_poll_channel_request :: "boundary_id \<Rightarrow> u8 list \<Rightarrow> ('d, 'k, 'n, u64 \<times> u8 list) kernel_action" where
  "kernel_poll_channel_request target out =
     bindE (get_table NotPermitted) (\<lambda>t.
     bindE (of_option NotFound (registry_poll target (table_registry t))) (\<lambda>(i, requester, terms).
       let bytes = request_to_bytes \<lparr>wire_requester = boundary_raw requester, wire_terms = wire_from_terms terms\<rparr> in
       if length out < CHANNEL_REQUEST_WIRE_LEN then throw InvalidArgument
       else ret (i, bytes @ drop CHANNEL_REQUEST_WIRE_LEN out)))"

definition kernel_accept_channel :: "boundary_id \<Rightarrow> u64 \<Rightarrow> ('d, 'k, 'n, u64) kernel_action" where
  "kernel_accept_channel target rid =
     bindE (get_table NotPermitted) (\<lambda>t.
       case registry_accept rid target (table_registry t) of
         (None, reg) \<Rightarrow> throw NotPermitted
       | (Some (ch, requester), reg) \<Rightarrow>
           bindE (cell_new ch) (\<lambda>c.
             let (th, t) = table_register (boundary_raw target) c (t\<lparr>table_registry := reg\<rparr>);
                 (rh, t) = table_register (boundary_raw requester) c t;
                 t = t\<lparr>accepted := bt_insert rid (boundary_raw requester, rh) (accepted t)\<rparr> in
             bindE (put_table t) (\<lambda>_. ret th)))"

definition kernel_reject_channel :: "boundary_id \<Rightarrow> u64 \<Rightarrow> ('d, 'k, 'n, unit) kernel_action" where
  "kernel_reject_channel target rid =
     bindE (get_table NotPermitted) (\<lambda>t.
       let (done_it, reg) = registry_reject rid target (table_registry t) in
       bindE (put_table (t\<lparr>table_registry := reg\<rparr>)) (\<lambda>_.
       if done_it then ret () else throw NotFound))"

definition kernel_poll_channel_outcome :: "boundary_id \<Rightarrow> u64 \<Rightarrow> ('d, 'k, 'n, u64) kernel_action" where
  "kernel_poll_channel_outcome requester rid =
     bindE (get_table NotPermitted) (\<lambda>t.
       case bt_get (accepted t) rid of
         Some (b, h) \<Rightarrow>
           if b = boundary_raw requester
           then bindE (put_table (t\<lparr>accepted := bt_remove rid (accepted t)\<rparr>)) (\<lambda>_. ret h)
           else throw NotPermitted
       | None \<Rightarrow> if is_pending (table_registry t) rid then throw WouldBlock else throw NotFound)"

section \<open>Gates and links\<close>

definition kernel_gate_bind :: "boundary_id \<Rightarrow> u16 \<Rightarrow> ('d, 'k, 'n, u64) kernel_action" where
  "kernel_gate_bind b g =
     bindE (get_table NotPermitted) (\<lambda>t.
       let (r, gs) = gate_bind b g (gates t) in
       bindE (put_table (t\<lparr>gates := gs\<rparr>)) (\<lambda>_.
         case r of
           Inr _ \<Rightarrow> ret (ucast g)
         | Inl e \<Rightarrow> if e = Blocked \<or> e = AlreadyBound then throw NotPermitted else throw InvalidArgument))"

definition kernel_gate_connect ::
    "('d, 'k, 'n) platform \<Rightarrow> boundary_id \<Rightarrow> u16 \<Rightarrow> ('d, 'k, 'n, u64) kernel_action" where
  "kernel_gate_connect P b g =
     bindE (get_table NotPermitted) (\<lambda>t s.
       let cid = ChannelId (next_channel_id t);
           (r, gs, cells) = gate_connect (bounded_string P) b g cid (gates t, channel_cells s);
           t = t\<lparr>next_channel_id := next_channel_id t + 1, gates := gs\<rparr>;
           s = s\<lparr>channel_cells := cells\<rparr> in
       (case r of
          Inl e \<Rightarrow>
            bindE (put_table t) (\<lambda>_.
              if e = Blocked then throw NotPermitted else if e = Refused then throw NotFound else throw InvalidArgument)
        | Inr c \<Rightarrow> let (h, t) = table_register (boundary_raw b) c t in bindE (put_table t) (\<lambda>_. ret h)) s)"

definition kernel_gate_accept :: "boundary_id \<Rightarrow> u16 \<Rightarrow> ('d, 'k, 'n, u64) kernel_action" where
  "kernel_gate_accept b g =
     bindE (get_table NotPermitted) (\<lambda>t.
       let (r, gs) = gate_accept b g (gates t); t = t\<lparr>gates := gs\<rparr> in
       case r of
         Inl e \<Rightarrow>
           bindE (put_table t) (\<lambda>_.
             if e = GateWouldBlock then throw WouldBlock else if e = NotOwner then throw NotPermitted else throw NotFound)
       | Inr (c, _) \<Rightarrow> let (h, t) = table_register (boundary_raw b) c t in bindE (put_table t) (\<lambda>_. ret h))"

text \<open>A link handle is a local channel or a remote flow; a handle that is neither is not found.\<close>

definition resolve_link :: "boundary_id \<Rightarrow> u64 \<Rightarrow> ('d, 'k, 'n, chan_ref + remote_link) kernel_action" where
  "resolve_link b h =
     bindE (get_table NotPermitted) (\<lambda>t.
       case table_resolve (boundary_raw b) h t of
         Some c \<Rightarrow> ret (Inl c)
       | None \<Rightarrow> bindE (of_option NotFound (resolve_remote (boundary_raw b) h t)) (\<lambda>rl. ret (Inr rl)))"

definition on_net :: "('n net_state, transport_error, 'a) action \<Rightarrow> ('d, 'k, 'n, transport_error + 'a) kernel_action" where
  "on_net m s = map_option (\<lambda>(r, n). (Inr r, s\<lparr>nic := n\<rparr>)) (m (nic s))"

definition kernel_link_send ::
    "('d, 'k, 'n) platform \<Rightarrow> boundary_id \<Rightarrow> u64 \<Rightarrow> u8 list \<Rightarrow> ('d, 'k, 'n, unit) kernel_action" where
  "kernel_link_send P b h msg =
     bindE (resolve_link b h) (\<lambda>link.
       case link of
         Inr rl \<Rightarrow>
           bindE (on_net (remote_send (net_device_of P) rl msg)) (\<lambda>r.
             case r of
               Inr _ \<Rightarrow> ret ()
             | Inl (TransportNet _) \<Rightarrow> throw InvalidArgument
             | Inl _ \<Rightarrow> throw WouldBlock)
       | Inl c \<Rightarrow> bindE (cell_send P c msg) send_outcome)"

definition kernel_link_recv ::
    "('d, 'k, 'n) platform \<Rightarrow> boundary_id \<Rightarrow> u64 \<Rightarrow> ('d, 'k, 'n, u8 list) kernel_action" where
  "kernel_link_recv P b h =
     bindE (resolve_link b h) (\<lambda>link.
       case link of
         Inr rl \<Rightarrow>
           bindE (on_net (remote_recv (net_device_of P) rl 1500)) (\<lambda>r.
             case r of
               Inr (Some bytes) \<Rightarrow> ret bytes
             | _ \<Rightarrow> throw WouldBlock)
       | Inl c \<Rightarrow> bindE (cell_recv P c) recv_outcome)"

definition kernel_link_close :: "('d, 'k, 'n) platform \<Rightarrow> boundary_id \<Rightarrow> u64 \<Rightarrow> ('d, 'k, 'n, unit) kernel_action" where
  "kernel_link_close P b h =
     bindE (get_table NotPermitted) (\<lambda>t.
     bindE (of_option NotFound (table_resolve (boundary_raw b) h t)) (\<lambda>c.
     cell_close P c))"

definition kernel_warden_set :: "boundary_id \<Rightarrow> u16 \<Rightarrow> bool \<Rightarrow> ('d, 'k, 'n, unit) kernel_action" where
  "kernel_warden_set b g allow =
     bindE (get_table NotPermitted) (\<lambda>t.
     put_table (t\<lparr>gates := (if allow then warden_allow g (gates t) else warden_deny g (gates t))\<rparr>))"

definition kernel_gate_probe :: "boundary_id \<Rightarrow> u16 \<Rightarrow> ('d, 'k, 'n, u64) kernel_action" where
  "kernel_gate_probe b g =
     bindE (get_table NotPermitted) (\<lambda>t.
     ret (case gate_probe g (gates t) of GateClosed \<Rightarrow> 0 | GateOpen \<Rightarrow> 1 | GateBlocked \<Rightarrow> 2))"

section \<open>The environment\<close>

definition kernel_env :: "('d, 'k, 'n) platform \<Rightarrow> ('d, 'k, 'n) kernel_state syscall_env" where
  "kernel_env P =
     \<lparr>copy_from_user = kernel_copy_from_user,
      console_write = kernel_console_write,
      now_nanos = (\<lambda>_. 0),
      copy_to_user = kernel_copy_to_user,
      env_fs_read = kernel_fs_read P,
      env_fs_write = kernel_fs_write P,
      env_fs_mkdir = kernel_fs_mkdir P,
      env_fs_exists = kernel_fs_exists P,
      env_fs_list = kernel_fs_list P,
      env_fs_delete = kernel_fs_delete P,
      sleep_nanos = kernel_sleep_nanos,
      read_key = kernel_read_key P,
      fill_random = kernel_fill_random P,
      open_channel = kernel_open_channel P,
      env_channel_send = kernel_channel_send P,
      env_channel_recv = kernel_channel_recv P,
      env_spawn = kernel_spawn,
      request_channel = kernel_request_channel,
      poll_channel_request = kernel_poll_channel_request,
      accept_channel = kernel_accept_channel,
      reject_channel = kernel_reject_channel,
      poll_channel_outcome = kernel_poll_channel_outcome,
      env_gate_bind = kernel_gate_bind,
      env_gate_connect = kernel_gate_connect P,
      env_gate_accept = kernel_gate_accept,
      link_send = kernel_link_send P,
      link_recv = kernel_link_recv P,
      link_close = kernel_link_close P,
      warden_set = kernel_warden_set,
      env_gate_probe = kernel_gate_probe\<rparr>"

text \<open>
  The bridge from the trap stub. \<open>exit\<close> does not return to the caller but unwinds to the kernel
  with the code.
\<close>

datatype syscall_return = ToCaller i64 | ToKernel i64

definition handle_syscall ::
    "(nat \<Rightarrow> bool) \<Rightarrow> ('d, 'k, 'n) platform \<Rightarrow> u64 \<Rightarrow> u64 \<Rightarrow> u64 \<Rightarrow> u64 \<Rightarrow> ('d, 'k, 'n) kernel_state \<Rightarrow>
     (syscall_return \<times> ('d, 'k, 'n) kernel_state) option" where
  "handle_syscall heap P n a0 a1 a2 s =
     map_option (\<lambda>(out, s'). (case out of OutReturn v \<Rightarrow> ToCaller v | OutYield \<Rightarrow> ToCaller 0 | OutExit code \<Rightarrow> ToKernel code, s'))
       (dispatch heap (bounded_string P) (kernel_env P)
         \<lparr>number = n, arg0 = a0, arg1 = a1, arg2 = a2, caller = SYSTEM\<rparr> s)"

section \<open>The sleep ends\<close>

lemma unat_now_millis: "unat (now_millis t) = unat (t * 1000) div 100"
  by (simp add: now_millis_def TICK_HZ_def unat_div_distrib)

text \<open>
  Without wrap-around of the tick product the clock runs up to the deadline; if the product wraps
  first, the difference to the start becomes so large that the loop ends as well.
\<close>

lemma sleep_loop_returns:
  assumes "unat millis \<le> 18446744073710" "unat (t0 * 1000) \<le> unat (t * 1000)"
  shows "\<exists>t'. sleep_loop (now_millis t0) millis t = Some t'"
  using assms(2)
proof (induction "2 ^ 64 - unat (t * 1000)" arbitrary: t rule: less_induct)
  case less
  let ?p = "unat (t * 1000)" and ?q = "unat (t0 * 1000)" and ?S = "now_millis t0"
  have S: "unat ?S = ?q div 100" by (rule unat_now_millis)
  have n: "unat (now_millis t) = ?p div 100" by (rule unat_now_millis)
  have lt: "?p < 2 ^ 64" by (rule unat_u64_less)
  show ?case
  proof (cases "now_millis t - ?S < millis")
    case False
    then show ?thesis by (subst sleep_loop.simps) simp
  next
    case True
    have le: "?S \<le> now_millis t" using less.prems by (simp add: word_le_nat_alt S n div_le_mono)
    then have near: "?p div 100 - ?q div 100 < unat millis"
      using True S n by (simp add: word_less_nat_alt unat_sub)
    have step: "sleep_loop ?S millis t = sleep_loop ?S millis (t + 1)"
      using True by (subst sleep_loop.simps) simp
    have next_p: "(t + 1) * 1000 = t * 1000 + (1000 :: u64)" by (simp add: algebra_simps)
    show ?thesis
    proof (cases "?p + 1000 < 2 ^ 64")
      case True
      then have "unat ((t + 1) * 1000) = ?p + 1000" unfolding next_p by (simp add: unat_word_ariths)
      then show ?thesis using less.hyps [of "t + 1"] less.prems lt step by simp
    next
      case False
      have "unat ((t + 1) * 1000) = (?p + 1000) mod 2 ^ 64" unfolding next_p by (simp add: unat_word_ariths)
      also have "\<dots> = ?p + 1000 - 2 ^ 64" using False lt by (simp add: mod_if)
      finally have "unat (now_millis (t + 1)) \<le> 9" using lt unfolding unat_now_millis by linarith
      moreover have high: "184467440737095506 \<le> ?p div 100" using False by (simp add: less_eq_div_iff_mult_less_eq)
      moreover have S_le: "unat ?S \<le> 184467440737095517" unfolding S using unat_u64_less [of "t0 * 1000"] by simp
      moreover have "10 \<le> unat ?S" using near high assms(1) unfolding S by linarith
      ultimately have "unat (now_millis (t + 1) - ?S) = unat (now_millis (t + 1)) + 2 ^ 64 - unat ?S"
        by (simp add: unat_sub_if_size word_size)
      then have "\<not> now_millis (t + 1) - ?S < millis"
        using assms(1) S_le by (simp add: word_less_nat_alt)
      then have "sleep_loop ?S millis (t + 1) = Some (t + 1)" by (subst sleep_loop.simps) simp
      then show ?thesis using step by simp
    qed
  qed
qed

lemma kernel_sleep_returns: "\<exists>t. kernel_sleep_nanos ns s = Some (Inr (), s\<lparr>timer_ticks := t\<rparr>)"
proof (cases "ns div 1000000 = 0")
  case True
  then show ?thesis by (intro exI [of _ "timer_ticks s"]) (simp add: kernel_sleep_nanos_def ret_def)
next
  case False
  have "unat ns div 1000000 \<le> 18446744073710" using unat_u64_less [of ns] by simp
  then have "unat (ns div 1000000) \<le> 18446744073710" by (simp add: unat_div_distrib)
  from sleep_loop_returns [OF this order_refl, of "timer_ticks s"] show ?thesis
    using False by (auto simp: kernel_sleep_nanos_def ret_def)
qed

end
