(* ===== verification/Kernel_Properties.thy ===== *)
theory Kernel_Properties
  imports Kernel_Env
begin

text \<open>
  What the booted kernel keeps across system calls: its root volume and its channels stay well
  formed, every handle leads to a channel, and no call panics. The environment meets the contract
  of the dispatcher; the properties of whole calls follow.
\<close>

section \<open>The invariant\<close>

definition table_wf :: "channel_handle_table \<Rightarrow> chan_heap \<Rightarrow> bool" where
  "table_wf t h \<longleftrightarrow> (\<forall>x c. bt_get (handles t) x = Some c \<longrightarrow> c < length h) \<and> gate_inv (gates t, h) \<and>
     (\<forall>i p. bt_get (pending (table_registry t)) i = Some p \<longrightarrow> buffer_capacity (pr_terms p) \<noteq> 0)"

definition kernel_inv :: "'d block_dev \<Rightarrow> ('d \<Rightarrow> bool) \<Rightarrow> ('n \<Rightarrow> bool) \<Rightarrow> ('d, 'k, 'n) kernel_state \<Rightarrow> bool" where
  "kernel_inv D valid nv s \<longleftrightarrow>
     (\<forall>f. root_fs s = Some f \<longrightarrow> fs_wf D valid f) \<and>
     (\<forall>t. channel_table s = Some t \<longrightarrow> table_wf t (channel_cells s)) \<and>
     (\<forall>c \<in> set (channel_cells s). chan_wf c) \<and> kq_wf (kb_queue (kernel_keyboard s)) \<and> net_ok nv (nic s)"

lemma kernel_inv_frame [simp]:
  "kernel_inv D valid nv (s\<lparr>user_memory := m\<rparr>) = kernel_inv D valid nv s"
  "kernel_inv D valid nv (s\<lparr>console_out := co\<rparr>) = kernel_inv D valid nv s"
  "kernel_inv D valid nv (s\<lparr>timer_ticks := tt\<rparr>) = kernel_inv D valid nv s"
  "kernel_inv D valid nv (s\<lparr>kernel_rng := rg\<rparr>) = kernel_inv D valid nv s"
  by (simp_all add: kernel_inv_def)

lemma kernel_inv_table:
  "kernel_inv D valid nv s \<Longrightarrow> table_wf t (channel_cells s) \<Longrightarrow> kernel_inv D valid nv (s\<lparr>channel_table := Some t\<rparr>)"
  by (simp add: kernel_inv_def)

lemma gate_inv_grow: "gate_inv (r, h) \<Longrightarrow> length h \<le> length h' \<Longrightarrow> gate_inv (r, h')"
  unfolding gate_inv_def by fastforce

lemma table_wf_grow: "table_wf t h \<Longrightarrow> length h \<le> length h' \<Longrightarrow> table_wf t h'"
  unfolding table_wf_def by (meson gate_inv_grow order.strict_trans2)

lemma table_register_wf: "table_wf t h \<Longrightarrow> c < length h \<Longrightarrow> table_wf (snd (table_register b c t)) h"
  by (simp add: table_wf_def table_register_def Let_def btree_simps)

lemma table_registry_wf:
  "table_wf t h \<Longrightarrow> (\<And>i p. bt_get (pending reg) i = Some p \<Longrightarrow> buffer_capacity (pr_terms p) \<noteq> 0) \<Longrightarrow>
   table_wf (t\<lparr>table_registry := reg\<rparr>) h"
  by (simp add: table_wf_def)

lemma table_gates_wf: "table_wf t h \<Longrightarrow> gate_inv (gs, h) \<Longrightarrow> table_wf (t\<lparr>gates := gs\<rparr>) h"
  by (simp add: table_wf_def)

lemma table_other_wf [simp]:
  "table_wf (t\<lparr>accepted := a\<rparr>) h = table_wf t h" "table_wf (t\<lparr>next_channel_id := n\<rparr>) h = table_wf t h"
  by (simp_all add: table_wf_def)

text \<open>Traffic on one channel keeps every channel well formed.\<close>

lemma cells_update:
  "\<forall>c \<in> set h. chan_wf c \<Longrightarrow> chan_wf ch \<Longrightarrow> \<forall>c \<in> set (h[i := ch]). chan_wf c"
  using set_update_subset_insert [of h i ch] by auto

lemma kernel_inv_traffic:
  assumes "kernel_inv D valid nv s" "chan_wf ch"
  shows "kernel_inv D valid nv (s\<lparr>channel_cells := (channel_cells s)[c := ch], sched := k\<rparr>)"
  using assms cells_update [of "channel_cells s" ch c] table_wf_grow [of _ "channel_cells s" "(channel_cells s)[c := ch]"]
  by (simp add: kernel_inv_def)

lemma cell_ops:
  assumes inv: "kernel_inv D valid nv s" and c: "c < length (channel_cells s)"
  shows "\<exists>step s'. cell_send P c msg s = Some (Inr step, s') \<and> kernel_inv D valid nv s'"
    "\<exists>step s'. cell_recv P c s = Some (Inr step, s') \<and> kernel_inv D valid nv s'"
    "\<exists>s'. cell_close P c s = Some (Inr (), s') \<and> kernel_inv D valid nv s'"
proof -
  have wf: "chan_wf (channel_cells s ! c)" using inv c by (simp add: kernel_inv_def)
  obtain step ch k where t: "try_send (kernel_kif P) (active_lane s) msg (channel_cells s ! c, sched s) = (step, ch, k)"
    by (metis prod_cases3)
  then show "\<exists>step s'. cell_send P c msg s = Some (Inr step, s') \<and> kernel_inv D valid nv s'"
    using kernel_inv_traffic [OF inv] try_send_wf [OF t wf] by (simp add: cell_send_def ret_def)
  obtain step ch k where t: "try_recv (kernel_kif P) (active_lane s) (channel_cells s ! c, sched s) = (step, ch, k)"
    by (metis prod_cases3)
  then show "\<exists>step s'. cell_recv P c s = Some (Inr step, s') \<and> kernel_inv D valid nv s'"
    using kernel_inv_traffic [OF inv] try_recv_wf [OF t wf] by (simp add: cell_recv_def ret_def)
  show "\<exists>s'. cell_close P c s = Some (Inr (), s') \<and> kernel_inv D valid nv s'"
    using kernel_inv_traffic [OF inv close_wf [OF wf, of "kernel_kif P" "sched s"]]
    by (cases "close (kernel_kif P) (channel_cells s ! c, sched s)") (simp add: cell_close_def ret_def)
qed

section \<open>Every method keeps it\<close>

text \<open>The same judgement for one starting state.\<close>

definition run_at :: "('s \<Rightarrow> bool) \<Rightarrow> ('s, 'e, 'a) action \<Rightarrow> 's \<Rightarrow> bool" where
  "run_at J m s \<longleftrightarrow> (\<exists>r s'. m s = Some (r, s') \<and> J s')"

named_theorems at_rules

lemma runsI: "(\<And>s. J s \<Longrightarrow> run_at J m s) \<Longrightarrow> runs J (\<lambda>_. True) m"
  by (auto simp: runs_def run_at_def split: sum.split)

lemma at_ret [at_rules]: "J s \<Longrightarrow> run_at J (ret x) s"
  by (simp add: run_at_def ret_def)

lemma at_throw [at_rules]: "J s \<Longrightarrow> run_at J (throw e) s"
  by (simp add: run_at_def throw_def)

lemma at_bind: "m s = Some (Inr x, s') \<Longrightarrow> run_at J (f x) s' \<Longrightarrow> run_at J (bindE m f) s"
  by (simp add: run_at_def bindE_def)

lemma at_get_table [at_rules]:
  "J s \<Longrightarrow> (\<And>t. channel_table s = Some t \<Longrightarrow> run_at J (f t) s) \<Longrightarrow> run_at J (bindE (get_table e) f) s"
  by (cases "channel_table s") (simp_all add: run_at_def bindE_def get_table_def throw_def ret_def)

lemma at_put_table [at_rules]:
  "run_at J (f ()) (s\<lparr>channel_table := Some t\<rparr>) \<Longrightarrow> run_at J (bindE (put_table t) f) s"
  by (simp add: run_at_def bindE_def put_table_def ret_def)

lemma at_of_option [at_rules]:
  "J s \<Longrightarrow> (\<And>y. x = Some y \<Longrightarrow> run_at J (f y) s) \<Longrightarrow> run_at J (bindE (of_option e x) f) s"
  by (cases x) (simp_all add: run_at_def bindE_def of_option_def throw_def ret_def)

lemma at_if [at_rules]: "(c \<Longrightarrow> run_at J m s) \<Longrightarrow> (\<not> c \<Longrightarrow> run_at J m' s) \<Longrightarrow> run_at J (if c then m else m') s"
  by simp

lemma at_option [at_rules]:
  "(x = None \<Longrightarrow> run_at J m s) \<Longrightarrow> (\<And>y. x = Some y \<Longrightarrow> run_at J (f y) s) \<Longrightarrow> run_at J (case x of None \<Rightarrow> m | Some y \<Rightarrow> f y) s"
  by (cases x) simp_all

lemma at_sum [at_rules]:
  "(\<And>e. x = Inl e \<Longrightarrow> run_at J (f e) s) \<Longrightarrow> (\<And>y. x = Inr y \<Longrightarrow> run_at J (g y) s) \<Longrightarrow>
   run_at J (case x of Inl e \<Rightarrow> f e | Inr y \<Rightarrow> g y) s"
  by (cases x) simp_all

lemma at_outcomes [at_rules]: "J s \<Longrightarrow> run_at J (send_outcome st) s" "J s \<Longrightarrow> run_at J (recv_outcome st') s"
  by (simp_all add: send_outcome_def recv_outcome_def at_rules split: send_step.split recv_step.split)

lemma handles_in_range:
  "kernel_inv D valid nv s \<Longrightarrow> channel_table s = Some t \<Longrightarrow> table_resolve b h t = Some c \<Longrightarrow> c < length (channel_cells s)"
  by (auto simp: kernel_inv_def table_wf_def table_resolve_def)

lemma at_cell_ops:
  assumes inv: "kernel_inv D valid nv s" and t: "channel_table s = Some t" "table_resolve b h t = Some c"
  shows "run_at (kernel_inv D valid nv) (bindE (cell_send P c msg) send_outcome) s"
    "run_at (kernel_inv D valid nv) (bindE (cell_recv P c) recv_outcome) s"
    "run_at (kernel_inv D valid nv) (cell_close P c) s"
  using cell_ops [OF inv handles_in_range [OF inv t], of P] at_outcomes [of "kernel_inv D valid nv"]
  by (metis at_bind run_at_def)+

lemma message_ops_run:
  "runs (kernel_inv D valid nv) (\<lambda>_. True) (kernel_channel_send P b h msg)"
  "runs (kernel_inv D valid nv) (\<lambda>_. True) (kernel_channel_recv P b h)"
  "runs (kernel_inv D valid nv) (\<lambda>_. True) (kernel_link_close P b h)"
  unfolding kernel_channel_send_def kernel_channel_recv_def kernel_link_close_def
  by (rule runsI; intro at_rules at_cell_ops; assumption)+

lemma at_resolve_any:
  assumes "J s"
    "\<And>c t. channel_table s = Some t \<Longrightarrow> table_resolve (boundary_raw b) h t = Some c \<Longrightarrow> run_at J (f (Inl c)) s"
    "\<And>rl. run_at J (f (Inr rl)) s"
  shows "run_at J (bindE (resolve_link b h) f) s"
proof (cases "channel_table s")
  case None
  then show ?thesis using assms(1) by (simp add: run_at_def bindE_def resolve_link_def get_table_def throw_def)
next
  case (Some t)
  show ?thesis
  proof (cases "table_resolve (boundary_raw b) h t")
    case None
    then show ?thesis
      using assms(1,3) Some by (cases "resolve_remote (boundary_raw b) h t")
        (simp_all add: run_at_def bindE_def resolve_link_def get_table_def throw_def ret_def of_option_def)
  next
    case c: (Some c)
    then show ?thesis
      using assms(2) [OF Some c] Some by (simp add: run_at_def bindE_def resolve_link_def get_table_def ret_def)
  qed
qed

lemma at_net:
  assumes "kernel_inv D valid nv s" "runs (net_ok nv) (\<lambda>_. True) m"
    "\<And>r s'. kernel_inv D valid nv s' \<Longrightarrow> run_at (kernel_inv D valid nv) (k r) s'"
  shows "run_at (kernel_inv D valid nv) (bindE (on_net m) k) s"
proof -
  obtain r n where m: "m (nic s) = Some (r, n)" "net_ok nv n"
    using assms(1,2) unfolding runs_def kernel_inv_def by blast
  then have "kernel_inv D valid nv (s\<lparr>nic := n\<rparr>)" using assms(1) by (simp add: kernel_inv_def)
  from assms(3) [OF this] show ?thesis using m(1) by (simp add: run_at_def bindE_def on_net_def)
qed

lemma at_transport [at_rules]:
  "J s \<Longrightarrow> run_at J (case r of Inr _ \<Rightarrow> ret () | Inl (TransportNet _) \<Rightarrow> throw InvalidArgument | Inl _ \<Rightarrow> throw WouldBlock) s"
  "J s \<Longrightarrow> run_at J (case r' of Inr (Some bytes) \<Rightarrow> ret bytes | _ \<Rightarrow> throw WouldBlock) s"
  by (auto simp: run_at_def ret_def throw_def split: sum.split transport_error.split option.split)

lemma link_ops_run:
  assumes "net_device (net_device_of P) nv"
  shows "runs (kernel_inv D valid nv) (\<lambda>_. True) (kernel_link_send P b h msg)"
    "runs (kernel_inv D valid nv) (\<lambda>_. True) (kernel_link_recv P b h)"
proof -
  note net = net_device.transport_runs [OF assms]
  have remote: "run_at (kernel_inv D valid nv) (bindE (on_net (remote_send (net_device_of P) rl msg)) (\<lambda>r.
      case r of Inr _ \<Rightarrow> ret () | Inl (TransportNet _) \<Rightarrow> throw InvalidArgument | Inl _ \<Rightarrow> throw WouldBlock)) s"
    "run_at (kernel_inv D valid nv) (bindE (on_net (remote_recv (net_device_of P) rl 1500)) (\<lambda>r.
      case r of Inr (Some bytes) \<Rightarrow> ret bytes | _ \<Rightarrow> throw WouldBlock)) s"
    if "kernel_inv D valid nv s" for s rl
    by (intro at_net [OF that] net at_transport; assumption)+
  show "runs (kernel_inv D valid nv) (\<lambda>_. True) (kernel_link_send P b h msg)"
    unfolding kernel_link_send_def by (rule runsI, rule at_resolve_any) (simp_all only: sum.case remote at_cell_ops)
  show "runs (kernel_inv D valid nv) (\<lambda>_. True) (kernel_link_recv P b h)"
    unfolding kernel_link_recv_def by (rule runsI, rule at_resolve_any) (simp_all only: sum.case remote at_cell_ops)
qed

lemma at_cell_new:
  assumes "run_at J (f (length (channel_cells s))) (s\<lparr>channel_cells := channel_cells s @ [ch]\<rparr>)"
  shows "run_at J (bindE (cell_new ch) f) s"
  using assms by (simp add: run_at_def bindE_def cell_new_def chan_alloc_def ret_def)

text \<open>A new channel is registered under a fresh cell.\<close>

lemma kernel_inv_new_cell:
  assumes "kernel_inv D valid nv s" "chan_wf ch" "table_wf t (channel_cells s @ [ch])"
  shows "kernel_inv D valid nv (s\<lparr>channel_cells := channel_cells s @ [ch], channel_table := Some t\<rparr>)"
  using assms by (auto simp: kernel_inv_def)

lemma table_wf_alloc:
  assumes "kernel_inv D valid nv s" "channel_table s = Some t"
  shows "table_wf t (channel_cells s)" "table_wf t (channel_cells s @ [ch])"
  using assms table_wf_grow [of t "channel_cells s" "channel_cells s @ [ch]"] by (auto simp: kernel_inv_def)

lemma open_channel_runs: "runs (kernel_inv D valid nv) (\<lambda>_. True) (kernel_open_channel P b cap m)"
  unfolding kernel_open_channel_def
proof (rule runsI, rule at_get_table)
  fix s :: "('a, 'b, 'c) kernel_state" and t
  assume s: "kernel_inv D valid nv s" "channel_table s = Some t"
  show "run_at (kernel_inv D valid nv)
      (case channel_terms_new (bounded_string P) (str_bytes ''syscall'') Bidirectional (of_nat m) (of_nat (max cap 1)) of
         Inl _ \<Rightarrow> throw InvalidArgument
       | Inr terms \<Rightarrow>
           let (ch, reg) = registry_create terms (table_registry t) in
           bindE (cell_new ch) (\<lambda>c.
             let (h, t) = table_register (boundary_raw b) c (t\<lparr>table_registry := reg\<rparr>) in
             bindE (put_table t) (\<lambda>_. ret h))) s"
  proof (rule at_sum)
    fix terms
    assume "channel_terms_new (bounded_string P) (str_bytes ''syscall'') Bidirectional (of_nat m) (of_nat (max cap 1)) = Inr terms"
    then have cap: "buffer_capacity terms \<noteq> 0" by (auto simp: channel_terms_new_def split: option.splits if_splits)
    let ?ch = "channel_new (ChannelId (next_id (table_registry t))) terms"
    let ?reg = "table_registry t\<lparr>next_id := next_id (table_registry t) + 1\<rparr>"
    let ?t = "snd (table_register (boundary_raw b) (length (channel_cells s)) (t\<lparr>table_registry := ?reg\<rparr>))"
    have "table_wf ?t (channel_cells s @ [?ch])"
      using table_wf_alloc(2) [OF s] by (intro table_register_wf table_registry_wf) (auto simp: table_wf_def)
    then have "kernel_inv D valid nv (s\<lparr>channel_cells := channel_cells s @ [?ch], channel_table := Some ?t\<rparr>)"
      by (rule kernel_inv_new_cell [OF s(1) channel_new_wf [OF cap]])
    then show "run_at (kernel_inv D valid nv)
         (let (ch, reg) = registry_create terms (table_registry t) in
           bindE (cell_new ch) (\<lambda>c.
             let (h, t) = table_register (boundary_raw b) c (t\<lparr>table_registry := reg\<rparr>) in
             bindE (put_table t) (\<lambda>_. ret h))) s"
      unfolding registry_create_def Let_def case_prod_beta fst_conv snd_conv
      by (intro at_cell_new at_put_table at_ret) simp
  qed (rule at_throw, rule s(1))
qed
lemma request_channel_runs:
  "buffer_capacity terms \<noteq> 0 \<Longrightarrow> runs (kernel_inv D valid nv) (\<lambda>_. True) (kernel_request_channel b b' terms)"
  unfolding kernel_request_channel_def registry_request_def Let_def case_prod_conv
  by (rule runsI, intro at_get_table at_put_table at_ret kernel_inv_table table_registry_wf)
    (auto simp: btree_simps kernel_inv_def table_wf_def split: if_splits)

lemma poll_request_runs: "runs (kernel_inv D valid nv) (\<lambda>_. True) (kernel_poll_channel_request b out)"
  unfolding kernel_poll_channel_request_def Let_def
  by (rule runsI, intro at_get_table at_of_option) (auto intro: at_rules)

lemma reject_channel_runs: "runs (kernel_inv D valid nv) (\<lambda>_. True) (kernel_reject_channel b rid)"
proof -
  have "table_wf (t\<lparr>table_registry := snd (registry_reject rid b (table_registry t))\<rparr>) h" if "table_wf t h" for t h
    using that by (intro table_registry_wf)
      (auto simp: registry_reject_def btree_simps table_wf_def split: option.splits if_splits)
  then show ?thesis
    unfolding kernel_reject_channel_def Let_def case_prod_beta
    by (intro runsI at_get_table at_put_table at_if at_ret at_throw kernel_inv_table) (simp_all add: kernel_inv_def)
qed

lemma poll_outcome_runs: "runs (kernel_inv D valid nv) (\<lambda>_. True) (kernel_poll_channel_outcome b rid)"
  unfolding kernel_poll_channel_outcome_def Let_def
  by (rule runsI, intro at_get_table at_option at_if)
    (auto intro!: at_rules kernel_inv_table simp: kernel_inv_def)

lemma accept_channel_runs: "runs (kernel_inv D valid nv) (\<lambda>_. True) (kernel_accept_channel b rid)"
  unfolding kernel_accept_channel_def
proof (rule runsI, rule at_get_table)
  fix s :: "('a, 'b, 'c) kernel_state" and t
  assume s: "kernel_inv D valid nv s" "channel_table s = Some t"
  obtain res reg where acc: "registry_accept rid b (table_registry t) = (res, reg)" by (rule prod.exhaust)
  show "run_at (kernel_inv D valid nv) (case registry_accept rid b (table_registry t) of
         (None, reg) \<Rightarrow> throw NotPermitted
       | (Some (ch, requester), reg) \<Rightarrow>
           bindE (cell_new ch) (\<lambda>c.
             let (th, t) = table_register (boundary_raw b) c (t\<lparr>table_registry := reg\<rparr>);
                 (rh, t) = table_register (boundary_raw requester) c t;
                 t = t\<lparr>accepted := bt_insert rid (boundary_raw requester, rh) (accepted t)\<rparr> in
             bindE (put_table t) (\<lambda>_. ret th))) s"
  proof (cases res)
    case None
    then show ?thesis using s(1) acc by (simp add: at_throw)
  next
    case (Some cr)
    obtain ch requester where cr: "res = Some (ch, requester)" using Some by (cases cr) auto
    have old: "bt_get (pending (table_registry t)) i = Some p \<Longrightarrow> buffer_capacity (pr_terms p) \<noteq> 0" for i p
      using s by (auto simp: kernel_inv_def table_wf_def)
    have new: "chan_wf ch" "\<And>i p. bt_get (pending reg) i = Some p \<Longrightarrow> buffer_capacity (pr_terms p) \<noteq> 0"
      using acc cr old
      by (auto simp: registry_accept_def registry_create_def btree_simps channel_new_wf split: option.splits if_splits)
    let ?c = "length (channel_cells s)"
    let ?t = "snd (table_register (boundary_raw b) ?c (t\<lparr>table_registry := reg\<rparr>))"
    let ?u = "table_register (boundary_raw requester) ?c ?t"
    have "table_wf (snd ?u) (channel_cells s @ [ch])"
      using table_wf_alloc(2) [OF s] new(2) by (intro table_register_wf table_registry_wf) auto
    then have "kernel_inv D valid nv (s\<lparr>channel_cells := channel_cells s @ [ch],
        channel_table := Some (snd ?u\<lparr>accepted := bt_insert rid (boundary_raw requester, fst ?u) (accepted (snd ?u))\<rparr>)\<rparr>)"
      by (intro kernel_inv_new_cell [OF s(1) new(1)]) simp
    then show ?thesis
      unfolding acc cr Let_def case_prod_beta fst_conv snd_conv option.case
      by (intro at_cell_new at_put_table at_ret) simp
  qed
qed
lemma at_gates:
  assumes "kernel_inv D valid nv s" "channel_table s = Some t" "gate_inv (gs, channel_cells s)"
  shows "kernel_inv D valid nv (s\<lparr>channel_table := Some (t\<lparr>gates := gs\<rparr>)\<rparr>)"
  using assms by (intro kernel_inv_table table_gates_wf) (simp_all add: kernel_inv_def)

lemma table_gate_inv: "kernel_inv D valid nv s \<Longrightarrow> channel_table s = Some t \<Longrightarrow> gate_inv (gates t, channel_cells s)"
  by (simp add: kernel_inv_def table_wf_def)

lemma gate_simple_ops_run:
  "runs (kernel_inv D valid nv) (\<lambda>_. True) (kernel_gate_bind b g)"
  "runs (kernel_inv D valid nv) (\<lambda>_. True) (kernel_warden_set b g allow)"
  "runs (kernel_inv D valid nv) (\<lambda>_. True) (kernel_gate_probe b g)"
proof -
  have "gate_inv (snd (gate_bind b g r), h)" if "gate_inv (r, h)" for r h
    using gate_inv_ops(1) [OF that] by (metis prod.collapse)
  then show "runs (kernel_inv D valid nv) (\<lambda>_. True) (kernel_gate_bind b g)"
    unfolding kernel_gate_bind_def Let_def case_prod_beta
    by (intro runsI at_rules at_gates table_gate_inv) (auto intro: table_gate_inv)
  have "gate_inv (warden_allow g r, h)" "gate_inv (warden_deny g r, h)" if "gate_inv (r, h)" for r h
    using that by (simp_all add: gate_inv_def warden_deny_def warden_allow_def gate_queue_simps btree_simps)
  then show "runs (kernel_inv D valid nv) (\<lambda>_. True) (kernel_warden_set b g allow)"
    unfolding kernel_warden_set_def
    by (intro runsI at_get_table) (auto simp: run_at_def put_table_def ret_def table_gate_inv intro!: at_gates)
  show "runs (kernel_inv D valid nv) (\<lambda>_. True) (kernel_gate_probe b g)"
    unfolding kernel_gate_probe_def by (intro runsI at_rules)
qed

lemma gate_accept_runs: "runs (kernel_inv D valid nv) (\<lambda>_. True) (kernel_gate_accept b g)"
  unfolding kernel_gate_accept_def
proof (rule runsI, rule at_get_table)
  fix s :: "('a, 'b, 'c) kernel_state" and t
  assume s: "kernel_inv D valid nv s" "channel_table s = Some t"
  note inv = table_gate_inv [OF s]
  obtain res gs where acc: "gate_accept b g (gates t) = (res, gs)" by (rule prod.exhaust)
  have wf: "table_wf (t\<lparr>gates := gs\<rparr>) (channel_cells s)"
    using s gate_inv_ops(3) [OF inv acc] by (intro table_gates_wf) (simp_all add: kernel_inv_def)
  have cell: "c < length (channel_cells s)" if "res = Inr (c, peer)" for c peer
  proof -
    have "(peer, c) \<in> set (gate_queue (gates t) g)"
      using acc that by (auto simp: gate_accept_def gate_queue_def split: option.splits if_splits list.splits)
    then show ?thesis using inv by (auto simp: gate_inv_def)
  qed
  have reg: "table_wf (snd (table_register (boundary_raw b) (fst cp) (t\<lparr>gates := gs\<rparr>))) (channel_cells s)" if "res = Inr cp" for cp
    using table_register_wf [OF wf cell] that by (cases cp) simp
  show "run_at (kernel_inv D valid nv) (let (r, gs) = gate_accept b g (gates t); t = t\<lparr>gates := gs\<rparr> in
       case r of
         Inl e \<Rightarrow>
           bindE (put_table t) (\<lambda>_.
             if e = GateWouldBlock then throw WouldBlock else if e = NotOwner then throw NotPermitted else throw NotFound)
       | Inr (c, _) \<Rightarrow> let (h, t) = table_register (boundary_raw b) c t in bindE (put_table t) (\<lambda>_. ret h)) s"
    unfolding acc Let_def case_prod_beta fst_conv snd_conv
    by (intro at_rules kernel_inv_table s(1) wf reg)
qed

lemma gate_connect_runs:
  assumes hs: "stores_what_fits (bounded_string P)"
  shows "runs (kernel_inv D valid nv) (\<lambda>_. True) (kernel_gate_connect P b g)"
  unfolding kernel_gate_connect_def
proof (rule runsI, rule at_get_table)
  fix s :: "('a, 'b, 'c) kernel_state" and t
  assume s: "kernel_inv D valid nv s" "channel_table s = Some t"
  let ?cid = "ChannelId (next_channel_id t)" and ?n = "next_channel_id t + 1"
  note inv = table_gate_inv [OF s]
  have cap: "link_capacity (gates t) \<noteq> 0" using inv by (simp add: gate_inv_def)
  show "run_at (kernel_inv D valid nv) (\<lambda>s.
       let cid = ChannelId (next_channel_id t);
           (r, gs, cells) = gate_connect (bounded_string P) b g cid (gates t, channel_cells s);
           t = t\<lparr>next_channel_id := next_channel_id t + 1, gates := gs\<rparr>;
           s = s\<lparr>channel_cells := cells\<rparr> in
       (case r of
          Inl e \<Rightarrow>
            bindE (put_table t) (\<lambda>_.
              if e = Blocked then throw NotPermitted else if e = Refused then throw NotFound else throw InvalidArgument)
        | Inr c \<Rightarrow> let (h, t) = table_register (boundary_raw b) c t in bindE (put_table t) (\<lambda>_. ret h)) s) s"
  proof (cases "is_allowed g (gates t) \<and> bt_get (bound (gates t)) g \<noteq> None")
    case False
    then have "fst (snd (gate_connect (bounded_string P) b g ?cid (gates t, channel_cells s))) = gates t"
      "snd (snd (gate_connect (bounded_string P) b g ?cid (gates t, channel_cells s))) = channel_cells s"
      "\<exists>e. fst (gate_connect (bounded_string P) b g ?cid (gates t, channel_cells s)) = Inl e"
      by (auto simp: gate_connect_outcome [OF hs cap] split: option.split)
    then obtain e where e: "gate_connect (bounded_string P) b g ?cid (gates t, channel_cells s) = (Inl e, gates t, channel_cells s)"
      by (metis prod.collapse)
    have "kernel_inv D valid nv (s\<lparr>channel_table := Some (t\<lparr>next_channel_id := ?n\<rparr>)\<rparr>)"
      using s by (intro kernel_inv_table) (simp_all add: kernel_inv_def)
    then show ?thesis
      unfolding run_at_def Let_def e case_prod_conv
      by (simp add: bindE_def put_table_def ret_def throw_def)
  next
    case True
    then obtain bg where bg: "bt_get (bound (gates t)) g = Some bg" by auto
    define ch gs where "ch = channel_new ?cid \<lparr>purpose = str_bytes ''lattice-link'', direction = Bidirectional,
        max_message_bytes = link_max_message (gates t), buffer_capacity = link_capacity (gates t)\<rparr>"
      and "gs = gates t\<lparr>bound := bt_insert g (bg\<lparr>connects := connects bg @ [\<lparr>pc_from = b, listener_link = length (channel_cells s)\<rparr>]\<rparr>) (bound (gates t))\<rparr>"
    have e: "gate_connect (bounded_string P) b g ?cid (gates t, channel_cells s) = (Inr (length (channel_cells s)), gs, channel_cells s @ [ch])"
      using True bg by (simp add: gate_connect_outcome [OF hs cap] ch_def gs_def)
    let ?t = "table_register (boundary_raw b) (length (channel_cells s)) (t\<lparr>next_channel_id := ?n, gates := gs\<rparr>)"
    have "gate_inv (gs, channel_cells s @ [ch])" unfolding gs_def by (rule gate_inv_connect [OF inv bg])
    moreover have "chan_wf ch" unfolding ch_def by (rule channel_new_wf) (simp add: cap)
    ultimately have "kernel_inv D valid nv (s\<lparr>channel_cells := channel_cells s @ [ch], channel_table := Some (snd ?t)\<rparr>)"
      using table_wf_alloc(2) [OF s, of ch]
      by (intro kernel_inv_new_cell [OF s(1)] table_register_wf table_gates_wf) simp_all
    then show ?thesis
      unfolding run_at_def Let_def e case_prod_beta fst_conv snd_conv
      by (simp add: bindE_def put_table_def ret_def)
  qed
qed
lemma at_root_fs:
  assumes "kernel_inv D valid nv s" "\<And>f. fs_wf D valid f \<Longrightarrow> \<exists>r f'. m f = Some (r, f') \<and> fs_wf D valid f'"
    "\<And>r s'. kernel_inv D valid nv s' \<Longrightarrow> run_at (kernel_inv D valid nv) (k r) s'"
  shows "run_at (kernel_inv D valid nv) (bindE (on_root_fs m) k) s"
proof (cases "root_fs s")
  case None
  then show ?thesis using assms(1) by (simp add: run_at_def bindE_def on_root_fs_def throw_def)
next
  case (Some f)
  then have "fs_wf D valid f" using assms(1) by (simp add: kernel_inv_def)
  from assms(2) [OF this] obtain r f' where m: "m f = Some (r, f')" "fs_wf D valid f'" by blast
  then have "kernel_inv D valid nv (s\<lparr>root_fs := Some f'\<rparr>)" using assms(1) by (simp add: kernel_inv_def)
  from assms(3) [OF this] show ?thesis using m Some by (simp add: run_at_def bindE_def on_root_fs_def)
qed

lemma file_calls_return:
  assumes "block_device D valid" "fs_wf D valid f"
  shows "\<exists>r f'. read_file D path f = Some (r, f') \<and> fs_wf D valid f'"
    "\<exists>r f'. write_file D path bytes f = Some (r, f') \<and> fs_wf D valid f'"
    "\<exists>r f'. mkdir D path f = Some (r, f') \<and> fs_wf D valid f'"
    "\<exists>r f'. fs_exists D path f = Some (r, f') \<and> fs_wf D valid f'"
    "\<exists>r f'. list_dir D path f = Some (r, f') \<and> fs_wf D valid f'"
    "\<exists>r f'. remove_file D path f = Some (r, f') \<and> fs_wf D valid f'"
  using block_device.read_file_run [OF assms] block_device.write_file_run [OF assms] block_device.mkdir_run [OF assms]
    block_device.exists_run [OF assms] block_device.list_dir_run [OF assms] block_device.remove_file_run [OF assms] assms(2)
  by blast+

lemma file_ops_run:
  assumes "block_device (disk P) valid"
  shows "runs (kernel_inv (disk P) valid nv) (\<lambda>_. True) (kernel_fs_read P path)"
    "runs (kernel_inv (disk P) valid nv) (\<lambda>_. True) (kernel_fs_write P path bytes)"
    "runs (kernel_inv (disk P) valid nv) (\<lambda>_. True) (kernel_fs_mkdir P path)"
    "runs (kernel_inv (disk P) valid nv) (\<lambda>_. True) (kernel_fs_exists P path)"
    "runs (kernel_inv (disk P) valid nv) (\<lambda>_. True) (kernel_fs_list P path)"
    "runs (kernel_inv (disk P) valid nv) (\<lambda>_. True) (kernel_fs_delete P path)"
  unfolding kernel_fs_read_def kernel_fs_write_def kernel_fs_mkdir_def kernel_fs_exists_def kernel_fs_list_def
    kernel_fs_delete_def map_fs_err_def
  by (intro runsI at_root_fs file_calls_return [OF assms] at_rules; assumption)+

lemma memory_ops_run:
  "runs (kernel_inv D valid nv) (\<lambda>_. True) (kernel_copy_from_user b p n out)"
  "runs (kernel_inv D valid nv) (\<lambda>_. True) (kernel_copy_to_user b p bytes)"
  "runs (kernel_inv D valid nv) (\<lambda>_. True) (kernel_fill_random P out)"
  "runs (kernel_inv D valid nv) (\<lambda>_. True) (kernel_sleep_nanos ns)"
  "runs (kernel_inv D valid nv) (\<lambda>_. True) (kernel_spawn b e a)"
proof -
  show "runs (kernel_inv D valid nv) (\<lambda>_. True) (kernel_sleep_nanos ns)"
    by (rule runsI) (use kernel_sleep_returns in \<open>fastforce simp: run_at_def\<close>)
qed (rule runsI, simp add: run_at_def kernel_copy_from_user_def kernel_copy_to_user_def kernel_fill_random_def
    kernel_spawn_def throw_def ret_def case_prod_beta Let_def split: option.split)+

text \<open>Keys: a blocking read returns once a scancode that completes a key arrives.\<close>

definition keys_arrive :: "(keyboard \<Rightarrow> u8 list) \<Rightarrow> bool" where
  "keys_arrive codes \<longleftrightarrow> (\<forall>kb. kq_wf (kb_queue kb) \<longrightarrow> wait_for_key (codes kb) kb \<noteq> None)"

lemma keyboard_irq_wf: "kq_wf (kb_queue kb) \<Longrightarrow> kq_wf (kb_queue (keyboard_irq c kb))"
  using kq_push_events by (simp add: keyboard_irq_def case_prod_beta Let_def split: option.split)

lemma wait_for_key_wf: "wait_for_key codes kb = Some kb' \<Longrightarrow> kq_wf (kb_queue kb) \<Longrightarrow> kq_wf (kb_queue kb')"
  by (induction codes arbitrary: kb) (auto simp: keyboard_irq_wf simp del: wait_for_key.simps simp: wait_for_key.simps [of "_ # _"] wait_for_key.simps [of "[]"] split: if_splits)

lemma encode_event_success: "success_value (encode_event ev)"
  unfolding success_value_def encode_event_def by (rule encode_key_fields(7))

lemma read_key_runs:
  assumes "keys_arrive (scancodes P)" "kernel_inv D valid nv s"
  shows "\<exists>k s'. kernel_read_key P blocking s = Some (k, s') \<and> kernel_inv D valid nv s' \<and> (success_value k \<or> error_value k)"
proof -
  have kb: "kq_wf (kb_queue (kernel_keyboard s))" using assms(2) by (simp add: kernel_inv_def)
  have inv: "kernel_inv D valid nv (s\<lparr>kernel_keyboard := kb'\<rparr>)" if "kq_wf (kb_queue kb')" for kb'
    using assms(2) that by (simp add: kernel_inv_def)
  have pop: "kq_wf (kb_queue (snd (poll_key kb')))" if "kq_wf (kb_queue kb')" for kb'
    using kq_pop_events [OF that] by (simp add: poll_key_def case_prod_beta Let_def)
  let ?kb = "snd (poll_key (kernel_keyboard s))"
  obtain kb' where w: "wait_for_key (scancodes P ?kb) ?kb = Some kb'"
    using assms(1) pop [OF kb] by (auto simp: keys_arrive_def)
  have "kq_wf (kb_queue kb')" by (rule wait_for_key_wf [OF w pop [OF kb]])
  then show ?thesis
    using pop [OF kb] pop [of kb'] w encode_event_success
    by (auto simp: kernel_read_key_def case_prod_beta Let_def error_value_def intro!: inv split: option.split)
qed
lemmas kernel_methods_run = message_ops_run link_ops_run open_channel_runs request_channel_runs poll_request_runs
  reject_channel_runs poll_outcome_runs accept_channel_runs gate_simple_ops_run gate_accept_runs gate_connect_runs
  file_ops_run memory_ops_run

section \<open>The kernel serves the dispatcher\<close>

text \<open>
  What the kernel relies on: a block device that stores what is written to it, a network device
  whose frames fit the buffers they are received into, a bounded string that holds what fits, and
  somebody at the keyboard.
\<close>

locale booted_kernel =
  fixes P :: "('d, 'k, 'n) platform" and valid :: "'d \<Rightarrow> bool" and nv :: "'n \<Rightarrow> bool"
  assumes device: "block_device (disk P) valid"
    and network: "net_device (net_device_of P) nv"
    and strings: "stores_what_fits (bounded_string P)"
    and typing: "keys_arrive (scancodes P)"

sublocale booted_kernel \<subseteq> calls: syscall_environment "kernel_env P" "kernel_inv (disk P) valid nv"
  by unfold_locales
    (simp_all add: kernel_env_def kernel_methods_run [where valid = valid and nv = nv] device network strings typing read_key_runs
      kernel_console_write_def)

context booted_kernel
begin

lemma serves_dispatcher: "syscall_environment (kernel_env P) (kernel_inv (disk P) valid nv)"
  by (rule calls.syscall_environment_axioms)

end

text \<open>
  A platform without hardware: a RAM disk, the kernel's own scheduler, the loopback interface. The
  identity stands in for the hash, and a letter key is pressed twice whenever the CPU waits.
\<close>

definition sim_platform :: "(ram_disk, scheduler, loopback_nic) platform" where
  "sim_platform =
     \<lparr>disk = ram_dev, kernel_kif = scheduler_kif, sha256 = (\<lambda>x. x),
      bounded_string = (\<lambda>n s. if length s \<le> n then Some s else None),
      net_device_of = loopback_dev, scancodes = (\<lambda>_. [0x1E, 0x1E])\<rparr>"

lemma sim_keys: "keys_arrive (\<lambda>_. [0x1E, 0x1E])"
proof -
  have push: "has_key (keyboard_irq 0x1E kb)" if "kq_wf (kb_queue kb)" "\<not> sd_extended (kb_decoder kb)" for kb
    using that by (auto simp: has_key_def kq_is_empty_def keyboard_irq_def decoder_push_def EXTENDED_PREFIX_def BREAK_MASK_def
        SC_CTRL_def SC_ALT_def SC_LSHIFT_def SC_RSHIFT_def decode_main_def PRINTABLE_def kq_push_def Let_def kq_wf_def)
  have clear: "\<not> sd_extended (kb_decoder (keyboard_irq 0x1E kb))" for kb
    by (simp add: keyboard_irq_def decoder_push_def EXTENDED_PREFIX_def BREAK_MASK_def SC_CTRL_def SC_ALT_def SC_LSHIFT_def
        SC_RSHIFT_def Let_def split: option.split)
  show ?thesis
    using push [OF keyboard_irq_wf clear] by (simp add: keys_arrive_def)
qed

interpretation sim: booted_kernel sim_platform ram_valid loopback_valid
  by (rule booted_kernel.intro) (simp_all add: sim_platform_def ram.block_device_axioms loopback.net_device_axioms stores_what_fits_def sim_keys)
section \<open>Files through system calls\<close>

text \<open>What a process has in its memory, and the ranges a copy accepts.\<close>

definition user_bytes :: "(u64 \<Rightarrow> u8) \<Rightarrow> u64 \<Rightarrow> nat \<Rightarrow> u8 list" where
  "user_bytes m p n = map (\<lambda>i. m (p + of_nat i)) [0 ..< n]"

definition user_range :: "u64 \<Rightarrow> nat \<Rightarrow> bool" where
  "user_range p n \<longleftrightarrow> p \<noteq> 0 \<and> checked_add p (of_nat n) \<noteq> None"

definition user_args :: "(u64 \<Rightarrow> u8) \<Rightarrow> u64 \<Rightarrow> fs_rw_args" where
  "user_args m p = fs_rw_args_from_bytes (user_bytes m p FS_RW_ARGS_LEN)"

definition file_call :: "syscall \<Rightarrow> u64 \<Rightarrow> boundary_id \<Rightarrow> syscall_request" where
  "file_call call p b = \<lparr>number = syscall_number call, arg0 = p, arg1 = 0, arg2 = 0, caller = b\<rparr>"

lemma length_user_bytes [simp]: "length (user_bytes m p n) = n"
  by (simp add: user_bytes_def)

lemma copy_in:
  "length out \<le> n \<Longrightarrow> copy_from_user (kernel_env P) b p n out s =
     (if p = 0 then Some (Inl BadAddress, s)
      else if user_range p n then Some (Inr (user_bytes (user_memory s) p n), s)
      else Some (Inl InvalidArgument, s))"
  by (simp add: kernel_env_def kernel_copy_from_user_def user_range_def user_bytes_def throw_def ret_def)

lemma copy_out:
  "user_range p (length bytes) \<Longrightarrow> copy_to_user (kernel_env P) b p bytes s =
     Some (Inr (), s\<lparr>user_memory := poke_bytes p bytes (user_memory s)\<rparr>)"
  by (auto simp: kernel_env_def kernel_copy_to_user_def user_range_def ret_def)

lemma poke_bytes_at:
  assumes "length bs < 2 ^ 64" "i < 2 ^ 64"
  shows "poke_bytes p bs m (p + of_nat i) = (if i < length bs then bs ! i else m (p + of_nat i))"
  using assms
proof (induction bs arbitrary: p m i)
  case (Cons b bs)
  define m' where "m' = m(p := b)"
  have step: "poke_bytes p (b # bs) m = poke_bytes (p + 1) bs m'" by (simp add: m'_def)
  show ?case
  proof (cases i)
    case 0
    have "(1 :: u64) + of_nat (2 ^ 64 - 1) = of_nat (2 ^ LENGTH(64))" by (simp flip: of_nat_Suc)
    then have last: "p + 1 + of_nat (2 ^ 64 - 1) = p" by (simp only: word_exp_length_eq_0 of_nat_power of_nat_numeral add.assoc add_0_right)
    have "poke_bytes (p + 1) bs m' p = m' p"
      using Cons.IH [of "2 ^ 64 - 1" "p + 1" m'] Cons.prems unfolding last by simp
    then show ?thesis unfolding step using 0 by (simp add: m'_def)
  next
    case (Suc j)
    have "(of_nat i :: u64) \<noteq> 0" using unat_of_nat_u64 [of i] Cons.prems(2) Suc by (metis nat.distinct(1) unat_0)
    then have "m' (p + of_nat i) = m (p + of_nat i)" by (simp add: m'_def)
    moreover have "p + of_nat i = (p + 1) + of_nat j" using Suc by (simp add: algebra_simps)
    ultimately show ?thesis unfolding step using Cons.IH [of j "p + 1" m'] Cons.prems Suc by (simp add: add.assoc del: of_nat_Suc)
  qed
qed simp

lemma user_bytes_poke: "length bs < 2 ^ 64 \<Longrightarrow> user_bytes (poke_bytes p bs m) p (length bs) = bs"
  by (rule nth_equalityI) (simp_all add: user_bytes_def poke_bytes_at)
lemma kernel_env_files: "env_fs_read (kernel_env P) = kernel_fs_read P" "env_fs_write (kernel_env P) = kernel_fs_write P"
  by (simp_all add: kernel_env_def)

lemma bindE_Inr:
  "bindE m f s = Some (Inr y, s') \<longleftrightarrow> (\<exists>x s1. m s = Some (Inr x, s1) \<and> f x s1 = Some (Inr y, s'))"
  by (auto simp: bindE_def split: option.split sum.split prod.split)

lemma read_rw_args_in: "read_rw_args b p (kernel_env P) s =
    (if p = 0 then Some (Inl BadAddress, s)
     else if user_range p FS_RW_ARGS_LEN then Some (Inr (user_args (user_memory s) p), s)
     else Some (Inl InvalidArgument, s))"
  by (simp add: read_rw_args_def bindE_def copy_in user_args_def ret_def)

lemma read_path_in:
  assumes "serves_calls heap" "0 < n" "n \<le> MAX_PATH_LEN" "user_range p n"
  shows "read_path heap b p n (kernel_env P) s = Some (Inr (user_bytes (user_memory s) p n), s)"
proof -
  have "vec_zeroed heap n s = Some (Inr (replicate n 0), s)"
    using assms(1,3) by (simp add: vec_zeroed_def ret_def serves_calls_def MAX_PATH_LEN_def MAX_FS_IO_LEN_def)
  then show ?thesis using assms(2-4) by (simp add: read_path_def bindE_def copy_in user_range_def)
qed

lemma read_path_Inr:
  "read_path heap b p n (kernel_env P) s = Some (Inr path, s') \<Longrightarrow>
   0 < n \<and> n \<le> MAX_PATH_LEN \<and> user_range p n \<and> path = user_bytes (user_memory s) p n \<and> s' = s"
  by (auto simp: read_path_def bindE_Inr copy_in vec_zeroed_def throw_def ret_def split: if_splits)

text \<open>A write that reports success has stored the bytes of its buffer under its path.\<close>

lemma fs_write_stores:
  assumes "block_device (disk P) valid" "kernel_inv (disk P) valid nv s"
    and call: "fs_write heap (kernel_env P) (file_call FsWrite p b) s = Some (Inr v, s1)"
  defines "w \<equiv> user_args (user_memory s) p"
  defines "path \<equiv> user_bytes (user_memory s) (path_ptr w) (unat (path_len w))"
    and "bytes \<equiv> user_bytes (user_memory s) (buf_ptr w) (unat (buf_len w))"
  shows "0 < unat (path_len w)" "unat (path_len w) \<le> MAX_PATH_LEN" "unat (buf_len w) \<le> MAX_FS_IO_LEN"
    "v = buf_len w"
    "\<exists>f. s1 = s\<lparr>root_fs := Some f\<rparr> \<and> fs_wf (disk P) valid f \<and> meaning (disk P) f (components path) = Inr bytes"
proof -
  from call obtain data s2 where parts: "unat (buf_len w) \<le> MAX_FS_IO_LEN" "0 < unat (path_len w)" "unat (path_len w) \<le> MAX_PATH_LEN"
      "v = buf_len w" and d: "data = bytes" and wr: "kernel_fs_write P path data s = Some (Inr (), s1)"
    by (auto simp: fs_write_def bindE_Inr read_rw_args_in file_call_def Let_def throw_def ret_def vec_zeroed_def copy_in
        path_def bytes_def w_def kernel_env_files user_bytes_def split: if_splits dest!: read_path_Inr)
  show "0 < unat (path_len w)" "unat (path_len w) \<le> MAX_PATH_LEN" "unat (buf_len w) \<le> MAX_FS_IO_LEN" "v = buf_len w"
    by (fact parts)+
  from wr obtain f f' i where f: "root_fs s = Some f" "write_file (disk P) path bytes f = Some (Inr i, f')" "s1 = s\<lparr>root_fs := Some f'\<rparr>"
    unfolding d kernel_fs_write_def bindE_Inr on_root_fs_def map_fs_err_def
    by (elim exE conjE) (auto simp: throw_def ret_def split: option.splits sum.split_asm)
  then have wf: "fs_wf (disk P) valid f" using assms(2) by (simp add: kernel_inv_def)
  show "\<exists>f. s1 = s\<lparr>root_fs := Some f\<rparr> \<and> fs_wf (disk P) valid f \<and> meaning (disk P) f (components path) = Inr bytes"
    using block_device.write_file_run [OF assms(1) wf, of path bytes] f by auto
qed
lemma fs_read_returns:
  fixes s :: "('d, 'k, 'n) kernel_state" and p :: u64
  assumes "block_device (disk P) valid" "serves_calls heap" "root_fs s = Some f" "fs_wf (disk P) valid f"
  defines "r \<equiv> user_args (user_memory s) p"
  defines "path \<equiv> user_bytes (user_memory s) (path_ptr r) (unat (path_len r))"
  assumes "meaning (disk P) f (components path) = Inr bytes" "user_range p FS_RW_ARGS_LEN"
    "0 < unat (path_len r)" "unat (path_len r) \<le> MAX_PATH_LEN" "user_range (path_ptr r) (unat (path_len r))"
    "length bytes \<le> unat (buf_len r)" "unat (buf_len r) \<le> MAX_FS_IO_LEN" "user_range (buf_ptr r) (length bytes)"
  shows "fs_read heap (kernel_env P) (file_call FsRead p b) s =
    Some (Inr (of_nat (length bytes)), s\<lparr>user_memory := poke_bytes (buf_ptr r) bytes (user_memory s)\<rparr>)"
proof -
  have args: "read_rw_args b p (kernel_env P) s = Some (Inr r, s)"
    using assms(8) by (simp add: read_rw_args_in r_def user_range_def)
  have "read_path heap b (path_ptr r) (unat (path_len r)) (kernel_env P) s = Some (Inr path, s)"
    unfolding path_def by (rule read_path_in) (use assms in simp_all)
  moreover have "kernel_fs_read P path s = Some (Inr (Some bytes), s)"
    using block_device.read_meaning [OF assms(1,4), of path] assms(3,7)
    by (simp add: kernel_fs_read_def bindE_def on_root_fs_def ret_def)
  ultimately show ?thesis
    using assms(12-14) unfolding fs_read_def bindE_def file_call_def
    by (simp add: args kernel_env_files copy_out ret_def)
qed

lemma dispatch_file_call:
  "dispatch heap hs env (file_call FsWrite p b) = reply (fs_write heap env (file_call FsWrite p b))"
  "dispatch heap hs env (file_call FsRead p b) = reply (fs_read heap env (file_call FsRead p b))"
proof -
  have "syscall_from_number (number (file_call call p b)) = Some call" for call
    unfolding syscall_number_iff by (simp add: file_call_def)
  then show "dispatch heap hs env (file_call FsWrite p b) = reply (fs_write heap env (file_call FsWrite p b))"
    "dispatch heap hs env (file_call FsRead p b) = reply (fs_read heap env (file_call FsRead p b))"
    unfolding dispatch_def by simp_all
qed

lemma reply_success: "reply m s = Some (OutReturn v, s1) \<Longrightarrow> 0 \<le> sint v \<Longrightarrow> m s = Some (Inr v, s1)"
  unfolding reply_def using as_return_negative by (fastforce simp: not_less [symmetric] split: sum.splits)

text \<open>
  C34. A file written with a system call is read back with a system call: when a write reports
  success, it reports the length of the caller's buffer, and whatever the processes do to their
  memory in between, a later read of the same path with enough room returns that length and leaves
  exactly the bytes of the writer's buffer in the reader's.
\<close>

theorem file_call_roundtrip:
  fixes s :: "('d, 'k, 'n) kernel_state" and m :: "u64 \<Rightarrow> u8" and wp rp :: u64
  assumes kernel: "booted_kernel P valid nv" "serves_calls heap" "kernel_inv (disk P) valid nv s"
    and written: "dispatch heap hs (kernel_env P) (file_call FsWrite wp b) s = Some (OutReturn v, s1)" "0 \<le> sint v"
  defines "w \<equiv> user_args (user_memory s) wp" and "r \<equiv> user_args m rp"
  assumes path: "user_bytes m (path_ptr r) (unat (path_len r)) = user_bytes (user_memory s) (path_ptr w) (unat (path_len w))"
    and ranges: "user_range rp FS_RW_ARGS_LEN" "user_range (path_ptr r) (unat (path_len r))" "user_range (buf_ptr r) (unat (buf_len w))"
    and room: "buf_len w \<le> buf_len r" "unat (buf_len r) \<le> MAX_FS_IO_LEN"
  shows "v = buf_len w \<and>
    (\<exists>s2. dispatch heap hs (kernel_env P) (file_call FsRead rp b') (s1\<lparr>user_memory := m\<rparr>) = Some (OutReturn v, s2) \<and>
      user_bytes (user_memory s2) (buf_ptr r) (unat v) = user_bytes (user_memory s) (buf_ptr w) (unat v))"
proof -
  have dev: "block_device (disk P) valid" using kernel(1) by (simp add: booted_kernel_def)
  have call: "fs_write heap (kernel_env P) (file_call FsWrite wp b) s = Some (Inr v, s1)"
    using written unfolding dispatch_file_call by (rule reply_success)
  note stored = fs_write_stores [OF dev kernel(3) call, folded w_def]
  obtain f where f: "s1 = s\<lparr>root_fs := Some f\<rparr>" "fs_wf (disk P) valid f"
      "meaning (disk P) f (components (user_bytes m (path_ptr r) (unat (path_len r)))) =
         Inr (user_bytes (user_memory s) (buf_ptr w) (unat (buf_len w)))"
    using stored(5) unfolding path [symmetric] by blast
  have "length (user_bytes m (path_ptr r) (unat (path_len r))) = unat (path_len w)" unfolding path by simp
  then have len: "unat (path_len r) = unat (path_len w)" by simp
  let ?bytes = "user_bytes (user_memory s) (buf_ptr w) (unat (buf_len w))"
  have "fs_read heap (kernel_env P) (file_call FsRead rp b') (s1\<lparr>user_memory := m\<rparr>) =
      Some (Inr v, s1\<lparr>user_memory := poke_bytes (buf_ptr r) ?bytes m\<rparr>)"
    using fs_read_returns [OF dev kernel(2), of "s1\<lparr>user_memory := m\<rparr>" f rp ?bytes b'] f stored(1-4) ranges room len
    by (simp add: r_def word_le_nat_alt)
  then show ?thesis
    unfolding dispatch_file_call using stored(4) user_bytes_poke [of ?bytes "buf_ptr r" m] unat_u64_less [of v]
    by (simp add: reply_def)
qed
text \<open>A machine just booted, with \<open>mem\<close> as the memory of its process.\<close>

definition sim_state :: "(u64 \<Rightarrow> u8) \<Rightarrow> ram_disk fs option \<Rightarrow> (ram_disk, scheduler, loopback_nic) kernel_state" where
  "sim_state mem f = install_channel_table
     \<lparr>user_memory = mem, console_out = [], timer_ticks = 0, root_fs = f, kernel_rng = None, channel_table = None,
      channel_cells = [], sched = demo_sched, active_lane = LaneId 1, kernel_keyboard = keyboard_new, nic = demo_host\<rparr>"

lemma sim_state_inv: "(\<And>v. f = Some v \<Longrightarrow> fs_wf ram_dev ram_valid v) \<Longrightarrow> kernel_inv ram_dev ram_valid loopback_valid (sim_state mem f)"
  by (simp add: kernel_inv_def sim_state_def install_channel_table_def table_wf_def channel_handle_table_new_def registry_new_def
      gate_inv_def gate_registry_new_def gate_queue_def bt_get_def bt_wf_def keyboard_new_def key_queue_new_wf QUEUE_CAP_def
      net_ok_def demo_host_def loopback_valid_def arp_insert_wf cache_new_wf)

lemma user_bytes_within:
  assumes "k + n \<le> length bs" "length bs < 2 ^ 64"
  shows "user_bytes (poke_bytes p bs m) (p + of_nat k) n = take n (drop k bs)"
proof (rule nth_equalityI)
  fix i
  assume i: "i < length (user_bytes (poke_bytes p bs m) (p + of_nat k) n)"
  have "poke_bytes p bs m (p + of_nat (k + i)) = bs ! (k + i)" using poke_bytes_at [of bs "k + i" p m] assms i by simp
  then show "user_bytes (poke_bytes p bs m) (p + of_nat k) n ! i = take n (drop k bs) ! i"
    using assms i by (simp add: user_bytes_def add.assoc)
qed (use assms in simp)

text \<open>The arguments of a write and of a read of \<open>/a\<close>, at address \<open>0x1000\<close>.\<close>

definition demo_memory :: "u64 \<Rightarrow> u8" where
  "demo_memory = poke_bytes 0x1000
     (fs_rw_args_to_bytes \<lparr>path_ptr = 0x1040, path_len = 2, buf_ptr = 0x1042, buf_len = 3\<rparr> @
      fs_rw_args_to_bytes \<lparr>path_ptr = 0x1040, path_len = 2, buf_ptr = 0x2000, buf_len = 16\<rparr> @
      [0x2F, 0x61, 1, 2, 3]) (\<lambda>_. 0)"

lemma demo_memory_holds:
  "user_args demo_memory 0x1000 = \<lparr>path_ptr = 0x1040, path_len = 2, buf_ptr = 0x1042, buf_len = 3\<rparr>"
  "user_args demo_memory 0x1020 = \<lparr>path_ptr = 0x1040, path_len = 2, buf_ptr = 0x2000, buf_len = 16\<rparr>"
  "user_bytes demo_memory 0x1040 2 = [0x2F, 0x61]" "user_bytes demo_memory 0x1042 3 = [1, 2, 3]"
proof -
  let ?w = "\<lparr>path_ptr = 0x1040, path_len = 2, buf_ptr = 0x1042, buf_len = 3\<rparr> :: fs_rw_args"
  let ?r = "\<lparr>path_ptr = 0x1040, path_len = 2, buf_ptr = 0x2000, buf_len = 16\<rparr> :: fs_rw_args"
  let ?bs = "fs_rw_args_to_bytes ?w @ fs_rw_args_to_bytes ?r @ [0x2F, 0x61, 1, 2, 3]"
  have len: "length (fs_rw_args_to_bytes a) = 32" for a by (simp add: fs_rw_args_to_bytes_def)
  have at: "user_bytes demo_memory (0x1000 + of_nat k) n = take n (drop k ?bs)" if "k + n \<le> 69" for k n
    unfolding demo_memory_def by (rule user_bytes_within) (use that in \<open>simp_all add: len\<close>)
  show "user_args demo_memory 0x1000 = ?w" "user_args demo_memory 0x1020 = ?r"
    using at [of 0 32] at [of 32 32] by (simp_all add: user_args_def FS_RW_ARGS_LEN_def len fs_rw_args_roundtrip)
  show "user_bytes demo_memory 0x1040 2 = [0x2F, 0x61]" "user_bytes demo_memory 0x1042 3 = [1, 2, 3]"
    using at [of 64 2] at [of 66 3] by (simp_all add: len)
qed

theorem file_call_roundtrip_witness:
  "\<exists>f s1 s2. dispatch (\<lambda>_. True) (bounded_string sim_platform) (kernel_env sim_platform)
       (file_call FsWrite 0x1000 SYSTEM) (sim_state demo_memory (Some f)) = Some (OutReturn 3, s1) \<and>
     dispatch (\<lambda>_. True) (bounded_string sim_platform) (kernel_env sim_platform)
       (file_call FsRead 0x1020 SYSTEM) (s1\<lparr>user_memory := demo_memory\<rparr>) = Some (OutReturn 3, s2) \<and>
     user_bytes (user_memory s2) 0x2000 3 = [1, 2, 3]"
proof -
  let ?P = sim_platform and ?heap = "\<lambda>_. True"
  obtain f where f: "fs_wf ram_dev ram_valid f" "entries ram_dev f ROOT_INODE = []" "kinds ram_dev f ROOT_INODE = KIND_DIR"
      "fresh_inode ram_dev f 1" "free_count ram_dev f = 60"
    using fresh_disk by blast
  have "\<not> write_denied ram_dev f (components [0x2F, 0x61]) (length [1, 2, 3 :: u8]) e" for e
    using fresh_disk_walk [OF f(2,3), of "[0x61]" "[]"] f
    by (auto simp: components_def write_denied_def unreachable_def not_kind_def parent_full_def no_room_def)
  then obtain i f' where w: "write_file ram_dev [0x2F, 0x61] [1, 2, 3] f = Some (Inr i, f')"
    using ram.write_file_run [OF f(1), of "[0x2F, 0x61]" "[1, 2, 3]"] unfolding write_denied_def
    by (elim exE conjE, drule_tac not_refused) blast+
  let ?s = "sim_state demo_memory (Some f)"
  have s: "user_memory ?s = demo_memory" "root_fs ?s = Some f" by (simp_all add: sim_state_def install_channel_table_def)
  have heap: "serves_calls ?heap" by (simp add: serves_calls_def)
  have range: "user_range p n" if "p \<noteq> 0" "unat p + n < 0x10000" for p n
    using that by (simp add: user_range_def checked_add_def unat_of_nat_u64)
  have wr: "dispatch ?heap (bounded_string ?P) (kernel_env ?P) (file_call FsWrite 0x1000 SYSTEM) ?s = Some (OutReturn 3, ?s\<lparr>root_fs := Some f'\<rparr>)"
    unfolding dispatch_file_call fs_write_def
    by (simp add: reply_def file_call_def bindE_def read_rw_args_in s demo_memory_holds range FS_RW_ARGS_LEN_def MAX_FS_IO_LEN_def
        read_path_in [OF heap] MAX_PATH_LEN_def vec_zeroed_def ret_def copy_in kernel_env_files kernel_fs_write_def
        on_root_fs_def sim_platform_def w map_fs_err_def)
  have inv: "kernel_inv (disk ?P) ram_valid loopback_valid ?s" using f(1) sim_state_inv [of "Some f"] by (simp add: sim_platform_def)
  have "\<exists>s2. dispatch ?heap (bounded_string ?P) (kernel_env ?P) (file_call FsRead 0x1020 SYSTEM)
        (?s\<lparr>root_fs := Some f'\<rparr>\<lparr>user_memory := demo_memory\<rparr>) = Some (OutReturn 3, s2) \<and>
      user_bytes (user_memory s2) 0x2000 3 = [1, 2, 3]"
    using file_call_roundtrip [OF sim.booted_kernel_axioms heap inv wr, where m = demo_memory and rp = "0x1020" and b' = SYSTEM]
    by (simp add: s demo_memory_holds range FS_RW_ARGS_LEN_def MAX_FS_IO_LEN_def)
  then show ?thesis using wr by blast
qed
section \<open>Sequences of calls\<close>

fun kernel_calls ::
    "(nat \<Rightarrow> bool) \<Rightarrow> ('d, 'k, 'n) platform \<Rightarrow> syscall_request list \<Rightarrow> ('d, 'k, 'n) kernel_state \<Rightarrow>
     (syscall_outcome list \<times> ('d, 'k, 'n) kernel_state) option" where
  "kernel_calls heap P [] s = Some ([], s)"
| "kernel_calls heap P (req # reqs) s =
     (case dispatch heap (bounded_string P) (kernel_env P) req s of
        None \<Rightarrow> None
      | Some (out, s') \<Rightarrow> map_option (\<lambda>(outs, s''). (out # outs, s'')) (kernel_calls heap P reqs s'))"

lemma kernel_calls_keep:
  assumes "\<And>req s. req \<in> set reqs \<Longrightarrow> J s \<Longrightarrow>
      \<exists>out s'. dispatch heap (bounded_string P) (kernel_env P) req s = Some (out, s') \<and> J s' \<and> Q out" "J s"
  shows "\<exists>outs s'. kernel_calls heap P reqs s = Some (outs, s') \<and> length outs = length reqs \<and> J s' \<and> (\<forall>out \<in> set outs. Q out)"
  using assms
proof (induction reqs arbitrary: s)
  case (Cons req reqs)
  obtain out s' where step: "dispatch heap (bounded_string P) (kernel_env P) req s = Some (out, s')" "J s'" "Q out"
    using Cons.prems(1) [of req s] Cons.prems(2) by auto
  have "\<exists>outs s''. kernel_calls heap P reqs s' = Some (outs, s'') \<and> length outs = length reqs \<and> J s'' \<and> (\<forall>out \<in> set outs. Q out)"
    by (rule Cons.IH [OF Cons.prems(1) step(2)]) auto
  then show ?case using step by auto
qed simp


text \<open>A greeting to the console, a link send to nobody, a call that does not exist.\<close>

definition demo_calls :: "syscall_request list" where
  "demo_calls = [\<lparr>number = 1, arg0 = 0x1040, arg1 = 2, arg2 = 0, caller = SYSTEM\<rparr>,
     \<lparr>number = 26, arg0 = 7, arg1 = 0x1040, arg2 = 5, caller = BoundaryId 3\<rparr>,
     \<lparr>number = 77, arg0 = 0, arg1 = 0, arg2 = 0, caller = BoundaryId 3\<rparr>]"


text \<open>The dispatcher on the kernel's environment: a link send of \<open>2 ^ 40\<close> bytes exhausts a megabyte of heap.\<close>

theorem dispatch_panics_iff_witness:
  "dispatch (\<lambda>n. n \<le> 1048576) (bounded_string sim_platform) (kernel_env sim_platform)
     \<lparr>number = syscall_number LinkSend, arg0 = 0, arg1 = 0x1000, arg2 = 2 ^ 40, caller = SYSTEM\<rparr> (sim_state demo_memory None) = None"
proof -
  have inv: "kernel_inv (disk sim_platform) ram_valid loopback_valid (sim_state demo_memory None)"
    using sim_state_inv [of None] by (simp add: sim_platform_def)
  show ?thesis
    using dispatch_panics_iff [OF sim.calls.syscall_environment_axioms _ inv, of "\<lambda>n. n \<le> 1048576" "bounded_string sim_platform"
        "\<lparr>number = syscall_number LinkSend, arg0 = 0, arg1 = 0x1000, arg2 = 2 ^ 40, caller = SYSTEM\<rparr>"]
    by (simp add: serves_calls_def MAX_FS_IO_LEN_def allocation_fails_def)
qed

end
