(* ===== verification/Kernel_Isolation.thy ===== *)
theory Kernel_Isolation
  imports Kernel_Properties
begin

text \<open>
  Channels between boundaries are private: no system call of a boundary changes a channel the
  boundary cannot get at, and none makes it reachable.
\<close>

section \<open>Reach\<close>

text \<open>
  The channels a boundary can get at: those it has a handle for, and those that wait for it at one
  of its Gates.
\<close>

definition table_knows :: "boundary_id \<Rightarrow> chan_ref \<Rightarrow> channel_handle_table \<Rightarrow> bool" where
  "table_knows b c t \<longleftrightarrow> (\<exists>h. table_resolve (boundary_raw b) h t = Some c) \<or>
     (\<exists>g. gate_owner (gates t) g = Some b \<and> c \<in> snd ` set (gate_queue (gates t) g))"

definition can_reach :: "boundary_id \<Rightarrow> chan_ref \<Rightarrow> ('d, 'k, 'n) kernel_state \<Rightarrow> bool" where
  "can_reach b c s \<longleftrightarrow> (\<exists>t. channel_table s = Some t \<and> table_knows b c t)"

text \<open>The channel is as it was, and out of reach.\<close>

definition aloof :: "boundary_id \<Rightarrow> chan_ref \<Rightarrow> channel \<Rightarrow> ('d, 'k, 'n) kernel_state \<Rightarrow> bool" where
  "aloof b c ch s \<longleftrightarrow> c < length (channel_cells s) \<and> channel_cells s ! c = ch \<and> \<not> can_reach b c s"

lemma aloof_frame [simp]:
  "aloof b c ch (s\<lparr>user_memory := m\<rparr>) = aloof b c ch s" "aloof b c ch (s\<lparr>console_out := co\<rparr>) = aloof b c ch s"
  "aloof b c ch (s\<lparr>timer_ticks := tt\<rparr>) = aloof b c ch s" "aloof b c ch (s\<lparr>kernel_rng := rg\<rparr>) = aloof b c ch s"
  "aloof b c ch (s\<lparr>nic := n\<rparr>) = aloof b c ch s" "aloof b c ch (s\<lparr>root_fs := f\<rparr>) = aloof b c ch s"
  "aloof b c ch (s\<lparr>kernel_keyboard := kb\<rparr>) = aloof b c ch s"
  by (simp_all add: aloof_def can_reach_def)

lemma table_knows_frame [simp]:
  "table_knows b c (t\<lparr>accepted := a\<rparr>) = table_knows b c t" "table_knows b c (t\<lparr>next_channel_id := n\<rparr>) = table_knows b c t"
  "table_knows b c (t\<lparr>table_registry := r\<rparr>) = table_knows b c t"
  by (simp_all add: table_knows_def table_resolve_def)

lemma table_knows_register:
  "table_knows b c (snd (table_register b' c' t)) \<Longrightarrow> c' = c \<or> table_knows b c t"
  by (auto simp: table_knows_def table_resolve_def table_register_def Let_def btree_simps split: if_splits)

lemma table_knows_gates:
  assumes "table_knows b c (t\<lparr>gates := gs\<rparr>)"
    "\<And>g. gate_owner gs g = Some b \<Longrightarrow> c \<in> snd ` set (gate_queue gs g) \<Longrightarrow>
       gate_owner (gates t) g = Some b \<and> c \<in> snd ` set (gate_queue (gates t) g)"
  shows "table_knows b c t"
  using assms by (auto simp: table_knows_def table_resolve_def)

lemma aloof_table:
  "aloof b c ch s \<Longrightarrow> channel_table s = Some t \<Longrightarrow> (table_knows b c t' \<Longrightarrow> table_knows b c t) \<Longrightarrow>
   aloof b c ch (s\<lparr>channel_table := Some t'\<rparr>)"
  by (auto simp: aloof_def can_reach_def)

lemma aloof_new_cell:
  "aloof b c ch s \<Longrightarrow> channel_table s = Some t \<Longrightarrow> (table_knows b c t' \<Longrightarrow> c = length (channel_cells s) \<or> table_knows b c t) \<Longrightarrow>
   aloof b c ch (s\<lparr>channel_cells := channel_cells s @ [ch'], channel_table := Some t'\<rparr>)"
  by (auto simp: aloof_def can_reach_def nth_append)

lemma aloof_resolve:
  "aloof b c ch s \<Longrightarrow> channel_table s = Some t \<Longrightarrow> table_resolve (boundary_raw b) h t = Some c' \<Longrightarrow> c' \<noteq> c"
  by (auto simp: aloof_def can_reach_def table_knows_def)

lemma aloof_cell:
  "aloof b c ch s \<Longrightarrow> c' \<noteq> c \<Longrightarrow> aloof b c ch (s\<lparr>channel_cells := (channel_cells s)[c' := x], sched := k\<rparr>)"
  by (auto simp: aloof_def can_reach_def)

lemma aloof_cell_ops:
  assumes "aloof b c ch s" "channel_table s = Some t" "table_resolve (boundary_raw b) h t = Some c'"
  shows "run_at (aloof b c ch) (bindE (cell_send P c' msg) send_outcome) s"
    "run_at (aloof b c ch) (bindE (cell_recv P c') recv_outcome) s"
    "run_at (aloof b c ch) (cell_close P c') s"
proof -
  note cell = aloof_cell [OF assms(1) aloof_resolve [OF assms]]
  show "run_at (aloof b c ch) (bindE (cell_send P c' msg) send_outcome) s"
    by (cases "try_send (kernel_kif P) (active_lane s) msg (channel_cells s ! c', sched s)")
      (auto intro!: at_bind at_outcomes cell simp: cell_send_def ret_def)
  show "run_at (aloof b c ch) (bindE (cell_recv P c') recv_outcome) s"
    by (cases "try_recv (kernel_kif P) (active_lane s) (channel_cells s ! c', sched s)")
      (auto intro!: at_bind at_outcomes cell simp: cell_recv_def ret_def)
  show "run_at (aloof b c ch) (cell_close P c') s"
    by (cases "close (kernel_kif P) (channel_cells s ! c', sched s)") (auto simp: run_at_def cell_close_def ret_def intro: cell)
qed
section \<open>Every method keeps apart\<close>

lemma runs_conj:
  assumes "runs I (\<lambda>_. True) m" "\<And>s. I s \<Longrightarrow> K s \<Longrightarrow> run_at K m s"
  shows "runs (\<lambda>s. I s \<and> K s) (\<lambda>_. True) m"
  unfolding runs_def
proof (intro allI impI)
  fix s
  assume s: "I s \<and> K s"
  obtain r s' where "m s = Some (r, s')" "I s'" using assms(1) s by (auto simp: runs_def)
  moreover from this have "K s'" using assms(2) [of s] s by (simp add: run_at_def)
  ultimately show "\<exists>r s'. m s = Some (r, s') \<and> (I s' \<and> K s') \<and> (case r of Inl _ \<Rightarrow> True | Inr _ \<Rightarrow> True)"
    by (auto split: sum.split)
qed

lemma aloof_message_ops:
  assumes "aloof b c ch s"
  shows "run_at (aloof b c ch) (kernel_channel_send P b h msg) s"
    "run_at (aloof b c ch) (kernel_channel_recv P b h) s"
    "run_at (aloof b c ch) (kernel_link_close P b h) s"
  unfolding kernel_channel_send_def kernel_channel_recv_def kernel_link_close_def
  by (intro at_rules aloof_cell_ops assms; assumption)+

lemma aloof_net:
  assumes "kernel_inv D valid nv s" "aloof b c ch s" "runs (net_ok nv) (\<lambda>_. True) m"
    "\<And>r s'. aloof b c ch s' \<Longrightarrow> run_at (aloof b c ch) (k r) s'"
  shows "run_at (aloof b c ch) (bindE (on_net m) k) s"
proof -
  obtain r n where m: "m (nic s) = Some (r, n)" using assms(1,3) unfolding runs_def kernel_inv_def by blast
  have "aloof b c ch (s\<lparr>nic := n\<rparr>)" using assms(2) by simp
  from assms(4) [OF this] show ?thesis using m by (simp add: run_at_def bindE_def on_net_def)
qed

lemma aloof_link_ops:
  assumes "net_device (net_device_of P) nv" "kernel_inv D valid nv s" "aloof b c ch s"
  shows "run_at (aloof b c ch) (kernel_link_send P b h msg) s" "run_at (aloof b c ch) (kernel_link_recv P b h) s"
proof -
  have sent: "run_at (aloof b c ch) (bindE (on_net (remote_send (net_device_of P) rl msg)) (\<lambda>r.
      case r of Inr _ \<Rightarrow> ret () | Inl (TransportNet _) \<Rightarrow> throw InvalidArgument | Inl _ \<Rightarrow> throw WouldBlock)) s"
    and received: "run_at (aloof b c ch) (bindE (on_net (remote_recv (net_device_of P) rl 1500)) (\<lambda>r.
      case r of Inr (Some bytes) \<Rightarrow> ret bytes | _ \<Rightarrow> throw WouldBlock)) s" for rl
    by (intro aloof_net [OF assms(2,3)] net_device.transport_runs [OF assms(1)] at_transport; assumption)+
  show "run_at (aloof b c ch) (kernel_link_send P b h msg) s"
    unfolding kernel_link_send_def
    by (rule at_resolve_any) (simp_all only: sum.case assms(3) sent aloof_cell_ops [OF assms(3)])
  show "run_at (aloof b c ch) (kernel_link_recv P b h) s"
    unfolding kernel_link_recv_def
    by (rule at_resolve_any) (simp_all only: sum.case assms(3) received aloof_cell_ops [OF assms(3)])
qed

lemma aloof_open_channel:
  assumes "aloof b c ch s"
  shows "run_at (aloof b c ch) (kernel_open_channel P b cap m) s"
  unfolding kernel_open_channel_def registry_create_def Let_def case_prod_beta fst_conv snd_conv
  by (intro at_get_table at_sum at_throw assms at_cell_new at_put_table at_ret, simp)
    (rule aloof_new_cell [OF assms], assumption, auto dest: table_knows_register)

lemma aloof_accept_channel:
  assumes "aloof b c ch s"
  shows "run_at (aloof b c ch) (kernel_accept_channel b rid) s"
proof -
  have "run_at (aloof b c ch) (case res of None \<Rightarrow> throw NotPermitted
       | Some (ch', requester) \<Rightarrow>
           bindE (cell_new ch') (\<lambda>c.
             let (th, t) = table_register (boundary_raw b) c (t\<lparr>table_registry := reg\<rparr>);
                 (rh, t) = table_register (boundary_raw requester) c t;
                 t = t\<lparr>accepted := bt_insert rid (boundary_raw requester, rh) (accepted t)\<rparr> in
             bindE (put_table t) (\<lambda>_. ret th))) s" if "channel_table s = Some t" for t reg res
    unfolding Let_def case_prod_beta
    by (intro at_option at_throw assms at_cell_new at_put_table at_ret)
      (rule aloof_new_cell [OF assms that], auto dest!: table_knows_register)
  then show ?thesis
    unfolding kernel_accept_channel_def by (intro at_get_table assms) (simp add: case_prod_beta)
qed

lemma aloof_table_ops:
  assumes "aloof b c ch s"
  shows "run_at (aloof b c ch) (kernel_request_channel b b' terms) s"
    "run_at (aloof b c ch) (kernel_poll_channel_request b out) s"
    "run_at (aloof b c ch) (kernel_reject_channel b rid) s"
    "run_at (aloof b c ch) (kernel_poll_channel_outcome b rid) s"
    "run_at (aloof b c ch) (kernel_gate_probe b g) s"
proof -
  note table = aloof_table [OF assms]
  show "run_at (aloof b c ch) (kernel_request_channel b b' terms) s" "run_at (aloof b c ch) (kernel_reject_channel b rid) s"
    "run_at (aloof b c ch) (kernel_gate_probe b g) s"
    unfolding kernel_request_channel_def kernel_reject_channel_def kernel_gate_probe_def Let_def case_prod_beta
    by (intro at_get_table at_put_table at_if at_ret at_throw assms; erule table, simp)+
  show "run_at (aloof b c ch) (kernel_poll_channel_request b out) s"
    unfolding kernel_poll_channel_request_def Let_def by (intro at_get_table at_of_option assms) (auto intro: at_rules assms)
  show "run_at (aloof b c ch) (kernel_poll_channel_outcome b rid) s"
    unfolding kernel_poll_channel_outcome_def by (intro at_get_table at_option assms) (auto intro!: at_rules assms table)
qed
lemma aloof_gate_ops:
  assumes "aloof b c ch s"
  shows "run_at (aloof b c ch) (kernel_gate_bind b g) s" "run_at (aloof b c ch) (kernel_warden_set b g allow) s"
proof -
  have "table_knows b c (t\<lparr>gates := snd (gate_bind b g (gates t))\<rparr>) \<Longrightarrow> table_knows b c t" for t
    by (erule table_knows_gates)
      (auto simp: gate_bind_def gate_owner_def gate_queue_simps btree_simps split: if_splits)
  then show "run_at (aloof b c ch) (kernel_gate_bind b g) s"
    unfolding kernel_gate_bind_def Let_def case_prod_beta
    by (intro at_rules assms; erule_tac aloof_table [OF assms]; blast)
  have "table_knows b c (t\<lparr>gates := (if allow then warden_allow g (gates t) else warden_deny g (gates t))\<rparr>) \<Longrightarrow> table_knows b c t" for t
    by (erule table_knows_gates) (auto simp: warden_allow_def warden_deny_def gate_owner_def gate_queue_def split: if_splits)
  then show "run_at (aloof b c ch) (kernel_warden_set b g allow) s"
    unfolding kernel_warden_set_def
    by (intro at_get_table assms) (auto simp: run_at_def put_table_def ret_def intro!: aloof_table [OF assms])
qed

lemma aloof_gate_accept:
  assumes "aloof b c ch s"
  shows "run_at (aloof b c ch) (kernel_gate_accept b g) s"
  unfolding kernel_gate_accept_def Let_def case_prod_beta
proof (intro at_get_table assms)
  fix t
  assume t: "channel_table s = Some t"
  have far: "\<not> table_knows b c t" using assms t by (auto simp: aloof_def can_reach_def)
  let ?gs = "snd (gate_accept b g (gates t))"
  have gs: "table_knows b c (t\<lparr>gates := ?gs\<rparr>) \<Longrightarrow> table_knows b c t"
    by (erule table_knows_gates)
      (auto simp: gate_accept_def gate_owner_def gate_queue_def btree_simps split: if_splits option.splits list.splits)
  have "fst cp \<noteq> c" if "fst (gate_accept b g (gates t)) = Inr cp" for cp
  proof -
    have "gate_owner (gates t) g = Some b" "fst cp \<in> snd ` set (gate_queue (gates t) g)"
      using that by (auto simp: gate_accept_def gate_owner_def gate_queue_def split: option.splits if_splits list.splits)
    then show ?thesis using far by (auto simp: table_knows_def)
  qed
  then have reg: "table_knows b c (snd (table_register (boundary_raw b) (fst cp) (t\<lparr>gates := ?gs\<rparr>))) \<Longrightarrow> table_knows b c t"
    if "fst (gate_accept b g (gates t)) = Inr cp" for cp
    using that gs by (blast dest: table_knows_register)
  show "run_at (aloof b c ch)
      (case fst (gate_accept b g (gates t)) of
         Inl e \<Rightarrow> bindE (put_table (t\<lparr>gates := ?gs\<rparr>))
           (\<lambda>_. if e = GateWouldBlock then throw WouldBlock else if e = NotOwner then throw NotPermitted else throw NotFound)
       | Inr cp \<Rightarrow> bindE (put_table (snd (table_register (boundary_raw b) (fst cp) (t\<lparr>gates := ?gs\<rparr>))))
           (\<lambda>_. ret (fst (table_register (boundary_raw b) (fst cp) (t\<lparr>gates := ?gs\<rparr>))))) s"
    by (intro at_rules aloof_table [OF assms t] gs reg)
qed

lemma aloof_gate_connect:
  assumes hs: "stores_what_fits (bounded_string P)" and s: "kernel_inv D valid nv s" "aloof b c ch s"
  shows "run_at (aloof b c ch) (kernel_gate_connect P b g) s"
  unfolding kernel_gate_connect_def
proof (rule at_get_table, rule s(2))
  fix t
  assume t: "channel_table s = Some t"
  let ?cid = "ChannelId (next_channel_id t)" and ?n = "next_channel_id t + 1"
  have cap: "link_capacity (gates t) \<noteq> 0" using table_gate_inv [OF s(1) t] by (simp add: gate_inv_def)
  have far: "\<not> table_knows b c t" "c < length (channel_cells s)" using s(2) t by (auto simp: aloof_def can_reach_def)
  have refused: "aloof b c ch (s\<lparr>channel_table := Some (t\<lparr>next_channel_id := ?n\<rparr>)\<rparr>)"
    by (rule aloof_table [OF s(2) t]) simp
  let ?gs = "\<lambda>bg. gates t\<lparr>bound := bt_insert g (bg\<lparr>connects := connects bg @ [\<lparr>pc_from = b, listener_link = length (channel_cells s)\<rparr>]\<rparr>) (bound (gates t))\<rparr>"
  have "table_knows b c (t\<lparr>next_channel_id := ?n, gates := ?gs bg\<rparr>) \<Longrightarrow> table_knows b c (t\<lparr>next_channel_id := ?n\<rparr>)"
    if "bt_get (bound (gates t)) g = Some bg" for bg
    by (erule table_knows_gates) (use that far(2) in \<open>auto simp: gate_owner_def gate_queue_def btree_simps split: if_splits option.splits\<close>)
  then have "aloof b c ch (s\<lparr>channel_cells := channel_cells s @ [x],
      channel_table := Some (snd (table_register (boundary_raw b) (length (channel_cells s)) (t\<lparr>next_channel_id := ?n, gates := ?gs bg\<rparr>)))\<rparr>)"
    if "bt_get (bound (gates t)) g = Some bg" for bg x
    using that by (intro aloof_new_cell [OF s(2) t]) (auto dest!: table_knows_register)
  then show "run_at (aloof b c ch) (\<lambda>s.
       let cid = ChannelId (next_channel_id t);
           (r, gs, cells) = gate_connect (bounded_string P) b g cid (gates t, channel_cells s);
           t = t\<lparr>next_channel_id := next_channel_id t + 1, gates := gs\<rparr>;
           s = s\<lparr>channel_cells := cells\<rparr> in
       (case r of
          Inl e \<Rightarrow>
            bindE (put_table t) (\<lambda>_.
              if e = Blocked then throw NotPermitted else if e = Refused then throw NotFound else throw InvalidArgument)
        | Inr c \<Rightarrow> let (h, t) = table_register (boundary_raw b) c t in bindE (put_table t) (\<lambda>_. ret h)) s) s"
    using refused unfolding run_at_def Let_def gate_connect_outcome [OF hs cap]
    by (auto simp: bindE_def put_table_def ret_def throw_def case_prod_beta split: option.split)
qed
lemma aloof_other_ops:
  assumes "aloof b c ch s"
  shows "run_at (aloof b c ch) (kernel_copy_from_user b' p n out) s" "run_at (aloof b c ch) (kernel_copy_to_user b' p bytes) s"
    "run_at (aloof b c ch) (kernel_fill_random P out) s" "run_at (aloof b c ch) (kernel_sleep_nanos ns) s"
    "run_at (aloof b c ch) (kernel_spawn b' e a) s"
proof -
  show "run_at (aloof b c ch) (kernel_sleep_nanos ns) s"
    using kernel_sleep_returns [of ns s] assms by (auto simp: run_at_def)
qed (use assms in \<open>auto simp: run_at_def kernel_copy_from_user_def kernel_copy_to_user_def kernel_fill_random_def
    kernel_spawn_def throw_def ret_def case_prod_beta Let_def split: option.split\<close>)

lemma aloof_root_fs:
  assumes "kernel_inv D valid nv s" "aloof b c ch s" "\<And>f. fs_wf D valid f \<Longrightarrow> \<exists>r f'. m f = Some (r, f') \<and> fs_wf D valid f'"
    "\<And>r s'. aloof b c ch s' \<Longrightarrow> run_at (aloof b c ch) (k r) s'"
  shows "run_at (aloof b c ch) (bindE (on_root_fs m) k) s"
proof (cases "root_fs s")
  case None
  then show ?thesis using assms(2) by (simp add: run_at_def bindE_def on_root_fs_def throw_def)
next
  case (Some f)
  then have "fs_wf D valid f" using assms(1) by (simp add: kernel_inv_def)
  from assms(3) [OF this] obtain r f' where m: "m f = Some (r, f')" by blast
  have "aloof b c ch (s\<lparr>root_fs := Some f'\<rparr>)" using assms(2) by simp
  from assms(4) [OF this] show ?thesis using m Some by (simp add: run_at_def bindE_def on_root_fs_def)
qed

lemma aloof_file_ops:
  assumes "block_device (disk P) valid" "kernel_inv (disk P) valid nv s" "aloof b c ch s"
  shows "run_at (aloof b c ch) (kernel_fs_read P path) s" "run_at (aloof b c ch) (kernel_fs_write P path bytes) s"
    "run_at (aloof b c ch) (kernel_fs_mkdir P path) s" "run_at (aloof b c ch) (kernel_fs_exists P path) s"
    "run_at (aloof b c ch) (kernel_fs_list P path) s" "run_at (aloof b c ch) (kernel_fs_delete P path) s"
  unfolding kernel_fs_read_def kernel_fs_write_def kernel_fs_mkdir_def kernel_fs_exists_def kernel_fs_list_def
    kernel_fs_delete_def map_fs_err_def
  by (intro aloof_root_fs [OF assms(2,3)] file_calls_return [OF assms(1)] at_rules; assumption)+

lemma aloof_read_key:
  "aloof b c ch s \<Longrightarrow> kernel_read_key P blocking s = Some (k, s') \<Longrightarrow> aloof b c ch s'"
  by (auto simp: kernel_read_key_def case_prod_beta Let_def split: option.splits if_splits)

lemmas aloof_rules = aloof_message_ops aloof_open_channel aloof_accept_channel aloof_table_ops aloof_gate_ops
  aloof_gate_accept aloof_other_ops

context booted_kernel
begin

lemma apart_run:
  "(\<And>s. kernel_inv (disk P) valid nv s \<Longrightarrow> aloof b c ch s \<Longrightarrow> run_at (aloof b c ch) m s) \<Longrightarrow>
   runs (kernel_inv (disk P) valid nv) (\<lambda>_. True) m \<Longrightarrow>
   runs (\<lambda>s. kernel_inv (disk P) valid nv s \<and> aloof b c ch s) (\<lambda>_. True) m"
  by (rule runs_conj)

lemma serves_apart:
  "syscall_environment (pinned b (kernel_env P)) (\<lambda>s. kernel_inv (disk P) valid nv s \<and> aloof b c ch s)"
proof (unfold_locales, goal_cases)
  case (3 s bytes)
  then show ?case by (simp add: pinned_def kernel_env_def kernel_console_write_def)
next
  case (11 s blocking)
  then show ?case
    using read_key_runs [OF typing, of "disk P" valid nv s blocking] aloof_read_key [of b c ch s P blocking]
    by (auto simp: pinned_def kernel_env_def)
qed (simp_all only: pinned_def kernel_env_def syscall_env.simps,
    (rule apart_run,
      (rule aloof_gate_connect [OF strings] aloof_file_ops [OF device] aloof_link_ops [OF network] aloof_rules; assumption),
      (rule kernel_methods_run; (rule device network strings | assumption)?))+)

end
section \<open>Properties\<close>


text \<open>A channel of boundary 5 alone; boundary 6 tries its handle and every Gate call.\<close>

definition demo_private :: "(ram_disk, scheduler, loopback_nic) kernel_state" where
  "demo_private = (sim_state demo_memory None)
     \<lparr>channel_cells := [channel_new (ChannelId 1) demo_terms],
      channel_table := Some (snd (table_register 5 0 channel_handle_table_new))\<rparr>"

definition demo_intruder :: "syscall_request list" where
  "demo_intruder = map (\<lambda>n. \<lparr>number = n, arg0 = 0, arg1 = 0x1040, arg2 = 2, caller = BoundaryId 6\<rparr>) [15, 16, 26, 27, 28]"


end
