(* ===== verification/Spec2Isabelle.thy ===== *)
theory Spec2Isabelle
  imports Paging_Properties Serialization Gate Memory_Manager Container Fs_Properties Kernel_Isolation
begin

text \<open>
  Verification of the CIBOS platform.
\<close>

end
